(* ===== verification/Prelude.thy ===== *)
theory Prelude
  imports Main "HOL-Library.Word"
begin

text \<open>
  Shared vocabulary of the development: the machine integers of the kernel sources
  (\<open>uint8_t\<close>, \<open>uint16_t\<close>, \<open>uint32_t\<close>, \<open>uint64_t\<close> as words), the ways in which a kernel
  function can fail to return (a \<open>fmt::panic\<close>, a \<open>proc::sleep\<close> that nobody ends, an access
  outside an object), the state-passing composition used by every stateful component, the
  little-endian view of byte arrays that the \<open>reinterpret_cast\<close>s of the sources rely on,
  and the generic lemmas about lists and words that the component theories use.
\<close>

unbundle bit_operations_syntax

named_theorems kdefs \<open>the primitive combinators of the state-passing embedding\<close>
named_theorems layout_simps \<open>constants of the on-disk and in-memory layout\<close>

type_synonym u8 = "8 word"
type_synonym u16 = "16 word"
type_synonym u32 = "32 word"
type_synonym u64 = "64 word"
type_synonym bytes = "u8 list"

section \<open>Faults and state-passing composition\<close>

text \<open>
  \<open>Panic m\<close>: the code reached \<open>fmt::panic(m)\<close>, which never returns.
  \<open>Sleeps c\<close>: the code reached \<open>proc::sleep\<close> on channel \<open>c\<close> and nothing in the modelled
  run wakes it.  \<open>Oob w\<close>: the code reads or writes outside the object named \<open>w\<close>, which
  C++ leaves undefined.  \<open>Diverges\<close>: a loop of the code does not end.
\<close>

datatype fault = Panic string | Sleeps string | Oob string | Diverges

type_synonym ('s, 'a) kop = "'s \<Rightarrow> fault + ('a \<times> 's)"

definition kreturn :: "'a \<Rightarrow> ('s, 'a) kop" where
  "kreturn a = (\<lambda>s. Inr (a, s))"

definition kfail :: "fault \<Rightarrow> ('s, 'a) kop" where
  "kfail e = (\<lambda>s. Inl e)"

definition kbind :: "('s, 'a) kop \<Rightarrow> ('a \<Rightarrow> ('s, 'b) kop) \<Rightarrow> ('s, 'b) kop" where
  "kbind m f = (\<lambda>s. case m s of Inl e \<Rightarrow> Inl e | Inr (a, s') \<Rightarrow> f a s')"

definition kgets :: "('s \<Rightarrow> 'a) \<Rightarrow> ('s, 'a) kop" where
  "kgets f = (\<lambda>s. Inr (f s, s))"

definition kmodify :: "('s \<Rightarrow> 's) \<Rightarrow> ('s, unit) kop" where
  "kmodify f = (\<lambda>s. Inr ((), f s))"

definition kwhen :: "bool \<Rightarrow> ('s, unit) kop \<Rightarrow> ('s, unit) kop" where
  "kwhen b m = (if b then m else kreturn ())"

abbreviation kthen :: "('s, 'a) kop \<Rightarrow> ('s, 'b) kop \<Rightarrow> ('s, 'b) kop" where
  "kthen m n \<equiv> kbind m (\<lambda>_. n)"

lemma option_eqI: "(\<And>y. a = Some y \<longleftrightarrow> b = Some y) \<Longrightarrow> a = b"
  by (cases a; cases b) auto

lemma kreturn_apply [simp]: "kreturn a s = Inr (a, s)"
  by (simp add: kreturn_def)

lemma kfail_apply [simp]: "kfail e s = Inl e"
  by (simp add: kfail_def)

lemma kgets_apply [simp]: "kgets f s = Inr (f s, s)"
  by (simp add: kgets_def)

lemma kmodify_apply [simp]: "kmodify f s = Inr ((), f s)"
  by (simp add: kmodify_def)

lemma kwhen_simps [simp]: "kwhen True m = m" "kwhen False m = kreturn ()"
  by (simp_all add: kwhen_def)

lemma kbind_Inr: "m s = Inr (a, s') \<Longrightarrow> kbind m f s = f a s'"
  by (simp add: kbind_def)

lemma kbind_Inl: "m s = Inl e \<Longrightarrow> kbind m f s = Inl e"
  by (simp add: kbind_def)

lemma kbind_gets [simp]: "kbind (kgets g) f s = f (g s) s"
  by (simp add: kbind_def)

lemma kbind_modify [simp]: "kbind (kmodify g) f s = f () (g s)"
  by (simp add: kbind_def)

lemma kbind_return [simp]: "kbind (kreturn a) f = f a"
  by (simp add: kbind_def fun_eq_iff)

lemma kbind_fail [simp]: "kbind (kfail e) f = kfail e"
  by (simp add: kbind_def fun_eq_iff)

lemma kbind_assoc: "kbind (kbind m f) g = kbind m (\<lambda>a. kbind (f a) g)"
  by (auto simp: kbind_def fun_eq_iff split: sum.splits)

lemma kbind_eq_Inr:
  "kbind m f s = Inr (b, t) \<longleftrightarrow> (\<exists>a s'. m s = Inr (a, s') \<and> f a s' = Inr (b, t))"
  by (auto simp: kbind_def split: sum.splits)

lemma kbind_cong [fundef_cong]:
  assumes "m s = m' s'" and "s = s'"
    and "\<And>a t. m' s' = Inr (a, t) \<Longrightarrow> f a t = f' a t"
  shows "kbind m f s = kbind m' f' s'"
  using assms by (auto simp: kbind_def split: sum.splits)

text \<open>A counting loop: the body for each index in turn.\<close>

fun kfor :: "('i \<Rightarrow> ('s, unit) kop) \<Rightarrow> 'i list \<Rightarrow> ('s, unit) kop" where
  "kfor f [] = kreturn ()"
| "kfor f (i # is) = kthen (f i) (kfor f is)"

lemma kfor_append: "kfor f (xs @ ys) = kthen (kfor f xs) (kfor f ys)"
  by (induction xs) (auto simp: kbind_def fun_eq_iff split: sum.splits)

lemmas [kdefs] = kbind_def kreturn_def kfail_def kgets_def kmodify_def kwhen_def

section \<open>Little-endian integers inside byte arrays\<close>

text \<open>
  RISC-V is little-endian, so a \<open>uint32_t *\<close> that points at offset \<open>off\<close> of a byte array
  reads and writes the four bytes from \<open>off\<close> on, least significant first.
\<close>

definition get_u16 :: "bytes \<Rightarrow> nat \<Rightarrow> u16" where
  "get_u16 bs off = ucast (bs ! off) OR push_bit 8 (ucast (bs ! (off + 1)))"

definition put_u16 :: "bytes \<Rightarrow> nat \<Rightarrow> u16 \<Rightarrow> bytes" where
  "put_u16 bs off v = bs[off := ucast v, off + 1 := ucast (drop_bit 8 v)]"

definition get_u32 :: "bytes \<Rightarrow> nat \<Rightarrow> u32" where
  "get_u32 bs off = ucast (bs ! off) OR push_bit 8 (ucast (bs ! (off + 1)))
     OR push_bit 16 (ucast (bs ! (off + 2))) OR push_bit 24 (ucast (bs ! (off + 3)))"

definition put_u32 :: "bytes \<Rightarrow> nat \<Rightarrow> u32 \<Rightarrow> bytes" where
  "put_u32 bs off v = bs[off := ucast v, off + 1 := ucast (drop_bit 8 v),
     off + 2 := ucast (drop_bit 16 v), off + 3 := ucast (drop_bit 24 v)]"

lemma length_put_u16 [simp]: "length (put_u16 bs off v) = length bs"
  by (simp add: put_u16_def)

lemma length_put_u32 [simp]: "length (put_u32 bs off v) = length bs"
  by (simp add: put_u32_def)

lemma u16_bytes: "ucast (ucast v :: u8) OR push_bit 8 (ucast (ucast (drop_bit 8 v) :: u8)) = (v :: u16)"
  by (rule bit_word_eqI) (auto simp: bit_simps)

lemma u32_bytes:
  "ucast (ucast v :: u8) OR push_bit 8 (ucast (ucast (drop_bit 8 v) :: u8))
     OR push_bit 16 (ucast (ucast (drop_bit 16 v) :: u8))
     OR push_bit 24 (ucast (ucast (drop_bit 24 v) :: u8)) = (v :: u32)"
proof (rule bit_word_eqI)
  fix n assume "n < LENGTH(32)"
  then consider "n < 8" | "8 \<le> n" "n < 16" | "16 \<le> n" "n < 24" | "24 \<le> n" "n < 32"
    by fastforce
  then show "bit (ucast (ucast v :: u8) OR push_bit 8 (ucast (ucast (drop_bit 8 v) :: u8))
     OR push_bit 16 (ucast (ucast (drop_bit 16 v) :: u8))
     OR push_bit 24 (ucast (ucast (drop_bit 24 v) :: u8)) :: u32) n = bit v n"
    by cases (auto simp: bit_simps)
qed

lemma get_put_u16 [simp]: "off + 2 \<le> length bs \<Longrightarrow> get_u16 (put_u16 bs off v) off = v"
  by (simp add: get_u16_def put_u16_def u16_bytes)

lemma get_put_u32 [simp]: "off + 4 \<le> length bs \<Longrightarrow> get_u32 (put_u32 bs off v) off = v"
  by (simp add: get_u32_def put_u32_def u32_bytes)

lemma nth_put_u16 [simp]: "i < off \<or> off + 2 \<le> i \<Longrightarrow> put_u16 bs off v ! i = bs ! i"
  by (auto simp: put_u16_def)

lemma nth_put_u32 [simp]: "i < off \<or> off + 4 \<le> i \<Longrightarrow> put_u32 bs off v ! i = bs ! i"
  by (auto simp: put_u32_def)

lemma get_u32_put_u32_other [simp]:
  "off' + 4 \<le> off \<or> off + 4 \<le> off' \<Longrightarrow> get_u32 (put_u32 bs off v) off' = get_u32 bs off'"
  by (auto simp: get_u32_def)

lemma get_u16_put_u32_other [simp]:
  "off' + 2 \<le> off \<or> off + 4 \<le> off' \<Longrightarrow> get_u16 (put_u32 bs off v) off' = get_u16 bs off'"
  by (auto simp: get_u16_def)

lemma get_u32_put_u16_other [simp]:
  "off' + 4 \<le> off \<or> off + 2 \<le> off' \<Longrightarrow> get_u32 (put_u16 bs off v) off' = get_u32 bs off'"
  by (auto simp: get_u32_def)

lemma get_u16_put_u16_other [simp]:
  "off' + 2 \<le> off \<or> off + 2 \<le> off' \<Longrightarrow> get_u16 (put_u16 bs off v) off' = get_u16 bs off'"
  by (auto simp: get_u16_def)

section \<open>Words and natural numbers\<close>

lemma unat_of_nat_lt [simp]:
  "n < 2 ^ LENGTH('a) \<Longrightarrow> unat (of_nat n :: 'a::len word) = n"
  by (simp add: unat_of_nat)

lemma unat_lt [simp]: "unat (w :: 'a::len word) < 2 ^ LENGTH('a)"
  by (rule unsigned_less)

lemma unat_ucast_up:
  "LENGTH('a::len) \<le> LENGTH('b::len) \<Longrightarrow> unat (ucast (x :: 'a word) :: 'b word) = unat x"
  by (simp add: unsigned_ucast_eq take_bit_nat_eq_self_iff
      order.strict_trans2 [OF unsigned_less power_increasing])

lemma ucast_down_up:
  "LENGTH('a::len) \<le> LENGTH('b::len) \<Longrightarrow> ucast (ucast (x :: 'a word) :: 'b word) = x"
  by (rule bit_word_eqI) (simp add: bit_simps)

lemma unat_add_no_wrap:
  "unat a + unat b < 2 ^ LENGTH('a) \<Longrightarrow> unat (a + b :: 'a::len word) = unat a + unat b"
  by (simp add: unat_add_lem [THEN iffD1])

lemma unat_sub_no_wrap: "b \<le> a \<Longrightarrow> unat (a - b :: 'a::len word) = unat a - unat b"
  by (rule unat_sub)

lemma unat_sub_wrap:
  "a < b \<Longrightarrow> unat (a - b :: 'a::len word) = 2 ^ LENGTH('a) + unat a - unat b"
  by (simp add: unat_sub_if_size word_size word_less_nat_alt)

end
