(* ===== verification/Cstring.thy ===== *)
theory Cstring
  imports Prelude
begin

text \<open>
  \<open>kernel/micro_libcxx/src/cstring.cpp\<close> (and its identical copy in \<open>ulibc++/src\<close>): the
  byte-string primitives, over a byte-addressed memory with 64-bit addresses.  A
  \<open>for (i = 0; i < count; ++i)\<close> loop is a fold over \<open>[0..<count]\<close>; a loop that moves its
  pointers and decrements its 32-bit counter is a recursive function over words, so that
  the wrap-around of the counter is visible.
\<close>

type_synonym memory = "u64 \<Rightarrow> u8"

section \<open>The operations\<close>

definition memset :: "memory \<Rightarrow> u64 \<Rightarrow> 32 word \<Rightarrow> u32 \<Rightarrow> memory" where
  "memset m dest ch count =
     fold (\<lambda>i m. m(dest + of_nat i := ucast ch)) [0..<unat count] m"

definition copy_byte :: "u64 \<Rightarrow> u64 \<Rightarrow> nat \<Rightarrow> memory \<Rightarrow> memory" where
  "copy_byte d s i m = m(d + of_nat i := m (s + of_nat i))"

definition copy_up :: "memory \<Rightarrow> u64 \<Rightarrow> u64 \<Rightarrow> nat \<Rightarrow> memory" where
  "copy_up m d s n = fold (copy_byte d s) [0..<n] m"

definition copy_down :: "memory \<Rightarrow> u64 \<Rightarrow> u64 \<Rightarrow> nat \<Rightarrow> memory" where
  "copy_down m d s n = fold (copy_byte d s) (rev [0..<n]) m"

definition memmove :: "memory \<Rightarrow> u64 \<Rightarrow> u64 \<Rightarrow> u32 \<Rightarrow> memory" where
  "memmove m dest src count =
     (if dest = src \<or> count = 0 then m
      else if dest < src then copy_up m dest src (unat count)
      else copy_down m dest src (unat count))"

definition memcpy :: "memory \<Rightarrow> u64 \<Rightarrow> u64 \<Rightarrow> u32 \<Rightarrow> memory" where
  "memcpy m dest src count = copy_up m dest src (unat count)"

text \<open>
  \<open>while (count-- > 0 && (*dest++ = *src++) != 0) {}\<close>: the counter is decremented by every
  test, the failing one included, so it leaves the loop as \<open>0xffffffff\<close> when it ran out.
\<close>

function strncpy_copy :: "memory \<Rightarrow> u64 \<Rightarrow> u64 \<Rightarrow> u32 \<Rightarrow> memory \<times> u64 \<times> u32" where
  "strncpy_copy m dest src count =
     (if count = 0 then (m, dest, count - 1)
      else let ch = m src; m' = m(dest := ch) in
        if ch \<noteq> 0 then strncpy_copy m' (dest + 1) (src + 1) (count - 1)
        else (m', dest + 1, count - 1))"
  by pat_completeness auto
termination
  by (relation "measure (\<lambda>(m, d, s, c). unat c)") (auto simp: unat_gt_0 measure_unat)

function strncpy_pad :: "memory \<Rightarrow> u64 \<Rightarrow> u32 \<Rightarrow> memory" where
  "strncpy_pad m dest count =
     (if count = 0 then m else strncpy_pad (m(dest := 0)) (dest + 1) (count - 1))"
  by pat_completeness auto
termination
  by (relation "measure (\<lambda>(m, d, c). unat c)") (auto simp: measure_unat)

definition strncpy :: "memory \<Rightarrow> u64 \<Rightarrow> u64 \<Rightarrow> u32 \<Rightarrow> memory" where
  "strncpy m dest src count =
     (case strncpy_copy m dest src count of (m', dest', count') \<Rightarrow> strncpy_pad m' dest' count')"

function strncmp :: "memory \<Rightarrow> u64 \<Rightarrow> u64 \<Rightarrow> u32 \<Rightarrow> int" where
  "strncmp m lhs rhs count =
     (if 0 < count \<and> m lhs \<noteq> 0 \<and> m lhs = m rhs
      then strncmp m (lhs + 1) (rhs + 1) (count - 1)
      else if count = 0 then 0 else uint (m lhs) - uint (m rhs))"
  by pat_completeness auto
termination
  by (relation "measure (\<lambda>(m, l, r, c). unat c)") (auto simp: measure_unat)

partial_function (option) strlen_loop :: "memory \<Rightarrow> u64 \<Rightarrow> u64 option" where
  "strlen_loop m s = (if m s \<noteq> 0 then strlen_loop m (s + 1) else Some s)"

definition strlen :: "memory \<Rightarrow> u64 \<Rightarrow> u32 option" where
  "strlen m str =
     (if str = 0 then Some 0 else map_option (\<lambda>s. ucast (s - str)) (strlen_loop m str))"

declare strncpy_copy.simps [simp del] strncpy_pad.simps [simp del] strncmp.simps [simp del]

section \<open>Regions\<close>

text \<open>
  \<open>unat (a - d) < n\<close> says that \<open>a\<close> lies in the region of \<open>n\<close> bytes at \<open>d\<close>: address
  subtraction wraps, so the test is right wherever the region lies.
\<close>

lemma addr_eq_iff:
  fixes a d :: u64
  assumes "n < 2 ^ 64"
  shows "a = d + of_nat n \<longleftrightarrow> unat (a - d) = n"
proof
  assume "a = d + of_nat n"
  then show "unat (a - d) = n" using assms by simp
next
  assume "unat (a - d) = n"
  then show "a = d + of_nat n" by auto
qed

lemma of_nat_unat_diff [simp]: "d + of_nat (unat (a - d)) = (a :: u64)"
  by simp

lemma fold_fill:
  "n \<le> 2 ^ 64 \<Longrightarrow>
   fold (\<lambda>i m. m(d + of_nat i := c)) [0..<n] m = (\<lambda>a :: u64. if unat (a - d) < n then c else m a)"
proof (induction n)
  case 0
  then show ?case by (simp add: fun_eq_iff)
next
  case (Suc n)
  then show ?case by (auto simp: fun_eq_iff addr_eq_iff less_Suc_eq)
qed

lemma memset_spec:
  "memset m dest ch count = (\<lambda>a. if unat (a - dest) < unat count then ucast ch else m a)"
proof -
  have "unat count \<le> 2 ^ 64" using unat_lt [of count] by simp
  then show ?thesis by (simp add: memset_def fold_fill)
qed

definition moved :: "memory \<Rightarrow> u64 \<Rightarrow> u64 \<Rightarrow> nat \<Rightarrow> memory" where
  "moved m d s n = (\<lambda>a. if unat (a - d) < n then m (s + (a - d)) else m a)"

lemma copy_up_moved:
  assumes "\<And>i. i < n \<Longrightarrow> i \<le> unat (s + of_nat i - d)" and "n \<le> 2 ^ 64"
  shows "copy_up m d s n = moved m d s n"
  using assms
proof (induction n)
  case 0
  then show ?case by (simp add: copy_up_def moved_def)
next
  case (Suc n)
  then have IH: "copy_up m d s n = moved m d s n" by simp
  have "copy_up m d s (Suc n) = (moved m d s n)(d + of_nat n := moved m d s n (s + of_nat n))"
    using IH by (simp add: copy_up_def copy_byte_def)
  moreover have "moved m d s n (s + of_nat n) = m (s + of_nat n)"
    using Suc.prems(1) [of n] by (simp add: moved_def)
  ultimately show ?case
    using Suc.prems(2) by (auto simp: moved_def fun_eq_iff addr_eq_iff less_Suc_eq)
qed

lemma copy_down_from:
  assumes "\<And>i. i < n \<Longrightarrow> unat (s + of_nat i - d) \<le> i \<or> n \<le> unat (s + of_nat i - d)"
    and "n \<le> 2 ^ 64" and "k \<le> n"
  shows "foldr (copy_byte d s) [k..<n] m =
    (\<lambda>a. if k \<le> unat (a - d) \<and> unat (a - d) < n then m (s + (a - d)) else m a)"
  using \<open>k \<le> n\<close>
proof (induction rule: inc_induct)
  case base
  then show ?case by (auto simp: fun_eq_iff)
next
  case (step k)
  let ?m = "\<lambda>a. if Suc k \<le> unat (a - d) \<and> unat (a - d) < n then m (s + (a - d)) else m a"
  have "foldr (copy_byte d s) [k..<n] m = copy_byte d s k ?m"
    using step.hyps step.IH by (simp add: upt_conv_Cons)
  then have "foldr (copy_byte d s) [k..<n] m = ?m(d + of_nat k := ?m (s + of_nat k))"
    by (simp add: copy_byte_def)
  moreover have "?m (s + of_nat k) = m (s + of_nat k)"
    using assms(1) [OF step.hyps(2)] by auto
  moreover have "k < 2 ^ 64" using step.hyps assms(2) by simp
  ultimately show ?case
    using step.hyps by (auto simp: fun_eq_iff addr_eq_iff Suc_le_eq)
qed

lemma copy_down_moved:
  assumes "\<And>i. i < n \<Longrightarrow> unat (s + of_nat i - d) \<le> i \<or> n \<le> unat (s + of_nat i - d)"
    and "n \<le> 2 ^ 64"
  shows "copy_down m d s n = moved m d s n"
  using copy_down_from [OF assms, of 0]
  by (simp add: copy_down_def moved_def foldr_conv_fold)

lemma memmove_moved:
  assumes "unat dest + unat count \<le> 2 ^ 64" and "unat src + unat count \<le> 2 ^ 64"
  shows "memmove m dest src count = moved m dest src (unat count)"
proof -
  have n: "unat count \<le> 2 ^ 64" using assms by simp
  consider "dest = src \<or> count = 0" | "dest \<noteq> src" "count \<noteq> 0" "dest < src"
    | "dest \<noteq> src" "count \<noteq> 0" "src < dest" by force
  then show ?thesis
  proof cases
    case 1
    then show ?thesis by (auto simp: memmove_def moved_def fun_eq_iff)
  next
    case 2
    have "i \<le> unat (src + of_nat i - dest)" if "i < unat count" for i
    proof -
      have "unat (src + of_nat i) = unat src + i"
        using that assms(2) by (simp add: unat_add_no_wrap)
      moreover have "dest \<le> src + of_nat i"
        using 2 calculation by (simp add: word_le_nat_alt word_less_nat_alt)
      ultimately show ?thesis using 2 by (simp add: unat_sub_no_wrap word_less_nat_alt)
    qed
    then show ?thesis using 2 n by (simp add: memmove_def copy_up_moved)
  next
    case 3
    have "unat (src + of_nat i - dest) \<le> i \<or> unat count \<le> unat (src + of_nat i - dest)"
      if "i < unat count" for i
    proof -
      have si: "unat (src + of_nat i) = unat src + i"
        using that assms(2) by (simp add: unat_add_no_wrap)
      show ?thesis
      proof (cases "dest \<le> src + of_nat i")
        case True
        then have "unat (src + of_nat i - dest) = unat src + i - unat dest"
          using si by (simp add: unat_sub_no_wrap)
        with 3 show ?thesis by (auto simp: word_less_nat_alt)
      next
        case False
        then have "unat (src + of_nat i - dest) = 2 ^ 64 + (unat src + i) - unat dest"
          using si by (simp add: unat_sub_wrap)
        with assms(1) show ?thesis by linarith
      qed
    qed
    moreover have "\<not> dest < src" using 3 by simp
    ultimately show ?thesis using 3 n by (simp add: memmove_def copy_down_moved)
  qed
qed

text \<open>
  C17: \<open>memmove\<close> is correct for overlapping regions: after the call the \<open>count\<close> bytes at
  \<open>dest\<close> are the bytes that were at \<open>src\<close> before it, and every other byte is unchanged,
  provided neither region runs past the end of the address space.
\<close>

theorem memmove_correct:
  assumes "unat dest + unat count \<le> 2 ^ 64" and "unat src + unat count \<le> 2 ^ 64"
  shows "memmove m dest src count =
    (\<lambda>a. if unat (a - dest) < unat count then m (src + (a - dest)) else m a)"
  using memmove_moved [OF assms] by (simp add: moved_def)

theorem memmove_correct_witness:
  "memmove (\<lambda>a. ucast a) 0x1002 0x1000 4 0x1005 = 3"
  using memmove_correct [where m = "\<lambda>a. ucast a" and dest = "0x1002" and src = "0x1000" and count = "4"]
  by simp

section \<open>\<open>strncpy\<close>\<close>

lemma region_step:
  fixes a d :: u64
  shows "unat (a - (d + 1)) = (if a = d then 2 ^ 64 - 1 else unat (a - d) - 1)"
proof (cases "a = d")
  case False
  then have "unat (a - d - 1) = unat (a - d) - 1" by (simp add: unat_minus_one)
  with False show ?thesis by (simp add: diff_diff_eq)
qed (simp add: unsigned_minus_1_eq_mask mask_eq_exp_minus_1)

lemma region_shift:
  fixes a d :: u64
  assumes "j \<le> n" and "n \<le> 2 ^ 64" and "j < 2 ^ 64"
  shows "unat (a - (d + of_nat j)) < n - j \<longleftrightarrow> j \<le> unat (a - d) \<and> unat (a - d) < n"
proof -
  have eq: "a - (d + of_nat j) = (a - d) - of_nat j" by simp
  show ?thesis
  proof (cases "(of_nat j :: u64) \<le> a - d")
    case True
    then show ?thesis using assms unfolding eq
      by (auto simp: unat_sub_no_wrap word_le_nat_alt)
  next
    case False
    then have "unat (a - (d + of_nat j)) = 2 ^ 64 + unat (a - d) - j"
      using assms unfolding eq by (simp add: unat_sub_wrap)
    with False show ?thesis using assms by (auto simp: word_le_nat_alt)
  qed
qed

lemma strncpy_pad_spec:
  "strncpy_pad m d c = (\<lambda>a. if unat (a - d) < unat c then 0 else m a)"
proof (induction m d c rule: strncpy_pad.induct)
  case (1 m d c)
  show ?case
  proof (cases "c = 0")
    case True
    then show ?thesis by (subst strncpy_pad.simps) simp
  next
    case False
    have c: "unat c \<le> 2 ^ 32" "unat (c - 1) = unat c - 1" "0 < unat c"
      using unat_lt [of c] False by (simp_all add: unat_minus_one unat_gt_0)
    have "strncpy_pad m d c = (\<lambda>a. if unat (a - (d + 1)) < unat (c - 1) then 0 else (m(d := 0)) a)"
      using 1 False by (simp add: strncpy_pad.simps [of m d c] fun_upd_def)
    also have "\<dots> = (\<lambda>a. if unat (a - d) < unat c then 0 else m a)"
      using c by (intro ext) (auto simp: region_step unat_eq_0)
    finally show ?thesis .
  qed
qed

text \<open>The bytes at \<open>s\<close> up to index \<open>k\<close> lie outside the bytes written at \<open>d\<close>.\<close>

definition apart :: "u64 \<Rightarrow> u64 \<Rightarrow> nat \<Rightarrow> bool" where
  "apart d s n \<longleftrightarrow> (\<forall>i<n. n \<le> unat (s + of_nat i - d))"

lemma apartI:
  assumes "unat s + n \<le> unat d \<and> unat d + n \<le> 2 ^ 64 \<or> unat d + n \<le> unat s \<and> unat s + n \<le> 2 ^ 64"
  shows "apart d s n"
  unfolding apart_def
proof (intro allI impI)
  fix i assume i: "i < n"
  have "unat s + n \<le> 2 ^ 64" using assms unat_lt [of d] by auto
  then have si: "unat (s + of_nat i) = unat s + i" using i by (simp add: unat_add_no_wrap)
  from assms show "n \<le> unat (s + of_nat i - d)"
  proof
    assume "unat s + n \<le> unat d \<and> unat d + n \<le> 2 ^ 64"
    then show ?thesis using si i by (subst unat_sub_wrap) (auto simp: word_less_nat_alt)
  next
    assume "unat d + n \<le> unat s \<and> unat s + n \<le> 2 ^ 64"
    then show ?thesis using si i by (subst unat_sub_no_wrap) (auto simp: word_le_nat_alt)
  qed
qed

lemma apart_step:
  assumes "apart d s (Suc n)"
  shows "apart (d + 1) (s + 1) n"
  unfolding apart_def
proof (intro allI impI)
  fix i assume "i < n"
  then have "Suc n \<le> unat (s + of_nat i - d)" using assms by (simp add: apart_def)
  moreover have "s + 1 + of_nat i - (d + 1) = s + of_nat i - d" by (simp add: algebra_simps)
  ultimately show "n \<le> unat (s + 1 + of_nat i - (d + 1))" by (simp only:)
qed

lemma moved_step:
  assumes "apart d s (Suc n)" and "Suc n < 2 ^ 64"
  shows "moved (m(d := m s)) (d + 1) (s + 1) n = moved m d s (Suc n)"
proof
  fix a
  show "moved (m(d := m s)) (d + 1) (s + 1) n a = moved m d s (Suc n) a"
  proof (cases "a = d")
    case True
    then show ?thesis using assms(2) by (simp add: moved_def)
  next
    case False
    have "s + (a - d) \<noteq> d" if "unat (a - d) < Suc n"
    proof -
      have "Suc n \<le> unat (s + of_nat (unat (a - d)) - d)"
        using assms(1) that unfolding apart_def by blast
      then show ?thesis by auto
    qed
    moreover have "unat (a - d) \<noteq> 0" using False by (simp add: unat_eq_0)
    ultimately show ?thesis using False
      by (auto simp: moved_def region_step)
  qed
qed

lemma strncpy_copy_nul:
  assumes "k < unat c" and "m (s + of_nat k) = 0" and "\<And>j. j < k \<Longrightarrow> m (s + of_nat j) \<noteq> 0"
    and "apart d s (Suc k)"
  shows "strncpy_copy m d s c = (moved m d s (Suc k), d + of_nat (Suc k), c - of_nat (Suc k))"
  using assms
proof (induction k arbitrary: m d s c)
  case 0
  then have "c \<noteq> 0" by auto
  moreover have "m(d := 0) = moved m d s (Suc 0)"
    using 0 by (auto simp: moved_def fun_eq_iff unat_eq_0)
  ultimately show ?case using 0 by (simp add: strncpy_copy.simps [of m d s c])
next
  case (Suc k)
  let ?m = "m(d := m s)"
  have "c \<noteq> 0" using Suc.prems(1) by auto
  then have c: "c \<noteq> 0" "unat (c - 1) = unat c - 1" by (auto simp: unat_minus_one)
  have k: "Suc (Suc k) < 2 ^ 64" using Suc.prems(1) unat_lt [of c] by simp
  have m: "?m (s + 1 + of_nat j) = m (s + of_nat (Suc j))" if "j \<le> k" for j
  proof -
    have "Suc (Suc k) \<le> unat (s + of_nat (Suc j) - d)"
      using Suc.prems(4) that unfolding apart_def by (simp del: of_nat_Suc)
    then have "s + of_nat (Suc j) \<noteq> d" by auto
    then show ?thesis by (simp add: ac_simps)
  qed
  have "strncpy_copy ?m (d + 1) (s + 1) (c - 1)
      = (moved ?m (d + 1) (s + 1) (Suc k), d + 1 + of_nat (Suc k), c - 1 - of_nat (Suc k))"
  proof (rule Suc.IH)
    show "k < unat (c - 1)" using Suc.prems(1) c by simp
    show "?m (s + 1 + of_nat k) = 0" using Suc.prems(2) m [of k] by simp
    show "?m (s + 1 + of_nat j) \<noteq> 0" if "j < k" for j
      using Suc.prems(3) [of "Suc j"] m [of j] that by simp
    show "apart (d + 1) (s + 1) (Suc k)" using Suc.prems(4) by (rule apart_step)
  qed
  moreover have "m s \<noteq> 0" using Suc.prems(3) [of 0] by simp
  moreover have "moved ?m (d + 1) (s + 1) (Suc k) = moved m d s (Suc (Suc k))"
    by (rule moved_step) (use Suc.prems(4) k in simp_all)
  ultimately show ?case
    using c by (simp add: strncpy_copy.simps [of m d s c] Let_def ac_simps diff_diff_eq)
qed

lemma strncpy_copy_full:
  assumes "\<And>j. j < unat c \<Longrightarrow> m (s + of_nat j) \<noteq> 0" and "apart d s (unat c)"
  shows "strncpy_copy m d s c = (moved m d s (unat c), d + of_nat (unat c), - 1)"
  using assms
proof (induction "unat c" arbitrary: m d s c)
  case 0
  then have "c = 0" by (simp add: unat_eq_0)
  then show ?case by (simp add: strncpy_copy.simps [of m d s 0] moved_def)
next
  case (Suc n)
  let ?m = "m(d := m s)"
  have c: "c \<noteq> 0" using Suc.hyps(2) by auto
  then have c1: "unat (c - 1) = n" using Suc.hyps(2) by (simp add: unat_minus_one)
  have n: "Suc n < 2 ^ 64" using Suc.hyps(2) unat_lt [of c] by simp
  have ap: "apart d s (Suc n)" using Suc.prems(2) Suc.hyps(2) by simp
  have m: "?m (s + 1 + of_nat j) = m (s + of_nat (Suc j))" if "j < n" for j
  proof -
    have "Suc n \<le> unat (s + of_nat (Suc j) - d)"
      using ap that unfolding apart_def by (simp del: of_nat_Suc)
    then have "s + of_nat (Suc j) \<noteq> d" by auto
    then show ?thesis by (simp add: ac_simps)
  qed
  have "strncpy_copy ?m (d + 1) (s + 1) (c - 1)
      = (moved ?m (d + 1) (s + 1) (unat (c - 1)), d + 1 + of_nat (unat (c - 1)), - 1)"
  proof (rule Suc.hyps(1))
    show "n = unat (c - 1)" using c1 by simp
    show "?m (s + 1 + of_nat j) \<noteq> 0" if "j < unat (c - 1)" for j
      using Suc.prems(1) [of "Suc j"] Suc.hyps(2) m [of j] that c1 by simp
    show "apart (d + 1) (s + 1) (unat (c - 1))" using apart_step [OF ap] c1 by simp
  qed
  moreover have "m s \<noteq> 0" using Suc.prems(1) [of 0] Suc.hyps(2) by simp
  moreover have "moved ?m (d + 1) (s + 1) n = moved m d s (Suc n)"
    using ap n by (rule moved_step)
  moreover have "d + of_nat (unat c) = d + 1 + of_nat n"
    using Suc.hyps(2) by (metis add.assoc of_nat_Suc)
  ultimately show ?case
    using c c1 Suc.hyps(2) by (simp add: strncpy_copy.simps [of m d s c] Let_def)
qed

text \<open>
  C18: where the source string ends inside the first \<open>count\<close> bytes, \<open>strncpy\<close> copies it
  with its terminator, fills the rest of the \<open>count\<close> bytes with zeros and changes nothing
  else.
\<close>

theorem strncpy_terminated:
  assumes "k < unat count" and "m (src + of_nat k) = 0"
    and "\<forall>j<k. m (src + of_nat j) \<noteq> 0" and "apart dest src (Suc k)"
  shows "strncpy m dest src count =
    (\<lambda>a. if unat (a - dest) \<le> k then m (src + (a - dest))
         else if unat (a - dest) < unat count then 0 else m a)"
proof -
  have bounds: "unat count < 2 ^ 32" using unat_lt [of count] by simp
  have "unat (count - of_nat (Suc k)) = unat count - Suc k"
    using assms(1) bounds by (subst unat_sub_no_wrap) (auto simp: word_le_nat_alt simp del: of_nat_Suc)
  moreover have "strncpy_copy m dest src count =
      (moved m dest src (Suc k), dest + of_nat (Suc k), count - of_nat (Suc k))"
    using assms by (intro strncpy_copy_nul) auto
  ultimately have "strncpy m dest src count =
      (\<lambda>a. if unat (a - (dest + of_nat (Suc k))) < unat count - Suc k then 0
           else moved m dest src (Suc k) a)"
    by (simp add: strncpy_def strncpy_pad_spec del: of_nat_Suc)
  then show ?thesis
    using assms(1) bounds
    by (auto simp: region_shift moved_def fun_eq_iff less_Suc_eq_le simp del: of_nat_Suc)
qed

theorem strncpy_terminated_witness:
  "strncpy (\<lambda>a. if a = 0x1002 then 0 else 7) 0x2000 0x1000 4 0x2003 = 0"
proof -
  let ?m = "\<lambda>a :: u64. if a = 0x1002 then 0 else 7 :: u8"
  have "apart 0x2000 0x1000 (Suc 2)"
    by (rule apartI) simp
  moreover have "\<forall>j<2. ?m (0x1000 + of_nat j) \<noteq> 0"
    by (auto simp: less_2_cases_iff)
  ultimately show ?thesis
    using strncpy_terminated [of 2 4 ?m "0x1000" "0x2000"] by simp
qed

text \<open>
  C19: where it does not (a name of exactly \<open>DIRSIZ\<close> bytes passed by \<open>fs::dir_link\<close>, for
  instance), the counter leaves the first loop as \<open>0xffffffff\<close> and the second loop zeroes
  the \<open>2 ^ 32 - 1\<close> bytes that follow the destination, instead of none.
\<close>

theorem strncpy_overruns:
  assumes "\<forall>j<unat count. m (src + of_nat j) \<noteq> 0" and "apart dest src (unat count)"
    and "unat count \<le> unat (a - dest)" and "unat (a - dest) < unat count + (2 ^ 32 - 1)"
  shows "strncpy m dest src count a = 0"
proof -
  have c: "unat count < 2 ^ 32" using unat_lt [of count] by simp
  have "strncpy m dest src count =
      strncpy_pad (moved m dest src (unat count)) (dest + of_nat (unat count)) (- 1)"
    using assms(1,2) by (simp add: strncpy_def strncpy_copy_full)
  moreover have "unat (- 1 :: u32) = 2 ^ 32 - 1"
    by (simp add: unsigned_minus_1_eq_mask mask_eq_exp_minus_1)
  moreover have "unat (a - (dest + of_nat (unat count))) < unat count + (2 ^ 32 - 1) - unat count"
    using assms(3,4) c by (subst region_shift) auto
  ultimately show ?thesis by (simp add: strncpy_pad_spec)
qed

theorem strncpy_overruns_witness:
  "strncpy (\<lambda>a. 7) 0x2000 0x1000 14 0x2100 = 0"
proof -
  have "apart 0x2000 0x1000 14"
    by (rule apartI) simp
  then show ?thesis
    using strncpy_overruns [of 14 "\<lambda>a. 7" "0x1000" "0x2000" "0x2100"] by simp
qed

section \<open>\<open>strncmp\<close> and \<open>strlen\<close>\<close>

text \<open>The C string at \<open>p\<close>, cut after \<open>n\<close> bytes.\<close>

definition cstr :: "memory \<Rightarrow> u64 \<Rightarrow> nat \<Rightarrow> bytes" where
  "cstr m p n = takeWhile (\<lambda>b. b \<noteq> 0) (map (\<lambda>i. m (p + of_nat i)) [0..<n])"

lemma cstr_0 [simp]: "cstr m p 0 = []"
  by (simp add: cstr_def)

lemma cstr_Suc: "cstr m p (Suc n) = (if m p = 0 then [] else m p # cstr m (p + 1) n)"
  by (simp add: cstr_def map_upt_Suc ac_simps del: upt_Suc)

lemma strncmp_zero:
  "strncmp m lhs rhs count = 0 \<longleftrightarrow> cstr m lhs (unat count) = cstr m rhs (unat count)"
proof (induction m lhs rhs count rule: strncmp.induct)
  case (1 m l r c)
  show ?case
  proof (cases "c = 0")
    case True
    then show ?thesis by (subst strncmp.simps) simp
  next
    case False
    then have "unat c = Suc (unat (c - 1))"
      by (simp add: unat_minus_one unat_gt_0 flip: Suc_pred)
    moreover have "0 < c" using False by (simp add: word_gt_0)
    ultimately show ?thesis
      using 1 False by (subst strncmp.simps) (auto simp: cstr_Suc word_uint_eq_iff)
  qed
qed

text \<open>
  C20: \<open>strncmp\<close> returns zero exactly when the two C strings agree on their first \<open>count\<close>
  bytes; this is the test by which \<open>fs::namecmp\<close> finds directory entries.
\<close>

theorem strncmp_eq_0_iff:
  "strncmp m lhs rhs count = 0 \<longleftrightarrow> cstr m lhs (unat count) = cstr m rhs (unat count)"
  by (rule strncmp_zero)

lemma strlen_loop_nul:
  assumes "m (p + of_nat k) = 0" and "\<And>j. j < k \<Longrightarrow> m (p + of_nat j) \<noteq> 0"
  shows "strlen_loop m p = Some (p + of_nat k)"
  using assms
proof (induction k arbitrary: p)
  case 0
  then show ?case by (subst strlen_loop.simps) simp
next
  case (Suc k)
  have "strlen_loop m (p + 1) = Some (p + 1 + of_nat k)"
  proof (rule Suc.IH)
    show "m (p + 1 + of_nat k) = 0" using Suc.prems(1) by (simp add: ac_simps)
    show "m (p + 1 + of_nat j) \<noteq> 0" if "j < k" for j
      using Suc.prems(2) [of "Suc j"] that by (simp add: ac_simps)
  qed
  then show ?case using Suc.prems(2) [of 0] by (subst strlen_loop.simps) (simp add: ac_simps)
qed

lemma strlen_nul:
  assumes "p \<noteq> 0" and "m (p + of_nat k) = 0" and "\<And>j. j < k \<Longrightarrow> m (p + of_nat j) \<noteq> 0"
  shows "strlen m p = Some (of_nat k)"
proof -
  have "ucast (of_nat k :: u64) = (of_nat k :: u32)"
    by (rule bit_word_eqI) (simp add: bit_simps)
  then show ?thesis using strlen_loop_nul [of m p k] assms by (simp add: strlen_def)
qed

end
