(* ===== verification/Ring.thy ===== *)
theory Ring
  imports Prelude
begin

text \<open>
  Ring buffers indexed by free-running counters, as the pipe (\<open>nread\<close>, \<open>nwrite\<close>), the
  UART transmitter (\<open>uart_tx_r\<close>, \<open>uart_tx_w\<close>) and the console use them: the counters are
  machine words that are never reset and wrap around, the slot is the counter modulo the
  size.  The theory holds the abstraction of such a ring to the list of bytes in it, the
  effect of one insertion and one removal on that list, and the bounded-queue interface
  (a locale) that the ring-based components are shown to implement.
\<close>

section \<open>The list of bytes in a ring\<close>

definition ring_items :: "'a list \<Rightarrow> 'w::len word \<Rightarrow> 'w word \<Rightarrow> 'a list" where
  "ring_items buf r w =
     map (\<lambda>k. buf ! (unat (r + of_nat k) mod length buf)) [0..<unat (w - r)]"

definition ring_ok :: "'a list \<Rightarrow> 'w::len word \<Rightarrow> 'w word \<Rightarrow> bool" where
  "ring_ok buf r w \<longleftrightarrow> buf \<noteq> [] \<and> length buf dvd 2 ^ LENGTH('w) \<and> length buf < 2 ^ LENGTH('w)
     \<and> unat (w - r) \<le> length buf"

lemma length_ring_items [simp]: "length (ring_items buf r w) = unat (w - r)"
  by (simp add: ring_items_def)

lemma ring_items_same [simp]: "ring_items buf x x = []"
  by (simp add: ring_items_def)

lemma nth_ring_items:
  "j < unat (w - r) \<Longrightarrow> ring_items buf r w ! j = buf ! (unat (r + of_nat j) mod length buf)"
  by (simp add: ring_items_def)

lemma ring_slot:
  assumes "(n :: nat) dvd 2 ^ LENGTH('w)"
  shows "unat (r + of_nat k :: 'w::len word) mod n = (unat r + k) mod n"
proof -
  have "unat (r + of_nat k :: 'w word) mod n = (unat r + unat (of_nat k :: 'w word)) mod n"
    by (simp add: unat_word_ariths mod_mod_cancel assms)
  also have "\<dots> = (unat r + k mod 2 ^ LENGTH('w)) mod n"
    by (simp add: unat_of_nat)
  also have "\<dots> = (unat r + k) mod n"
    using assms by (metis mod_add_right_eq mod_mod_cancel)
  finally show ?thesis .
qed

lemma add_mod_inj:
  assumes "(a + i) mod n = (a + j) mod (n :: nat)" and "i < j" and "j < i + n"
  shows False
proof -
  have "n dvd (a + j) - (a + i)"
    using assms(1,2) by (intro mod_eq_dvd_iff_nat [THEN iffD1]) auto
  then have "n dvd j - i" by simp
  then have "n \<le> j - i" using assms(2) by (simp add: dvd_imp_le)
  then show False using assms by simp
qed

lemma ring_full_iff:
  assumes "ring_ok buf r (w :: 'w::len word)"
  shows "w = r + of_nat (length buf) \<longleftrightarrow> unat (w - r) = length buf"
proof
  assume "w = r + of_nat (length buf)"
  then show "unat (w - r) = length buf" using assms by (simp add: ring_ok_def)
next
  assume "unat (w - r) = length buf"
  moreover have "w = r + of_nat (unat (w - r))" by simp
  ultimately show "w = r + of_nat (length buf)" by metis
qed

lemma ring_empty_iff: "r = w \<longleftrightarrow> ring_items buf r w = []"
  by (auto simp: ring_items_def unat_eq_0)

lemma ring_put_count:
  assumes "ring_ok buf r (w :: 'w::len word)" and "unat (w - r) < length buf"
  shows "unat (w + 1 - r) = Suc (unat (w - r))"
proof -
  have "unat (w - r) + 1 < 2 ^ LENGTH('w)" using assms by (simp add: ring_ok_def)
  then have "unat (w - r + 1) = unat (w - r) + 1"
    by (subst unat_add_no_wrap) (auto simp: unat_1)
  then show ?thesis by (simp add: algebra_simps)
qed

lemma ring_put_ok:
  assumes "ring_ok buf r (w :: 'w::len word)" and "unat (w - r) < length buf"
  shows "ring_ok (buf[i := c]) r (w + 1)"
  using assms ring_put_count [OF assms] by (simp add: ring_ok_def)

lemma ring_put_items:
  assumes ok: "ring_ok buf r (w :: 'w::len word)" and room: "unat (w - r) < length buf"
  shows "ring_items (buf[unat w mod length buf := c]) r (w + 1) = ring_items buf r w @ [c]"
proof -
  let ?n = "length buf" and ?d = "unat (w - r)"
  have n: "0 < ?n" "?n dvd 2 ^ LENGTH('w)" using ok by (auto simp: ring_ok_def)
  have w: "w = r + of_nat ?d" by simp
  have slot: "unat (r + of_nat k) mod ?n = (unat r + k) mod ?n" for k
    using n(2) by (rule ring_slot)
  have wslot: "unat w mod ?n = (unat r + ?d) mod ?n"
    using slot [of ?d] w by simp
  have other: "(unat r + ?d) mod ?n \<noteq> (unat r + k) mod ?n" if "k < ?d" for k
    using add_mod_inj [of "unat r" k ?n ?d] that room by auto
  show ?thesis
    using n(1) other
    by (auto simp: ring_items_def ring_put_count [OF ok room] slot wslot)
qed

lemma ring_get_count:
  assumes "r \<noteq> (w :: 'w::len word)"
  shows "unat (w - (r + 1)) = unat (w - r) - 1"
proof -
  have "unat (w - r - 1) = unat (w - r) - 1" using assms by (simp add: unat_minus_one)
  then show ?thesis by (simp add: diff_diff_eq)
qed

lemma ring_get_items:
  assumes "r \<noteq> (w :: 'w::len word)"
  shows "ring_items buf r w = buf ! (unat r mod length buf) # ring_items buf (r + 1) w"
proof -
  have "unat (w - r) = Suc (unat (w - (r + 1)))"
    using assms by (simp add: ring_get_count unat_gt_0)
  then show ?thesis
    by (simp add: ring_items_def map_upt_Suc ac_simps del: upt_Suc)
qed

lemma ring_get_ok:
  assumes "ring_ok buf r (w :: 'w::len word)" and "r \<noteq> w"
  shows "ring_ok buf (r + 1) w"
  using assms by (auto simp: ring_ok_def ring_get_count)

text \<open>Three counters on one ring: the part up to \<open>m\<close> and the part from \<open>m\<close> on.\<close>

lemma ring_split_count:
  "unat (m - r) \<le> unat (w - r) \<Longrightarrow> unat (w - m) = unat (w - r) - unat (m - r)"
  for m r w :: "'w::len word"
proof -
  assume "unat (m - r) \<le> unat (w - r)"
  then have "unat ((w - r) - (m - r)) = unat (w - r) - unat (m - r)"
    by (intro unat_sub) (simp add: word_le_nat_alt)
  moreover have "(w - r) - (m - r) = w - m" by simp
  ultimately show ?thesis by metis
qed

lemma ring_split:
  assumes "unat (m - r) \<le> unat (w - r)"
  shows "ring_items buf r w = ring_items buf r m @ ring_items buf m w"
proof (rule nth_equalityI)
  show "length (ring_items buf r w) = length (ring_items buf r m @ ring_items buf m w)"
    using assms by (simp add: ring_split_count [OF assms])
  fix i
  assume "i < length (ring_items buf r w)"
  moreover have "m + of_nat (i - unat (m - r)) = r + of_nat i" if "unat (m - r) \<le> i"
  proof -
    have "of_nat (i - unat (m - r)) = of_nat i - (m - r)" using that by (simp add: of_nat_diff)
    then show ?thesis by simp
  qed
  ultimately show "ring_items buf r w ! i = (ring_items buf r m @ ring_items buf m w) ! i"
    using assms by (simp add: nth_append nth_ring_items ring_split_count [OF assms] not_less add.commute)
qed

lemma ring_put_split:
  assumes "ring_ok buf r w" and "unat (w - r) < length buf" and "unat (m - r) \<le> unat (w - r)"
  shows "ring_items (buf[unat w mod length buf := c]) r m = ring_items buf r m"
    and "ring_items (buf[unat w mod length buf := c]) m (w + 1) = ring_items buf m w @ [c]"
proof -
  let ?b = "buf[unat w mod length buf := c]"
  have "unat (m - r) \<le> unat (w + 1 - r)" using assms by (simp add: ring_put_count)
  then have "ring_items ?b r m @ ring_items ?b m (w + 1) = ring_items buf r m @ (ring_items buf m w @ [c])"
    using ring_put_items [OF assms(1,2), of c] ring_split [OF assms(3), of buf]
      ring_split [of m r "w + 1" ?b] by simp
  then show "ring_items ?b r m = ring_items buf r m"
    and "ring_items ?b m (w + 1) = ring_items buf m w @ [c]"
    by (auto simp: append_eq_append_conv)
qed

lemma ring_unput:
  assumes "m \<noteq> (w :: 'w::len word)"
  shows "ring_items buf m w = ring_items buf m (w - 1) @ [buf ! (unat (w - 1) mod length buf)]"
proof -
  have "w - m \<noteq> 0" using assms by simp
  then have "unat (w - m - 1) = unat (w - m) - 1" "0 < unat (w - m)"
    by (rule unat_minus_one) (simp add: unat_gt_0 assms [symmetric])
  moreover have "w - m - 1 = w - 1 - m" by (rule diff_right_commute)
  ultimately have "unat (w - m) = Suc (unat (w - 1 - m))" by (metis Suc_pred')
  moreover have "m + of_nat (unat (w - 1 - m)) = w - 1" by simp
  ultimately show ?thesis by (simp only: ring_items_def upt_Suc_append le0 map_append list.map)
qed

section \<open>The bounded queue a ring implements\<close>

locale byte_queue =
  fixes items :: "'s \<Rightarrow> u8 list" and invar :: "'s \<Rightarrow> bool" and cap :: nat
    and is_full :: "'s \<Rightarrow> bool" and is_empty :: "'s \<Rightarrow> bool"
    and enq :: "u8 \<Rightarrow> 's \<Rightarrow> 's" and deq :: "'s \<Rightarrow> u8 \<times> 's"
  assumes within_cap: "invar s \<Longrightarrow> length (items s) \<le> cap"
    and full_iff: "invar s \<Longrightarrow> is_full s \<longleftrightarrow> length (items s) = cap"
    and empty_iff: "invar s \<Longrightarrow> is_empty s \<longleftrightarrow> items s = []"
    and enq_items: "invar s \<Longrightarrow> \<not> is_full s \<Longrightarrow> items (enq c s) = items s @ [c]"
    and enq_invar: "invar s \<Longrightarrow> \<not> is_full s \<Longrightarrow> invar (enq c s)"
    and deq_items: "invar s \<Longrightarrow> \<not> is_empty s \<Longrightarrow> items s = fst (deq s) # items (snd (deq s))"
    and deq_invar: "invar s \<Longrightarrow> \<not> is_empty s \<Longrightarrow> invar (snd (deq s))"
begin

lemma enq_all:
  assumes "invar s" and "length (items s) + length cs \<le> cap"
  shows "invar (fold enq cs s) \<and> items (fold enq cs s) = items s @ cs"
  using assms
proof (induction cs arbitrary: s)
  case Nil
  then show ?case by simp
next
  case (Cons c cs)
  then have room: "\<not> is_full s" by (simp add: full_iff)
  then have "invar (enq c s)" "items (enq c s) = items s @ [c]"
    using Cons.prems by (simp_all add: enq_invar enq_items)
  then show ?case using Cons.IH [of "enq c s"] Cons.prems by simp
qed

primrec deq_n :: "nat \<Rightarrow> 's \<Rightarrow> u8 list \<times> 's" where
  "deq_n 0 s = ([], s)"
| "deq_n (Suc n) s = (let (c, s') = deq s; (cs, s'') = deq_n n s' in (c # cs, s''))"

lemma deq_all:
  assumes "invar s" and "n \<le> length (items s)"
  shows "fst (deq_n n s) = take n (items s) \<and> items (snd (deq_n n s)) = drop n (items s)
    \<and> invar (snd (deq_n n s))"
  using assms
proof (induction n arbitrary: s)
  case 0
  then show ?case by simp
next
  case (Suc n)
  then have "\<not> is_empty s" by (auto simp: empty_iff)
  then have s': "items s = fst (deq s) # items (snd (deq s))" "invar (snd (deq s))"
    using Suc.prems by (simp_all add: deq_items [symmetric] deq_invar)
  then show ?case
    using Suc.IH [of "snd (deq s)"] Suc.prems by (simp add: case_prod_beta Let_def)
qed

text \<open>What is put into an empty queue comes out in the same order.\<close>

lemma fifo:
  assumes "invar s" and "items s = []" and "length cs \<le> cap"
  shows "fst (deq_n (length cs) (fold enq cs s)) = cs"
  using enq_all [OF assms(1), of cs] assms deq_all [of "fold enq cs s" "length cs"] by simp

end

end
