(* ===== verification/Pipe.thy ===== *)
theory Pipe
  imports Ring
begin

text \<open>
  \<open>kernel/pipe.cpp\<close>: the pipe.  \<open>pi->lock\<close> is held from the entry of \<open>pipewrite\<close> and
  \<open>piperead\<close> to their exit, except while the process sleeps, so one call is a sequence of
  atomic segments, each ended by a return or by a \<open>proc::sleep\<close>.  The segment functions
  below run from the entry of the loop (or from the return of \<open>sleep\<close>) to that point and
  also report the \<open>proc::wakeup\<close> calls they make.  \<open>vm::copyin\<close> and \<open>vm::copyout\<close> of one
  byte are parameters: \<open>cin a\<close> is the byte at user address \<open>a\<close> (or no byte on a fault),
  \<open>cout a\<close> tells whether a byte can be stored there.
\<close>

section \<open>The operations\<close>

definition PIPESIZE :: nat where
  [layout_simps]: "PIPESIZE = 512"

record pipe =
  data :: bytes
  nread :: u32
  nwrite :: u32
  readopen :: bool
  writeopen :: bool

text \<open>The two channels a process can sleep on, \<open>&pi->nread\<close> and \<open>&pi->nwrite\<close>.\<close>

datatype chan = NREAD | NWRITE

datatype seg = Returns u32 | SleepsOn chan nat

text \<open>The fields that \<open>pipealloc\<close> sets on a fresh pipe.\<close>

definition pipe_init :: "bytes \<Rightarrow> pipe" where
  "pipe_init junk = \<lparr>data = junk, nread = 0, nwrite = 0, readopen = True, writeopen = True\<rparr>"

text \<open>\<open>pi->data[pi->nwrite++ % PIPESIZE] = ch\<close> and \<open>ch = pi->data[pi->nread++ % PIPESIZE]\<close>.\<close>

definition pipe_put :: "u8 \<Rightarrow> pipe \<Rightarrow> pipe" where
  "pipe_put ch pi =
     pi\<lparr>data := (data pi)[unat (nwrite pi) mod PIPESIZE := ch], nwrite := nwrite pi + 1\<rparr>"

definition pipe_get :: "pipe \<Rightarrow> u8 \<times> pipe" where
  "pipe_get pi = (data pi ! (unat (nread pi) mod PIPESIZE), pi\<lparr>nread := nread pi + 1\<rparr>)"

definition pipe_full :: "pipe \<Rightarrow> bool" where
  "pipe_full pi \<longleftrightarrow> nwrite pi = nread pi + of_nat PIPESIZE"

definition pipe_empty :: "pipe \<Rightarrow> bool" where
  "pipe_empty pi \<longleftrightarrow> nread pi = nwrite pi"

text \<open>
  The loop of \<open>pipewrite\<close> with \<open>rest = n - i\<close> bytes to go.  \<open>killed i\<close> is what
  \<open>proc::get_killed\<close> returns in iteration \<open>i\<close>: \<open>proc::kill\<close> does not take \<open>pi->lock\<close>, so it
  can change inside a segment.  The loop returns the wakeups made, in order; the failing
  return of a closed or killed pipe makes none.
\<close>

fun pipewrite_loop ::
  "(u64 \<Rightarrow> u8 option) \<Rightarrow> (nat \<Rightarrow> bool) \<Rightarrow> u64 \<Rightarrow> nat \<Rightarrow> nat \<Rightarrow> pipe \<Rightarrow> seg \<times> chan list \<times> pipe" where
  "pipewrite_loop cin killed addr i 0 pi = (Returns (of_nat i), [NREAD], pi)"
| "pipewrite_loop cin killed addr i (Suc rest) pi =
     (if \<not> readopen pi \<or> killed i then (Returns (- 1), [], pi)
      else if pipe_full pi then (SleepsOn NWRITE i, [NREAD], pi)
      else case cin (addr + of_nat i) of
        None \<Rightarrow> (Returns (of_nat i), [NREAD], pi)
      | Some ch \<Rightarrow> pipewrite_loop cin killed addr (Suc i) rest (pipe_put ch pi))"

text \<open>\<open>int n\<close>: a negative count writes nothing.\<close>

definition pipewrite ::
  "(u64 \<Rightarrow> u8 option) \<Rightarrow> (nat \<Rightarrow> bool) \<Rightarrow> u64 \<Rightarrow> int \<Rightarrow> nat \<Rightarrow> pipe \<Rightarrow> seg \<times> chan list \<times> pipe" where
  "pipewrite cin killed addr n i pi = pipewrite_loop cin killed addr i (nat n - i) pi"

text \<open>
  The copying loop of \<open>piperead\<close>: the count delivered, the bytes taken out of the pipe
  (\<open>nread\<close> is advanced before \<open>copyout\<close> is tried, so the last one may be lost) and the pipe.
\<close>

fun piperead_copy :: "(u64 \<Rightarrow> bool) \<Rightarrow> u64 \<Rightarrow> nat \<Rightarrow> nat \<Rightarrow> pipe \<Rightarrow> nat \<times> bytes \<times> pipe" where
  "piperead_copy cout addr i 0 pi = (i, [], pi)"
| "piperead_copy cout addr i (Suc rest) pi =
     (if pipe_empty pi then (i, [], pi)
      else let (ch, pi') = pipe_get pi in
        if \<not> cout (addr + of_nat i) then (i, [ch], pi')
        else let (j, cs, pi'') = piperead_copy cout addr (Suc i) rest pi' in (j, ch # cs, pi''))"

definition piperead ::
  "(u64 \<Rightarrow> bool) \<Rightarrow> bool \<Rightarrow> u64 \<Rightarrow> int \<Rightarrow> pipe \<Rightarrow> seg \<times> chan list \<times> bytes \<times> pipe" where
  "piperead cout killed addr n pi =
     (if pipe_empty pi \<and> writeopen pi then
        (if killed then (Returns (- 1), [], [], pi) else (SleepsOn NREAD 0, [], [], pi))
      else let (i, cs, pi') = piperead_copy cout addr 0 (nat n) pi
           in (Returns (of_nat i), [NWRITE], cs, pi'))"

text \<open>\<open>pipeclose\<close>: the pipe, the wakeup, and whether the page is handed to \<open>vm::kfree\<close>.\<close>

definition pipeclose :: "bool \<Rightarrow> pipe \<Rightarrow> pipe \<times> chan list \<times> bool" where
  "pipeclose writable pi =
     (let (pi', w) = (if writable then (pi\<lparr>writeopen := False\<rparr>, NREAD)
                      else (pi\<lparr>readopen := False\<rparr>, NWRITE))
      in (pi', [w], \<not> readopen pi' \<and> \<not> writeopen pi'))"

section \<open>The pipe is a bounded queue\<close>

definition pipe_items :: "pipe \<Rightarrow> bytes" where
  "pipe_items pi = ring_items (data pi) (nread pi) (nwrite pi)"

definition pipe_inv :: "pipe \<Rightarrow> bool" where
  "pipe_inv pi \<longleftrightarrow> length (data pi) = PIPESIZE \<and> unat (nwrite pi - nread pi) \<le> PIPESIZE"

lemma pipe_ring_ok: "pipe_inv pi \<Longrightarrow> ring_ok (data pi) (nread pi) (nwrite pi)"
proof -
  have "(512 :: nat) dvd 2 ^ 32" by simp
  then show "pipe_inv pi \<Longrightarrow> ?thesis" by (auto simp: pipe_inv_def ring_ok_def PIPESIZE_def)
qed

lemma pipe_inv_init: "length junk = PIPESIZE \<Longrightarrow> pipe_inv (pipe_init junk)"
  by (simp add: pipe_inv_def pipe_init_def)

interpretation pipeq: byte_queue pipe_items pipe_inv PIPESIZE pipe_full pipe_empty pipe_put pipe_get
proof
  fix pi :: pipe and c
  assume inv: "pipe_inv pi"
  note ok = pipe_ring_ok [OF inv]
  have len: "length (data pi) = PIPESIZE" using inv by (simp add: pipe_inv_def)
  show "length (pipe_items pi) \<le> PIPESIZE"
    using inv by (simp add: pipe_items_def pipe_inv_def)
  show full: "pipe_full pi \<longleftrightarrow> length (pipe_items pi) = PIPESIZE"
    using ring_full_iff [OF ok] len by (simp add: pipe_full_def pipe_items_def)
  show "pipe_empty pi \<longleftrightarrow> pipe_items pi = []"
    by (simp add: pipe_empty_def pipe_items_def ring_empty_iff)
  {
    assume "\<not> pipe_full pi"
    then have room: "unat (nwrite pi - nread pi) < length (data pi)"
      using full inv len by (simp add: pipe_items_def pipe_inv_def)
    show "pipe_items (pipe_put c pi) = pipe_items pi @ [c]"
      using ring_put_items [OF ok room] len by (simp add: pipe_items_def pipe_put_def)
    show "pipe_inv (pipe_put c pi)"
      using ring_put_count [OF ok room] room len by (simp add: pipe_inv_def pipe_put_def)
  }
  {
    assume "\<not> pipe_empty pi"
    then have ne: "nread pi \<noteq> nwrite pi" by (simp add: pipe_empty_def)
    show "pipe_items pi = fst (pipe_get pi) # pipe_items (snd (pipe_get pi))"
      using ring_get_items [OF ne, of "data pi"] len by (simp add: pipe_items_def pipe_get_def)
    show "pipe_inv (snd (pipe_get pi))"
      using inv ne by (auto simp: pipe_inv_def pipe_get_def ring_get_count)
  }
qed

section \<open>What one segment does\<close>

lemma pipe_put_flags [simp]:
  "readopen (pipe_put ch pi) = readopen pi" "writeopen (pipe_put ch pi) = writeopen pi"
  by (simp_all add: pipe_put_def)

lemma pipe_get_flags [simp]:
  "readopen (snd (pipe_get pi)) = readopen pi" "writeopen (snd (pipe_get pi)) = writeopen pi"
  by (simp_all add: pipe_get_def)

definition user_bytes :: "(u64 \<Rightarrow> u8 option) \<Rightarrow> u64 \<Rightarrow> nat \<Rightarrow> nat \<Rightarrow> bytes" where
  "user_bytes cin addr i j = map (\<lambda>k. the (cin (addr + of_nat k))) [i..<j]"

lemma user_bytes_Cons:
  "i < j \<Longrightarrow> user_bytes cin addr i j = the (cin (addr + of_nat i)) # user_bytes cin addr (Suc i) j"
  by (simp add: user_bytes_def upt_conv_Cons)

lemma user_bytes_empty [simp]: "user_bytes cin addr i i = []"
  by (simp add: user_bytes_def)

text \<open>
  A writing segment appends to the queue exactly the user bytes from its counter on; it ends
  because everything was written, because the next user byte faults, because the pipe is
  full, or because the reader is gone or the writer killed.
\<close>

lemma pipewrite_loop_spec:
  assumes "pipewrite_loop cin killed addr i rest pi = (out, ws, pi')" and "pipe_inv pi"
  obtains k where "k \<le> rest" and "pipe_inv pi'"
    and "pipe_items pi' = pipe_items pi @ user_bytes cin addr i (i + k)"
    and "readopen pi' = readopen pi" and "writeopen pi' = writeopen pi" and "nread pi' = nread pi"
    and "nwrite pi' = nwrite pi + of_nat k"
    and "out = Returns (of_nat (i + k)) \<and> ws = [NREAD]
           \<and> (k = rest \<or> cin (addr + of_nat (i + k)) = None)
         \<or> out = SleepsOn NWRITE (i + k) \<and> ws = [NREAD] \<and> pipe_full pi' \<and> readopen pi' \<and> k < rest
         \<or> out = Returns (- 1) \<and> ws = [] \<and> (\<not> readopen pi \<or> killed (i + k)) \<and> k < rest"
proof -
  have "\<exists>k. k \<le> rest \<and> pipe_inv pi' \<and> pipe_items pi' = pipe_items pi @ user_bytes cin addr i (i + k)
    \<and> readopen pi' = readopen pi \<and> writeopen pi' = writeopen pi \<and> nread pi' = nread pi
    \<and> nwrite pi' = nwrite pi + of_nat k
    \<and> (out = Returns (of_nat (i + k)) \<and> ws = [NREAD] \<and> (k = rest \<or> cin (addr + of_nat (i + k)) = None)
       \<or> out = SleepsOn NWRITE (i + k) \<and> ws = [NREAD] \<and> pipe_full pi' \<and> readopen pi' \<and> k < rest
       \<or> out = Returns (- 1) \<and> ws = [] \<and> (\<not> readopen pi \<or> killed (i + k)) \<and> k < rest)"
    (is "\<exists>k. ?P i rest pi k")
    using assms
  proof (induction rest arbitrary: i pi)
    case 0
    then show ?case by (intro exI [of _ 0]) auto
  next
    case (Suc rest)
    consider (stop) "\<not> readopen pi \<or> killed i" | (full) "readopen pi" "\<not> killed i" "pipe_full pi"
      | (fault) "readopen pi" "\<not> killed i" "\<not> pipe_full pi" "cin (addr + of_nat i) = None"
      | (store) ch where "readopen pi" "\<not> killed i" "\<not> pipe_full pi" "cin (addr + of_nat i) = Some ch"
      by blast
    then show ?case
    proof cases
      case (store ch)
      let ?pi = "pipe_put ch pi"
      have "pipe_inv ?pi" and it: "pipe_items ?pi = pipe_items pi @ [ch]"
        using store Suc.prems(2) by (simp_all add: pipeq.enq_invar pipeq.enq_items)
      moreover have "pipewrite_loop cin killed addr (Suc i) rest ?pi = (out, ws, pi')"
        using store Suc.prems(1) by simp
      ultimately obtain k where k: "?P (Suc i) rest ?pi k" using Suc.IH by blast
      have "user_bytes cin addr i (i + Suc k) = ch # user_bytes cin addr (Suc i) (Suc i + k)"
        using store by (simp add: user_bytes_Cons)
      moreover have "nread ?pi = nread pi" "nwrite ?pi = nwrite pi + 1"
        by (simp_all add: pipe_put_def)
      ultimately show ?thesis using k it by (intro exI [of _ "Suc k"]) (auto simp: ac_simps)
    qed (use Suc.prems in \<open>auto intro: exI [of _ 0]\<close>)
  qed
  then show thesis using that by blast
qed

lemma piperead_copy_spec:
  assumes "piperead_copy cout addr i rest pi = (j, cs, pi')" and "pipe_inv pi"
  shows "pipe_inv pi' \<and> pipe_items pi = cs @ pipe_items pi'
    \<and> readopen pi' = readopen pi \<and> writeopen pi' = writeopen pi
    \<and> (j = i + length cs \<and> (j = i + rest \<or> pipe_empty pi')
       \<or> Suc j = i + length cs \<and> \<not> cout (addr + of_nat j))
    \<and> (cs = [] \<longrightarrow> pi' = pi) \<and> length cs \<le> rest"
  using assms
proof (induction rest arbitrary: i pi cs)
  case 0
  then show ?case by auto
next
  case (Suc rest)
  show ?case
  proof (cases "pipe_empty pi")
    case True
    then show ?thesis using Suc.prems by auto
  next
    case False
    obtain ch pi1 where g: "pipe_get pi = (ch, pi1)" by (cases "pipe_get pi")
    have it: "pipe_items pi = ch # pipe_items pi1" and inv: "pipe_inv pi1"
      using False Suc.prems(2) g pipeq.deq_items [of pi] pipeq.deq_invar [of pi] by simp_all
    have fl: "readopen pi1 = readopen pi" "writeopen pi1 = writeopen pi"
      using pipe_get_flags [of pi] g by simp_all
    show ?thesis
    proof (cases "cout (addr + of_nat i)")
      case False
      then show ?thesis using Suc.prems(1) \<open>\<not> pipe_empty pi\<close> g it inv fl by auto
    next
      case True
      obtain j' cs' pi2 where r: "piperead_copy cout addr (Suc i) rest pi1 = (j', cs', pi2)"
        by (cases "piperead_copy cout addr (Suc i) rest pi1")
      then have "piperead_copy cout addr (Suc i) rest pi1 = (j, cs', pi')" "cs = ch # cs'"
        using Suc.prems(1) True \<open>\<not> pipe_empty pi\<close> g by auto
      then show ?thesis using Suc.IH [OF _ inv, of "Suc i" cs'] it fl by auto
    qed
  qed
qed

section \<open>Processes on a pipe\<close>

text \<open>
  Any number of processes call \<open>pipewrite\<close> and \<open>piperead\<close> on one pipe.  A process is idle,
  runnable inside a call, or asleep inside a call; the steps are the segments, in any
  order, \<open>pipeclose\<close> of an end, and \<open>proc::kill\<close>, which makes a sleeper runnable.
  \<open>accepted\<close> and \<open>taken\<close> record the bytes stored in and taken from the pipe so far.
  \<open>sync\<close> restricts the runs to those in which a kill is noticed only at the start of a
  segment.
\<close>

datatype pstate =
    Idle
  | Writing u64 int nat | WSleep u64 int nat
  | Reading u64 int | RSleep u64 int

record psys =
  pipe_of :: pipe
  procs :: "nat \<Rightarrow> pstate"
  accepted :: bytes
  taken :: bytes

fun wake1 :: "chan \<Rightarrow> pstate \<Rightarrow> pstate" where
  "wake1 NREAD (RSleep a n) = Reading a n"
| "wake1 NWRITE (WSleep a n i) = Writing a n i"
| "wake1 c st = st"

definition wake :: "chan list \<Rightarrow> (nat \<Rightarrow> pstate) \<Rightarrow> nat \<Rightarrow> pstate" where
  "wake ws ps = (\<lambda>p. fold wake1 ws (ps p))"

definition steady :: "(nat \<Rightarrow> bool) \<Rightarrow> bool" where
  "steady killed \<longleftrightarrow> killed = (\<lambda>_. killed 0)"

definition psys_init :: "bytes \<Rightarrow> psys" where
  "psys_init junk = \<lparr>pipe_of = pipe_init junk, procs = (\<lambda>_. Idle), accepted = [], taken = []\<rparr>"

inductive pipe_step ::
  "(nat \<Rightarrow> u64 \<Rightarrow> u8 option) \<Rightarrow> (nat \<Rightarrow> u64 \<Rightarrow> bool) \<Rightarrow> bool \<Rightarrow> psys \<Rightarrow> psys \<Rightarrow> bool"
  for cin cout sync where
  call_write: "procs s p = Idle \<Longrightarrow> pipe_step cin cout sync s (s\<lparr>procs := (procs s)(p := Writing a n 0)\<rparr>)"
| call_read: "procs s p = Idle \<Longrightarrow> pipe_step cin cout sync s (s\<lparr>procs := (procs s)(p := Reading a n)\<rparr>)"
| write_return:
    "procs s p = Writing a n i \<Longrightarrow> sync \<longrightarrow> steady killed \<Longrightarrow>
     pipewrite (cin p) killed a n i (pipe_of s) = (Returns v, ws, pi') \<Longrightarrow>
     pipe_step cin cout sync s
       (s\<lparr>pipe_of := pi', procs := (wake ws (procs s))(p := Idle),
          accepted := accepted s
            @ user_bytes (cin p) a i (i + unat (nwrite pi' - nwrite (pipe_of s)))\<rparr>)"
| write_sleep:
    "procs s p = Writing a n i \<Longrightarrow> sync \<longrightarrow> steady killed \<Longrightarrow>
     pipewrite (cin p) killed a n i (pipe_of s) = (SleepsOn c j, ws, pi') \<Longrightarrow>
     pipe_step cin cout sync s
       (s\<lparr>pipe_of := pi', procs := (wake ws (procs s))(p := WSleep a n j),
          accepted := accepted s
            @ user_bytes (cin p) a i (i + unat (nwrite pi' - nwrite (pipe_of s)))\<rparr>)"
| read_return:
    "procs s p = Reading a n \<Longrightarrow>
     piperead (cout p) killed' a n (pipe_of s) = (Returns v, ws, cs, pi') \<Longrightarrow>
     pipe_step cin cout sync s
       (s\<lparr>pipe_of := pi', procs := (wake ws (procs s))(p := Idle), taken := taken s @ cs\<rparr>)"
| read_sleep:
    "procs s p = Reading a n \<Longrightarrow>
     piperead (cout p) killed' a n (pipe_of s) = (SleepsOn c j, ws, cs, pi') \<Longrightarrow>
     pipe_step cin cout sync s
       (s\<lparr>pipe_of := pi', procs := (wake ws (procs s))(p := RSleep a n), taken := taken s @ cs\<rparr>)"
| close_end:
    "pipeclose writable (pipe_of s) = (pi', ws, freed) \<Longrightarrow>
     pipe_step cin cout sync s (s\<lparr>pipe_of := pi', procs := wake ws (procs s)\<rparr>)"
| killed_sleeper:
    "pipe_step cin cout sync s
       (s\<lparr>procs := (procs s)(p := wake1 NREAD (wake1 NWRITE (procs s p)))\<rparr>)"

inductive pipe_reach ::
  "(nat \<Rightarrow> u64 \<Rightarrow> u8 option) \<Rightarrow> (nat \<Rightarrow> u64 \<Rightarrow> bool) \<Rightarrow> bool \<Rightarrow> bytes \<Rightarrow> psys \<Rightarrow> bool"
  for cin cout sync junk where
  start: "pipe_reach cin cout sync junk (psys_init junk)"
| step: "pipe_reach cin cout sync junk s \<Longrightarrow> pipe_step cin cout sync s t
    \<Longrightarrow> pipe_reach cin cout sync junk t"

text \<open>No byte is lost, invented, duplicated or reordered between the writers and the readers.\<close>

definition fifo_inv :: "psys \<Rightarrow> bool" where
  "fifo_inv s \<longleftrightarrow> pipe_inv (pipe_of s) \<and> accepted s = taken s @ pipe_items (pipe_of s)"

lemma pipe_count_back:
  "pipe_inv pi' \<Longrightarrow> nread pi' = nread pi \<Longrightarrow> nwrite pi' = nwrite pi + of_nat k \<Longrightarrow>
   pipe_items pi' = pipe_items pi @ xs \<Longrightarrow> length xs = k \<Longrightarrow> unat (nwrite pi' - nwrite pi) = k"
  using arg_cong [of "pipe_items pi'" "pipe_items pi @ xs" length] pipeq.within_cap [of pi']
  by (simp add: PIPESIZE_def)

lemma piperead_spec:
  assumes "piperead cout killed a n pi = (out, ws, cs, pi')" and "pipe_inv pi"
  shows "pipe_inv pi' \<and> pipe_items pi = cs @ pipe_items pi'
    \<and> readopen pi' = readopen pi \<and> writeopen pi' = writeopen pi
    \<and> (cs \<noteq> [] \<longrightarrow> ws = [NWRITE])
    \<and> (\<forall>c j. out = SleepsOn c j \<longrightarrow> c = NREAD \<and> pi' = pi \<and> pipe_empty pi \<and> writeopen pi
         \<and> ws = [] \<and> cs = [])"
proof (cases "pipe_empty pi \<and> writeopen pi")
  case True
  then show ?thesis using assms by (auto simp: piperead_def split: if_splits)
next
  case False
  obtain i cs' pi1 where r: "piperead_copy cout a 0 (nat n) pi = (i, cs', pi1)"
    by (cases "piperead_copy cout a 0 (nat n) pi")
  then show ?thesis using assms False piperead_copy_spec [OF r assms(2)]
    by (auto simp: piperead_def)
qed

lemma pipewrite_spec:
  assumes "pipewrite cin killed a n i pi = (out, ws, pi')" and "pipe_inv pi"
  shows "pipe_inv pi' \<and> readopen pi' = readopen pi \<and> writeopen pi' = writeopen pi
    \<and> pipe_items pi' = pipe_items pi @ user_bytes cin a i (i + unat (nwrite pi' - nwrite pi))
    \<and> (\<forall>c j. out = SleepsOn c j \<longrightarrow> c = NWRITE \<and> pipe_full pi' \<and> readopen pi')
    \<and> (steady killed \<longrightarrow> ws = [NREAD] \<or> pi' = pi)"
proof -
  from assms obtain k where k: "k \<le> nat n - i" "pipe_inv pi'"
      "pipe_items pi' = pipe_items pi @ user_bytes cin a i (i + k)"
      "readopen pi' = readopen pi" "writeopen pi' = writeopen pi" "nread pi' = nread pi"
      "nwrite pi' = nwrite pi + of_nat k"
    and out: "out = Returns (of_nat (i + k)) \<and> ws = [NREAD]
           \<and> (k = nat n - i \<or> cin (a + of_nat (i + k)) = None)
         \<or> out = SleepsOn NWRITE (i + k) \<and> ws = [NREAD] \<and> pipe_full pi' \<and> readopen pi' \<and> k < nat n - i
         \<or> out = Returns (- 1) \<and> ws = [] \<and> (\<not> readopen pi \<or> killed (i + k)) \<and> k < nat n - i"
    unfolding pipewrite_def by (rule pipewrite_loop_spec)
  have "unat (nwrite pi' - nwrite pi) = k"
    using k(2,6,7,3) by (rule pipe_count_back) (simp add: user_bytes_def)
  moreover have "pi' = pi" if "ws \<noteq> [NREAD]" "steady killed"
  proof -
    have "killed (i + k) = killed i" using that(2) by (metis steady_def)
    then have "\<not> readopen pi \<or> killed i" "0 < nat n - i" using out that by auto
    then obtain r where "nat n - i = Suc r" by (cases "nat n - i") auto
    then show ?thesis using assms(1) \<open>\<not> readopen pi \<or> killed i\<close> by (simp add: pipewrite_def)
  qed
  ultimately show ?thesis using k out by auto
qed

lemma pipeclose_spec:
  "pipeclose writable pi = (pi', ws, freed) \<Longrightarrow>
   pipe_inv pi' = pipe_inv pi \<and> pipe_items pi' = pipe_items pi \<and> pipe_empty pi' = pipe_empty pi
   \<and> pipe_full pi' = pipe_full pi
   \<and> ws = [if writable then NREAD else NWRITE]
   \<and> readopen pi' = (readopen pi \<and> writable) \<and> writeopen pi' = (writeopen pi \<and> \<not> writable)"
  by (cases writable)
    (auto simp: pipeclose_def pipe_inv_def pipe_items_def pipe_empty_def pipe_full_def)

lemma pipe_step_fifo:
  assumes "pipe_step cin cout sync s t" and "fifo_inv s"
  shows "fifo_inv t"
  using assms
proof (induction rule: pipe_step.induct)
  case (write_return s p a n i killed v ws pi')
  then show ?case using pipewrite_spec [OF write_return.hyps(3)] by (simp add: fifo_inv_def)
next
  case (write_sleep s p a n i killed c j ws pi')
  then show ?case using pipewrite_spec [OF write_sleep.hyps(3)] by (simp add: fifo_inv_def)
next
  case (read_return s p a n killed' v ws cs pi')
  then show ?case using piperead_spec [OF read_return.hyps(2)] by (simp add: fifo_inv_def)
next
  case (read_sleep s p a n killed' c j ws cs pi')
  then have "cs = [] \<and> pi' = pipe_of s"
    using piperead_spec [OF read_sleep.hyps(2)] by (blast dest: fifo_inv_def [THEN iffD1])
  then show ?case using read_sleep.prems by (simp add: fifo_inv_def)
next
  case (close_end writable s pi' ws freed)
  then show ?case using pipeclose_spec [OF close_end.hyps(1)] by (simp add: fifo_inv_def)
qed (auto simp: fifo_inv_def)

lemma fifo_inv_start: "length junk = PIPESIZE \<Longrightarrow> fifo_inv (psys_init junk)"
  by (simp add: fifo_inv_def psys_init_def pipe_inv_init)
    (simp add: pipe_items_def pipe_init_def ring_items_def)

text \<open>
  C21: in every reachable state of any number of readers and writers, the bytes taken from
  the pipe are a prefix of the bytes accepted from the writers and the rest is what the
  ring holds, at most \<open>PIPESIZE\<close> bytes; the 32-bit counters may wrap around.
\<close>

theorem pipe_fifo:
  assumes "pipe_reach cin cout sync junk s" and "length junk = PIPESIZE"
  shows "accepted s = taken s @ pipe_items (pipe_of s) \<and> length (pipe_items (pipe_of s)) \<le> PIPESIZE"
proof -
  from assms(1) have "fifo_inv s"
  proof (induction rule: pipe_reach.induct)
    case start
    then show ?case by (rule fifo_inv_start [OF assms(2)])
  next
    case (step s t)
    then show ?case by (blast intro: pipe_step_fifo)
  qed
  then show ?thesis using pipeq.within_cap by (simp add: fifo_inv_def)
qed

text \<open>A run: one process writes one byte.\<close>

lemma pipe_one_byte:
  "pipe_reach (\<lambda>_ _. Some 7) (\<lambda>_ _. True) True (replicate 512 0)
     \<lparr>pipe_of = pipe_put 7 (pipe_init (replicate 512 0)), procs = (\<lambda>_. Idle),
      accepted = [7], taken = []\<rparr>"
proof -
  let ?R = "pipe_reach (\<lambda>_ _. Some 7) (\<lambda>_ _. True) True (replicate 512 0)"
  let ?s = "psys_init (replicate 512 0)"
  let ?t = "?s\<lparr>procs := (procs ?s)(0 := Writing 0 1 0)\<rparr>"
  have "procs ?s 0 = Idle" by (simp add: psys_init_def)
  then have t: "?R ?t" by (blast intro: pipe_reach.intros pipe_step.call_write)
  have w: "pipewrite (\<lambda>_. Some 7) (\<lambda>_. False) 0 1 0 (pipe_of ?t)
    = (Returns 1, [NREAD], pipe_put 7 (pipe_init (replicate 512 0)))"
    by (simp add: pipewrite_def psys_init_def pipe_full_def pipe_init_def PIPESIZE_def)
  have "?R (?t\<lparr>pipe_of := pipe_put 7 (pipe_init (replicate 512 0)),
      procs := (wake [NREAD] (procs ?t))(0 := Idle),
      accepted := accepted ?t @ user_bytes (\<lambda>_. Some 7) 0 0
        (0 + unat (nwrite (pipe_put 7 (pipe_init (replicate 512 0))) - nwrite (pipe_of ?t)))\<rparr>)"
    by (rule pipe_reach.step [OF t pipe_step.write_return [OF _ _ w]]) (simp_all add: steady_def)
  moreover have "(wake [NREAD] (procs ?t))(0 := Idle) = (\<lambda>_. Idle)"
    by (auto simp: wake_def psys_init_def)
  ultimately show ?thesis
    by (simp add: psys_init_def pipe_put_def pipe_init_def user_bytes_def)
qed

theorem pipe_fifo_witness:
  "let s = \<lparr>pipe_of = pipe_put 7 (pipe_init (replicate 512 0)), procs = (\<lambda>_. Idle),
      accepted = [7], taken = []\<rparr>
   in pipe_reach (\<lambda>_ _. Some 7) (\<lambda>_ _. True) True (replicate 512 0) s
     \<and> pipe_items (pipe_of s) = [7]"
  using pipe_fifo [OF pipe_one_byte] pipe_one_byte by (simp add: PIPESIZE_def)

section \<open>Sleeping and waking\<close>

definition sleep_inv :: "psys \<Rightarrow> bool" where
  "sleep_inv s \<longleftrightarrow>
     (\<forall>p a n. procs s p = RSleep a n \<longrightarrow> pipe_empty (pipe_of s) \<and> writeopen (pipe_of s))
     \<and> (\<forall>p a n i. procs s p = WSleep a n i \<longrightarrow> pipe_full (pipe_of s) \<and> readopen (pipe_of s))"

lemma wake1_eq_RSleep: "wake1 c st = RSleep a n \<longleftrightarrow> st = RSleep a n \<and> c \<noteq> NREAD"
  by (cases "(c, st)" rule: wake1.cases) auto

lemma wake1_eq_WSleep: "wake1 c st = WSleep a n i \<longleftrightarrow> st = WSleep a n i \<and> c \<noteq> NWRITE"
  by (cases "(c, st)" rule: wake1.cases) auto

lemma wake_eq_RSleep: "wake ws ps p = RSleep a n \<longleftrightarrow> ps p = RSleep a n \<and> NREAD \<notin> set ws"
proof -
  have "fold wake1 ws st = RSleep a n \<longleftrightarrow> st = RSleep a n \<and> NREAD \<notin> set ws" for st
    by (induction ws arbitrary: st) (auto simp: wake1_eq_RSleep)
  then show ?thesis by (simp add: wake_def)
qed

lemma wake_eq_WSleep: "wake ws ps p = WSleep a n i \<longleftrightarrow> ps p = WSleep a n i \<and> NWRITE \<notin> set ws"
proof -
  have "fold wake1 ws st = WSleep a n i \<longleftrightarrow> st = WSleep a n i \<and> NWRITE \<notin> set ws" for st
    by (induction ws arbitrary: st) (auto simp: wake1_eq_WSleep)
  then show ?thesis by (simp add: wake_def)
qed

lemmas wake_simps = wake1_eq_RSleep wake1_eq_WSleep wake_eq_RSleep wake_eq_WSleep

text \<open>What a writing segment leaves for the sleepers: a full pipe stays as it is.\<close>

lemma pipewrite_full:
  "pipe_full pi \<Longrightarrow> pipewrite cin killed a n i pi = (out, ws, pi') \<Longrightarrow> pi' = pi"
  by (cases "nat n - i") (auto simp: pipewrite_def split: if_splits)

lemma piperead_writers:
  assumes "piperead cout killed a n pi = (out, ws, cs, pi')" and "pipe_inv pi" and "NWRITE \<notin> set ws"
  shows "pi' = pi"
  using assms by (auto simp: piperead_def split: if_splits prod.splits)

lemma piperead_empty:
  assumes "piperead cout killed a n pi = (out, ws, cs, pi')" and "pipe_empty pi"
  shows "pi' = pi"
  using assms by (cases "nat n") (auto simp: piperead_def split: if_splits prod.splits)

lemma pipe_step_sleep:
  assumes "pipe_step cin cout sync s t" and "sync" and "fifo_inv s" and "sleep_inv s"
  shows "sleep_inv t"
  using assms
proof (induction rule: pipe_step.induct)
  case (write_return s p a n i killed v ws pi')
  have inv: "pipe_inv (pipe_of s)" using write_return.prems by (simp add: fifo_inv_def)
  show ?case
    using write_return.prems write_return.hyps(1,2) pipewrite_spec [OF write_return.hyps(3) inv]
      pipewrite_full [OF _ write_return.hyps(3)]
    by (fastforce simp: sleep_inv_def wake_simps)
next
  case (write_sleep s p a n i killed c j ws pi')
  have inv: "pipe_inv (pipe_of s)" using write_sleep.prems by (simp add: fifo_inv_def)
  show ?case
    using write_sleep.prems write_sleep.hyps(1,2) pipewrite_spec [OF write_sleep.hyps(3) inv]
      pipewrite_full [OF _ write_sleep.hyps(3)]
    by (fastforce simp: sleep_inv_def wake_simps)
next
  case (read_return s p a n killed' v ws cs pi')
  have inv: "pipe_inv (pipe_of s)" using read_return.prems by (simp add: fifo_inv_def)
  show ?case
    using read_return.prems(3) piperead_writers [OF read_return.hyps(2) inv]
      piperead_empty [OF read_return.hyps(2)]
    by (simp add: sleep_inv_def wake_simps) metis
next
  case (read_sleep s p a n killed' c j ws cs pi')
  then have "cs = [] \<and> pi' = pipe_of s \<and> pipe_empty (pipe_of s) \<and> writeopen (pipe_of s)"
    using piperead_spec [OF read_sleep.hyps(2)] by (blast dest: fifo_inv_def [THEN iffD1])
  then show ?case using read_sleep.prems by (auto simp: sleep_inv_def wake_simps)
next
  case (close_end writable s pi' ws freed)
  then show ?case using pipeclose_spec [OF close_end.hyps(1)]
    by (auto simp: sleep_inv_def wake_simps)
qed (auto simp: sleep_inv_def wake_simps)

text \<open>
  C22: when a kill is noticed only between two segments, no wakeup is lost: in every reachable
  state a reader sleeps only on an empty pipe that still has a writer end, and a writer
  sleeps only on a full pipe that still has a reader end.
\<close>

theorem pipe_no_lost_wakeup:
  assumes "pipe_reach cin cout True junk s" and "length junk = PIPESIZE"
  shows "(procs s p = RSleep a n \<longrightarrow> pipe_empty (pipe_of s) \<and> writeopen (pipe_of s))
    \<and> (procs s p = WSleep a n i \<longrightarrow> pipe_full (pipe_of s) \<and> readopen (pipe_of s))"
proof -
  from assms(1) have "fifo_inv s \<and> sleep_inv s"
  proof (induction rule: pipe_reach.induct)
    case start
    then show ?case using fifo_inv_start [OF assms(2)] by (simp add: sleep_inv_def psys_init_def)
  next
    case (step s t)
    then show ?case by (blast intro: pipe_step_fifo pipe_step_sleep)
  qed
  then show ?thesis unfolding sleep_inv_def by blast
qed

text \<open>A reader that finds the new pipe empty sleeps.\<close>

lemma pipe_reader_sleeps:
  "pipe_reach cin cout sync junk ((psys_init junk)\<lparr>procs := (\<lambda>_. Idle)(1 := RSleep 0 1)\<rparr>)"
proof -
  let ?s = "psys_init junk"
  let ?t = "?s\<lparr>procs := (procs ?s)(1 := Reading 0 1)\<rparr>"
  have "procs ?s 1 = Idle" by (simp add: psys_init_def)
  then have t: "pipe_reach cin cout sync junk ?t"
    by (blast intro: pipe_reach.intros pipe_step.call_read)
  have r: "piperead (cout 1) False 0 1 (pipe_of ?t) = (SleepsOn NREAD 0, [], [], pipe_of ?t)"
    by (simp add: piperead_def psys_init_def pipe_empty_def pipe_init_def)
  have "pipe_reach cin cout sync junk
    (?t\<lparr>pipe_of := pipe_of ?t, procs := (wake [] (procs ?t))(1 := RSleep 0 1), taken := taken ?t @ []\<rparr>)"
    by (rule pipe_reach.step [OF t], rule pipe_step.read_sleep [where s = ?t and p = 1 and cout = cout, OF _ r]) simp
  moreover have "(wake [] (procs ?t))(1 := RSleep 0 1) = (\<lambda>_. Idle)(1 := RSleep 0 1)"
    by (auto simp: wake_def psys_init_def)
  ultimately show ?thesis by (simp add: psys_init_def)
qed

theorem pipe_no_lost_wakeup_witness:
  "let s = (psys_init (replicate 512 0))\<lparr>procs := (\<lambda>_. Idle)(1 := RSleep 0 1)\<rparr>
   in pipe_reach (\<lambda>_ _. Some 7) (\<lambda>_ _. True) True (replicate 512 0) s
     \<and> procs s 1 = RSleep 0 1 \<and> pipe_empty (pipe_of s) \<and> writeopen (pipe_of s)"
  using pipe_no_lost_wakeup [OF pipe_reader_sleeps, of "replicate 512 0" 1 0 1]
    pipe_reader_sleeps [of "\<lambda>_ _. Some 7" "\<lambda>_ _. True" True "replicate 512 0"]
  by (simp add: PIPESIZE_def)

text \<open>
  C23: without that restriction a wakeup is lost.  \<open>pipewrite\<close> returns \<open>-1\<close> for a killed
  writer without \<open>proc::wakeup(&pi->nread)\<close>, even after it stored bytes in this segment: a
  reader then stays asleep although the pipe holds a byte for it.
\<close>

theorem pipe_lost_wakeup:
  "\<exists>s. pipe_reach (\<lambda>_ _. Some 7) (\<lambda>_ _. True) False (replicate 512 0) s
     \<and> procs s = (\<lambda>_. Idle)(1 := RSleep 0 1) \<and> pipe_items (pipe_of s) = [7]"
proof -
  let ?cin = "\<lambda>_ _. Some (7 :: u8)" and ?cout = "\<lambda>_ _. True" and ?junk = "replicate 512 0"
  let ?R = "pipe_reach ?cin ?cout False ?junk"
  let ?s = "(psys_init ?junk)\<lparr>procs := (\<lambda>_. Idle)(1 := RSleep 0 1)\<rparr>"
  let ?t = "?s\<lparr>procs := (procs ?s)(2 := Writing 0 2 0)\<rparr>"
  let ?pi = "pipe_put 7 (pipe_init ?junk)"
  have "procs ?s 2 = Idle" by simp
  then have t: "?R ?t" by (blast intro: pipe_reach.step pipe_reader_sleeps pipe_step.call_write)
  have w: "pipewrite (?cin 2) (\<lambda>i. i = 1) 0 2 0 (pipe_of ?t) = (Returns (- 1), [], ?pi)"
  proof -
    have "nat 2 - 0 = Suc (Suc 0)" by simp
    then show ?thesis unfolding pipewrite_def
      by (simp only: pipewrite_loop.simps)
        (simp add: psys_init_def pipe_full_def pipe_init_def PIPESIZE_def pipe_put_def)
  qed
  let ?u = "?t\<lparr>pipe_of := ?pi, procs := (wake [] (procs ?t))(2 := Idle),
      accepted := accepted ?t @ user_bytes (?cin 2) 0 0 (0 + unat (nwrite ?pi - nwrite (pipe_of ?t)))\<rparr>"
  have "?R ?u" by (rule pipe_reach.step [OF t pipe_step.write_return [OF _ _ w]]) simp_all
  moreover have "pipe_items ?pi = [7]"
    by (simp add: pipe_items_def pipe_put_def pipe_init_def ring_items_def PIPESIZE_def)
  moreover have "procs ?u = (\<lambda>_. Idle)(1 := RSleep 0 1)" by (auto simp: wake_def)
  ultimately show ?thesis by (intro exI [of _ ?u]) simp
qed

end
