(* ===== verification/Uart.thy ===== *)
theory Uart
  imports Ring
begin

text \<open>
  \<open>kernel/uart.cpp\<close>: the transmitter ring of the serial port and its register protocol.
  The device is a parameter: \<open>lsr k\<close> is the value of the line status register at the
  \<open>k\<close>-th time the driver reads it.  The state keeps, beside the driver's variables, the
  number of reads so far and the list of register writes made, newest last.
\<close>

section \<open>The driver\<close>

definition RHR :: u64 where [layout_simps]: "RHR = 0"
definition THR :: u64 where [layout_simps]: "THR = 0"
definition IER :: u64 where [layout_simps]: "IER = 1"
definition FCR :: u64 where [layout_simps]: "FCR = 2"
definition LCR :: u64 where [layout_simps]: "LCR = 3"
definition LSR_TX_IDLE :: u8 where [layout_simps]: "LSR_TX_IDLE = 32"
definition UART_TX_BUF_SIZE :: nat where [layout_simps]: "UART_TX_BUF_SIZE = 32"

record uart =
  uart_tx_buf :: bytes
  uart_tx_w :: u64
  uart_tx_r :: u64
  lsr_reads :: nat
  reg_writes :: "(u64 \<times> u8) list"

definition write_reg :: "u64 \<Rightarrow> u8 \<Rightarrow> uart \<Rightarrow> uart" where
  "write_reg reg v u = u\<lparr>reg_writes := reg_writes u @ [(reg, v)]\<rparr>"

definition uart_boot :: uart where
  "uart_boot = \<lparr>uart_tx_buf = replicate UART_TX_BUF_SIZE 0, uart_tx_w = 0, uart_tx_r = 0,
     lsr_reads = 0, reg_writes = []\<rparr>"

text \<open>\<open>uart::init\<close>: the latch bit exposes the divisor registers 0 and 1 for two writes.\<close>

definition uart_init :: "uart \<Rightarrow> uart" where
  "uart_init u = fold (\<lambda>(r, v). write_reg r v)
     [(IER, 0), (LCR, 0x80), (0, 3), (1, 0), (LCR, 3), (FCR, 1 OR 6), (IER, 1 OR 2)] u"

definition tx_idle :: "(nat \<Rightarrow> u8) \<Rightarrow> uart \<Rightarrow> bool" where
  "tx_idle lsr u \<longleftrightarrow> lsr (lsr_reads u) AND LSR_TX_IDLE \<noteq> 0"

text \<open>
  One iteration of \<open>uart::start\<close> past its two tests: take a byte, wake the sleepers of
  \<open>putc\<close> (the second result counts the wakeups) and write it to the device.
\<close>

definition tx_take :: "uart \<Rightarrow> u8 \<times> uart" where
  "tx_take u = (uart_tx_buf u ! (unat (uart_tx_r u) mod UART_TX_BUF_SIZE),
     u\<lparr>uart_tx_r := uart_tx_r u + 1\<rparr>)"

function start :: "(nat \<Rightarrow> u8) \<Rightarrow> uart \<Rightarrow> nat \<times> uart" where
  "start lsr u =
     (if uart_tx_w u = uart_tx_r u then (0, u)
      else let u1 = u\<lparr>lsr_reads := Suc (lsr_reads u)\<rparr> in
        if \<not> tx_idle lsr u then (0, u1)
        else let (c, u2) = tx_take u1; (wakeups, u3) = start lsr (write_reg THR c u2)
             in (Suc wakeups, u3))"
  by pat_completeness auto
termination
  by (relation "measure (\<lambda>(_, u). unat (uart_tx_w u - uart_tx_r u))")
    (auto simp: tx_take_def write_reg_def ring_get_count unat_gt_0)

definition tx_full :: "uart \<Rightarrow> bool" where
  "tx_full u \<longleftrightarrow> uart_tx_w u = uart_tx_r u + of_nat UART_TX_BUF_SIZE"

definition tx_empty :: "uart \<Rightarrow> bool" where
  "tx_empty u \<longleftrightarrow> uart_tx_w u = uart_tx_r u"

definition tx_store :: "u8 \<Rightarrow> uart \<Rightarrow> uart" where
  "tx_store c u = u\<lparr>uart_tx_buf := (uart_tx_buf u)[unat (uart_tx_w u) mod UART_TX_BUF_SIZE := c],
     uart_tx_w := uart_tx_w u + 1\<rparr>"

text \<open>\<open>uart::putc\<close> from a test of its loop on: it sleeps on a full ring (\<open>Inl\<close>) or returns.\<close>

definition putc :: "(nat \<Rightarrow> u8) \<Rightarrow> u8 \<Rightarrow> uart \<Rightarrow> fault + (nat \<times> uart)" where
  "putc lsr c u = (if tx_full u then Inl (Sleeps ''uart_tx_r'') else Inr (start lsr (tx_store c u)))"

text \<open>\<open>uart::kputc\<close> polls until the transmitter is idle; not returning is \<open>None\<close>.\<close>

partial_function (option) kputc :: "(nat \<Rightarrow> u8) \<Rightarrow> u8 \<Rightarrow> uart \<Rightarrow> uart option" where
  "kputc lsr c u =
     (let u1 = u\<lparr>lsr_reads := Suc (lsr_reads u)\<rparr> in
      if tx_idle lsr u then Some (write_reg THR c u1) else kputc lsr c u1)"

text \<open>
  \<open>uart::getc\<close>: \<open>rhr k\<close> is the receive register when the \<open>k\<close>-th status read says that a
  byte is there.
\<close>

definition getc :: "(nat \<Rightarrow> u8) \<Rightarrow> (nat \<Rightarrow> u8) \<Rightarrow> uart \<Rightarrow> u8 option \<times> uart" where
  "getc lsr rhr u =
     (if lsr (lsr_reads u) AND 1 \<noteq> 0 then Some (rhr (lsr_reads u)) else None,
      u\<lparr>lsr_reads := Suc (lsr_reads u)\<rparr>)"

section \<open>The transmitter is a bounded queue\<close>

definition tx_items :: "uart \<Rightarrow> bytes" where
  "tx_items u = ring_items (uart_tx_buf u) (uart_tx_r u) (uart_tx_w u)"

definition tx_inv :: "uart \<Rightarrow> bool" where
  "tx_inv u \<longleftrightarrow> length (uart_tx_buf u) = UART_TX_BUF_SIZE
     \<and> unat (uart_tx_w u - uart_tx_r u) \<le> UART_TX_BUF_SIZE"

lemma tx_ring_ok: "tx_inv u \<Longrightarrow> ring_ok (uart_tx_buf u) (uart_tx_r u) (uart_tx_w u)"
proof -
  have "(32 :: nat) dvd 2 ^ 64" by simp
  then show "tx_inv u \<Longrightarrow> ?thesis" by (auto simp: tx_inv_def ring_ok_def UART_TX_BUF_SIZE_def)
qed

interpretation txq: byte_queue tx_items tx_inv UART_TX_BUF_SIZE tx_full tx_empty tx_store tx_take
proof
  fix u :: uart and c
  assume inv: "tx_inv u"
  note ok = tx_ring_ok [OF inv]
  have len: "length (uart_tx_buf u) = UART_TX_BUF_SIZE" using inv by (simp add: tx_inv_def)
  show "length (tx_items u) \<le> UART_TX_BUF_SIZE"
    using inv by (simp add: tx_items_def tx_inv_def)
  show full: "tx_full u \<longleftrightarrow> length (tx_items u) = UART_TX_BUF_SIZE"
    using ring_full_iff [OF ok] len by (simp add: tx_full_def tx_items_def)
  show "tx_empty u \<longleftrightarrow> tx_items u = []"
    by (auto simp: tx_empty_def tx_items_def simp flip: ring_empty_iff)
  {
    assume "\<not> tx_full u"
    then have room: "unat (uart_tx_w u - uart_tx_r u) < length (uart_tx_buf u)"
      using full inv len by (simp add: tx_items_def tx_inv_def)
    show "tx_items (tx_store c u) = tx_items u @ [c]"
      using ring_put_items [OF ok room] len by (simp add: tx_items_def tx_store_def)
    show "tx_inv (tx_store c u)"
      using ring_put_count [OF ok room] room len by (simp add: tx_inv_def tx_store_def)
  }
  {
    assume "\<not> tx_empty u"
    then have ne: "uart_tx_r u \<noteq> uart_tx_w u" by (simp add: tx_empty_def)
    show "tx_items u = fst (tx_take u) # tx_items (snd (tx_take u))"
      using ring_get_items [OF ne, of "uart_tx_buf u"] len by (simp add: tx_items_def tx_take_def)
    show "tx_inv (snd (tx_take u))"
      using inv ne by (auto simp: tx_inv_def tx_take_def ring_get_count)
  }
qed

section \<open>What reaches the device\<close>

definition transmitted :: "uart \<Rightarrow> bytes" where
  "transmitted u = map snd (filter (\<lambda>(r, v). r = THR) (reg_writes u))"

text \<open>All bytes handed over so far: those on the wire, then those in the ring.\<close>

definition handed :: "uart \<Rightarrow> bytes" where
  "handed u = transmitted u @ tx_items u"

lemma tx_frame [simp]:
  "tx_items (u\<lparr>lsr_reads := k\<rparr>) = tx_items u" "tx_inv (u\<lparr>lsr_reads := k\<rparr>) = tx_inv u"
  "transmitted (u\<lparr>lsr_reads := k\<rparr>) = transmitted u"
  "tx_items (write_reg r c u) = tx_items u" "tx_inv (write_reg r c u) = tx_inv u"
  "transmitted (write_reg THR c u) = transmitted u @ [c]"
  "transmitted (tx_store c u) = transmitted u" "transmitted (snd (tx_take u)) = transmitted u"
  by (simp_all add: tx_items_def tx_inv_def transmitted_def write_reg_def tx_store_def tx_take_def)

lemma start_spec:
  assumes "start lsr u = (k, u')" and "tx_inv u"
  shows "tx_inv u' \<and> transmitted u' @ tx_items u' = transmitted u @ tx_items u
    \<and> length (tx_items u) = k + length (tx_items u')
    \<and> (tx_items u' = [] \<or> lsr (lsr_reads u' - 1) AND LSR_TX_IDLE = 0)"
  using assms
proof (induction lsr u arbitrary: k u' rule: start.induct)
  case (1 lsr u)
  let ?u1 = "u\<lparr>lsr_reads := Suc (lsr_reads u)\<rparr>"
  show ?case
  proof (cases "tx_empty u \<or> \<not> tx_idle lsr u")
    case True
    then show ?thesis
      using "1.prems" txq.empty_iff [of u]
      by (auto simp: start.simps [of lsr u] tx_empty_def tx_idle_def split: if_splits)
  next
    case False
    obtain c u2 where t: "tx_take ?u1 = (c, u2)" by (cases "tx_take ?u1")
    obtain k3 where r: "start lsr (write_reg THR c u2) = (k3, u')" "k = Suc k3"
      using "1.prems"(1) False t
      by (auto simp: start.simps [of lsr u] tx_empty_def split: prod.splits)
    have ne: "\<not> tx_empty ?u1" using False by (simp add: tx_empty_def)
    have "tx_items u = c # tx_items u2" "tx_inv u2" "transmitted u2 = transmitted u"
      using txq.deq_items [OF _ ne] txq.deq_invar [OF _ ne] tx_frame(8) [of ?u1] "1.prems"(2) t
      by simp_all
    moreover have "uart_tx_w u \<noteq> uart_tx_r u" using False by (simp add: tx_empty_def)
    ultimately show ?thesis
      using "1.IH" [OF _ refl _ t [symmetric] refl r(1)] False r(2) by auto
  qed
qed

text \<open>
  A \<open>putc\<close> that does not sleep appends its byte to what is transmitted or still queued, it
  returns only with an empty ring or a busy transmitter, and it wakes the sleepers once per
  byte sent.
\<close>

lemma putc_spec:
  assumes "putc lsr c u = Inr (wakeups, u')" and "tx_inv u"
  shows "tx_inv u' \<and> handed u' = handed u @ [c]
    \<and> length (transmitted u') = length (transmitted u) + wakeups
    \<and> (tx_items u' = [] \<or> lsr (lsr_reads u' - 1) AND LSR_TX_IDLE = 0)"
proof -
  have nf: "\<not> tx_full u" and s: "start lsr (tx_store c u) = (wakeups, u')"
    using assms(1) by (auto simp: putc_def split: if_splits)
  have "tx_inv (tx_store c u)" "tx_items (tx_store c u) = tx_items u @ [c]"
    using nf assms(2) by (simp_all add: txq.enq_invar txq.enq_items)
  moreover from this start_spec [OF s]
  have *: "transmitted u' @ tx_items u' = transmitted u @ tx_items u @ [c]"
    "length (tx_items u) + 1 = wakeups + length (tx_items u')" by simp_all
  moreover have "length (transmitted u') = length (transmitted u) + wakeups"
    using arg_cong [OF *(1), of length] *(2) by simp
  ultimately show ?thesis using start_spec [OF s] by (simp add: handed_def)
qed

text \<open>The polling loop returns as soon as the device reports an idle transmitter.\<close>

lemma kputc_returns:
  assumes "lsr (lsr_reads u + k) AND LSR_TX_IDLE \<noteq> 0"
  shows "\<exists>u'. kputc lsr c u = Some u' \<and> transmitted u' = transmitted u @ [c] \<and> tx_items u' = tx_items u"
  using assms
proof (induction k arbitrary: u)
  case 0
  then show ?case by (subst kputc.simps) (simp add: tx_idle_def)
next
  case (Suc k)
  then show ?case using Suc.IH [of "u\<lparr>lsr_reads := Suc (lsr_reads u)\<rparr>"]
    by (subst kputc.simps) (simp add: Let_def)
qed

end
