(* ===== verification/Console.thy ===== *)
theory Console
  imports Uart
begin

text \<open>
  \<open>kernel/console.cpp\<close>: the line editor between the serial port and \<open>read\<close>, and
  \<open>uart::intr\<close> of \<open>kernel/uart.cpp\<close>, which feeds it.  The input ring has three counters:
  the bytes from \<open>r\<close> to \<open>w\<close> are committed lines, those from \<open>w\<close> to \<open>e\<close> the line being
  edited.  \<open>char\<close> is unsigned on RISC-V, so an input character is a \<open>u8\<close>.
\<close>

section \<open>The operations\<close>

definition INPUT_BUF_SIZE :: nat where [layout_simps]: "INPUT_BUF_SIZE = 128"
definition BACKSPACE :: u32 where [layout_simps]: "BACKSPACE = 0x100"

record cons =
  cons_buf :: bytes
  cons_r :: u32
  cons_w :: u32
  cons_e :: u32

definition cons_boot :: cons where
  "cons_boot = \<lparr>cons_buf = replicate INPUT_BUF_SIZE 0, cons_r = 0, cons_w = 0, cons_e = 0\<rparr>"

text \<open>\<open>console::putc\<close>: echo through the polling transmitter.\<close>

definition echo_bytes :: "u32 \<Rightarrow> bytes" where
  "echo_bytes c = (if c = BACKSPACE then [8, 32, 8] else [ucast c])"

definition cons_putc :: "(nat \<Rightarrow> u8) \<Rightarrow> u32 \<Rightarrow> uart \<Rightarrow> uart option" where
  "cons_putc lsr c u = fold (\<lambda>b m. Option.bind m (kputc lsr b)) (echo_bytes c) (Some u)"

text \<open>
  \<open>console::write\<close> from byte \<open>i\<close> on: \<open>either_copyin\<close> of one byte is \<open>cin\<close>; the call ends, or
  sleeps inside \<open>uart::putc\<close> before byte \<open>i\<close> (\<open>Inl i\<close>).
\<close>

fun cons_write :: "(nat \<Rightarrow> u8) \<Rightarrow> (u64 \<Rightarrow> u8 option) \<Rightarrow> u64 \<Rightarrow> nat \<Rightarrow> nat \<Rightarrow> uart \<Rightarrow> (nat + nat) \<times> uart" where
  "cons_write lsr cin src i 0 u = (Inr i, u)"
| "cons_write lsr cin src i (Suc rest) u =
     (case cin (src + of_nat i) of
        None \<Rightarrow> (Inr i, u)
      | Some c \<Rightarrow> (case putc lsr c u of
            Inl _ \<Rightarrow> (Inl i, u)
          | Inr (_, u') \<Rightarrow> cons_write lsr cin src (Suc i) rest u'))"

text \<open>
  \<open>console::read\<close> with \<open>n\<close> of \<open>target\<close> bytes to go, from a test of the outer loop to a return
  or a sleep on \<open>&cons.r\<close>.  \<open>cout\<close> tells whether \<open>vm::copyout\<close> can store at an address;
  \<open>either_copyout\<close> returns that truth value as an \<open>int\<close>, which is compared with \<open>-1\<close>.  The
  second result lists the bytes handed to \<open>either_copyout\<close> with their addresses.
\<close>

datatype rseg = RReturns int | RSleeps u64 nat

definition cons_take :: "cons \<Rightarrow> u8 \<times> cons" where
  "cons_take s = (cons_buf s ! (unat (cons_r s) mod INPUT_BUF_SIZE), s\<lparr>cons_r := cons_r s + 1\<rparr>)"

fun cons_read :: "(u64 \<Rightarrow> bool) \<Rightarrow> bool \<Rightarrow> nat \<Rightarrow> u64 \<Rightarrow> nat \<Rightarrow> cons
    \<Rightarrow> rseg \<times> (u64 \<times> u8) list \<times> cons" where
  "cons_read cout killed target dst 0 s = (RReturns (int target), [], s)"
| "cons_read cout killed target dst (Suc n) s =
     (if cons_r s = cons_w s then
        (if killed then (RReturns (- 1), [], s) else (RSleeps dst (Suc n), [], s))
      else let (c, s1) = cons_take s in
        if c = 4 then
          (RReturns (int target - int (Suc n)), [],
           if Suc n < target then s1\<lparr>cons_r := cons_r s1 - 1\<rparr> else s1)
        else if of_bool (cout dst) = (- 1 :: int) then
          (RReturns (int target - int (Suc n)), [(dst, c)], s1)
        else if c = 10 then (RReturns (int target - int n), [(dst, c)], s1)
        else let (out, stores, s2) = cons_read cout killed target (dst + 1) n s1
             in (out, (dst, c) # stores, s2))"

text \<open>The loop of control-U: it erases back to the last newline or to \<open>w\<close>.\<close>

function kill_line :: "(nat \<Rightarrow> u8) \<Rightarrow> cons \<Rightarrow> uart \<Rightarrow> (cons \<times> uart) option" where
  "kill_line lsr s u =
     (if cons_e s \<noteq> cons_w s \<and> cons_buf s ! (unat (cons_e s - 1) mod INPUT_BUF_SIZE) \<noteq> 10
      then Option.bind (cons_putc lsr BACKSPACE u) (kill_line lsr (s\<lparr>cons_e := cons_e s - 1\<rparr>))
      else Some (s, u))"
  by pat_completeness auto
termination
proof (relation "measure (\<lambda>(_, s, _). unat (cons_e s - cons_w s))")
  fix lsr s u u'
  assume "cons_e s \<noteq> cons_w s \<and> cons_buf s ! (unat (cons_e s - 1) mod INPUT_BUF_SIZE) \<noteq> 10"
  then have "cons_e s - cons_w s \<noteq> 0" by simp
  then have "unat (cons_e s - cons_w s - 1) < unat (cons_e s - cons_w s)" by (simp add: unat_minus_one unat_gt_0)
  moreover have "cons_e s - cons_w s - 1 = cons_e s - 1 - cons_w s" by (rule diff_right_commute)
  ultimately show "((lsr, s\<lparr>cons_e := cons_e s - 1\<rparr>, u'), (lsr, s, u))
      \<in> measure (\<lambda>(_, s, _). unat (cons_e s - cons_w s))" by simp
qed simp

definition cons_store :: "u8 \<Rightarrow> cons \<Rightarrow> cons" where
  "cons_store c s = s\<lparr>cons_buf := (cons_buf s)[unat (cons_e s) mod INPUT_BUF_SIZE := c], cons_e := cons_e s + 1\<rparr>"

text \<open>\<open>console::intr\<close>; the first result tells whether the readers are woken.\<close>

definition cons_intr :: "(nat \<Rightarrow> u8) \<Rightarrow> u8 \<Rightarrow> cons \<Rightarrow> uart \<Rightarrow> (bool \<times> cons \<times> uart) option" where
  "cons_intr lsr c s u =
     (if c = 21 then map_option (Pair False) (kill_line lsr s u)
      else if c = 8 \<or> c = 127 then
        (if cons_e s \<noteq> cons_w s
         then map_option (\<lambda>u'. (False, s\<lparr>cons_e := cons_e s - 1\<rparr>, u')) (cons_putc lsr BACKSPACE u)
         else Some (False, s, u))
      else if c \<noteq> 0 \<and> cons_e s - cons_r s < of_nat INPUT_BUF_SIZE then
        (let c' = if c = 13 then 10 else c in
         Option.bind (cons_putc lsr (ucast c') u) (\<lambda>u'.
           let s' = cons_store c' s in
           if c' = 10 \<or> c' = 4 \<or> cons_e s' - cons_r s' = of_nat INPUT_BUF_SIZE
           then Some (True, s'\<lparr>cons_w := cons_e s'\<rparr>, u') else Some (False, s', u')))
      else Some (False, s, u))"

text \<open>
  \<open>uart::intr\<close>: drain the receiver into the console, then restart the transmitter.  The
  receiver may never run dry, so not returning is \<open>None\<close>.
\<close>

partial_function (option) uart_drain ::
    "(nat \<Rightarrow> u8) \<Rightarrow> (nat \<Rightarrow> u8) \<Rightarrow> cons \<Rightarrow> uart \<Rightarrow> (cons \<times> uart) option" where
  "uart_drain lsr rhr s u =
     (case getc lsr rhr u of
        (None, u1) \<Rightarrow> Some (s, u1)
      | (Some c, u1) \<Rightarrow> Option.bind (cons_intr lsr c s u1) (\<lambda>(_, s', u'). uart_drain lsr rhr s' u'))"

definition uart_intr :: "(nat \<Rightarrow> u8) \<Rightarrow> (nat \<Rightarrow> u8) \<Rightarrow> cons \<Rightarrow> uart \<Rightarrow> (cons \<times> uart) option" where
  "uart_intr lsr rhr s u =
     Option.bind (uart_drain lsr rhr s u) (\<lambda>(s', u'). Some (s', snd (start lsr u')))"

section \<open>The line editor\<close>

definition committed :: "cons \<Rightarrow> bytes" where
  "committed s = ring_items (cons_buf s) (cons_r s) (cons_w s)"

definition editing :: "cons \<Rightarrow> bytes" where
  "editing s = ring_items (cons_buf s) (cons_w s) (cons_e s)"

definition cons_inv :: "cons \<Rightarrow> bool" where
  "cons_inv s \<longleftrightarrow> length (cons_buf s) = INPUT_BUF_SIZE \<and> unat (cons_e s - cons_r s) \<le> INPUT_BUF_SIZE
     \<and> unat (cons_w s - cons_r s) \<le> unat (cons_e s - cons_r s) \<and> 10 \<notin> set (editing s)"

text \<open>
  The contract: a console is a list of committed bytes and the line being edited.
\<close>

definition edit_spec :: "u8 \<Rightarrow> bytes \<times> bytes \<Rightarrow> bytes \<times> bytes" where
  "edit_spec c = (\<lambda>(com, ed).
     if c = 21 then (com, [])
     else if c = 8 \<or> c = 127 then (com, butlast ed)
     else if c \<noteq> 0 \<and> length com + length ed < INPUT_BUF_SIZE then
       (let c' = if c = 13 then 10 else c; ed' = ed @ [c'] in
        if c' = 10 \<or> c' = 4 \<or> length com + length ed' = INPUT_BUF_SIZE
        then (com @ ed', []) else (com, ed'))
     else (com, ed))"

definition echo_spec :: "u8 \<Rightarrow> bytes \<times> bytes \<Rightarrow> bytes" where
  "echo_spec c = (\<lambda>(com, ed).
     if c = 21 then concat (replicate (length ed) [8, 32, 8])
     else if c = 8 \<or> c = 127 then (if ed = [] then [] else [8, 32, 8])
     else if c \<noteq> 0 \<and> length com + length ed < INPUT_BUF_SIZE
     then [if c = 13 then 10 else c] else [])"

definition cons_abs :: "cons \<Rightarrow> bytes \<times> bytes" where
  "cons_abs s = (committed s, editing s)"

definition tx_responsive :: "(nat \<Rightarrow> u8) \<Rightarrow> bool" where
  "tx_responsive lsr \<longleftrightarrow> (\<forall>k. \<exists>j. lsr (k + j) AND LSR_TX_IDLE \<noteq> 0)"

lemma cons_putc_returns:
  assumes "tx_responsive lsr"
  shows "\<exists>u'. cons_putc lsr c u = Some u' \<and> transmitted u' = transmitted u @ echo_bytes c
    \<and> tx_items u' = tx_items u"
proof -
  have "\<exists>u'. fold (\<lambda>b m. Option.bind m (kputc lsr b)) bs (Some u) = Some u'
    \<and> transmitted u' = transmitted u @ bs \<and> tx_items u' = tx_items u" for bs
  proof (induction bs arbitrary: u)
    case Nil
    then show ?case by simp
  next
    case (Cons b bs)
    obtain j where "lsr (lsr_reads u + j) AND LSR_TX_IDLE \<noteq> 0"
      using assms by (auto simp: tx_responsive_def)
    from kputc_returns [of lsr u j, OF this, of b] obtain u1 where
      "kputc lsr b u = Some u1" "transmitted u1 = transmitted u @ [b]" "tx_items u1 = tx_items u"
      by blast
    then show ?case using Cons.IH [of u1] by auto
  qed
  then show ?thesis by (simp add: cons_putc_def)
qed

lemma cons_ring_ok: "cons_inv s \<Longrightarrow> ring_ok (cons_buf s) (cons_r s) (cons_e s)"
proof -
  have "(128 :: nat) dvd 2 ^ 32" by simp
  then show "cons_inv s \<Longrightarrow> ?thesis" by (auto simp: cons_inv_def ring_ok_def INPUT_BUF_SIZE_def)
qed

lemma cons_counts:
  assumes "cons_inv s"
  shows "unat (cons_e s - cons_r s) = length (committed s) + length (editing s)"
  using assms ring_split_count [of "cons_w s" "cons_r s" "cons_e s"]
  by (simp add: cons_inv_def committed_def editing_def)

lemma cons_erase:
  assumes "cons_inv s" and "cons_e s \<noteq> cons_w s"
  defines "t \<equiv> s\<lparr>cons_e := cons_e s - 1\<rparr>"
  shows "editing s = editing t @ [cons_buf s ! (unat (cons_e s - 1) mod INPUT_BUF_SIZE)]"
    and "committed t = committed s" and "cons_inv t"
proof -
  have len: "length (cons_buf s) = INPUT_BUF_SIZE" using assms(1) by (simp add: cons_inv_def)
  show ed: "editing s = editing t @ [cons_buf s ! (unat (cons_e s - 1) mod INPUT_BUF_SIZE)]"
    using ring_unput [of "cons_w s" "cons_e s" "cons_buf s"] assms(2) len
    by (simp add: editing_def t_def)
  show "committed t = committed s" by (simp add: committed_def t_def)
  have ne: "unat (cons_w s - cons_r s) < unat (cons_e s - cons_r s)"
    using assms(1,2) by (auto simp: cons_inv_def order.strict_iff_order simp flip: word_unat_eq_iff)
  then have "cons_e s - cons_r s \<noteq> 0" by (metis less_nat_zero_code unat_0)
  moreover have "cons_e s - cons_r s - 1 = cons_e s - 1 - cons_r s" by (rule diff_right_commute)
  ultimately have "unat (cons_e s - 1 - cons_r s) = unat (cons_e s - cons_r s) - 1"
    by (metis unat_minus_one)
  then show "cons_inv t"
    using assms(1) ed ne by (auto simp: cons_inv_def t_def)
qed

lemma kill_line_spec:
  assumes "tx_responsive lsr" and "cons_inv s"
  shows "\<exists>s' u'. kill_line lsr s u = Some (s', u') \<and> cons_inv s' \<and> cons_abs s' = (committed s, [])
    \<and> transmitted u' = transmitted u @ concat (replicate (length (editing s)) [8, 32, 8])"
  using assms
proof (induction "length (editing s)" arbitrary: s u)
  case 0
  then have "editing s = []" by simp
  then have "cons_e s = cons_w s" using ring_empty_iff by (metis editing_def)
  then show ?case using 0 by (subst kill_line.simps) (simp add: cons_abs_def)
next
  case (Suc n)
  let ?t = "s\<lparr>cons_e := cons_e s - 1\<rparr>"
  have ne: "cons_e s \<noteq> cons_w s" using Suc.hyps(2) by (auto simp: editing_def)
  note er = cons_erase [OF Suc.prems(2) ne]
  have "cons_buf s ! (unat (cons_e s - 1) mod INPUT_BUF_SIZE) \<noteq> 10"
    using Suc.prems(2) er(1) by (auto simp: cons_inv_def)
  moreover obtain u1 where "cons_putc lsr BACKSPACE u = Some u1"
      "transmitted u1 = transmitted u @ [8, 32, 8]"
    using cons_putc_returns [OF Suc.prems(1), of BACKSPACE u] by (auto simp: echo_bytes_def)
  moreover have "length (editing s) = Suc (length (editing ?t))" using er(1) by simp
  ultimately show ?case
    using Suc.hyps(1) [of ?t u1] Suc.hyps(2) Suc.prems(1) er ne
    by (subst kill_line.simps) auto
qed

lemma cons_store_spec:
  assumes "cons_inv s" and "length (committed s) + length (editing s) < INPUT_BUF_SIZE"
  shows "committed (cons_store c s) = committed s"
    and "editing (cons_store c s) = editing s @ [c]"
    and "committed ((cons_store c s)\<lparr>cons_w := cons_e (cons_store c s)\<rparr>) = committed s @ editing s @ [c]"
    and "unat (cons_e s + 1 - cons_r s) = Suc (length (committed s) + length (editing s))"
proof -
  note ok = cons_ring_ok [OF assms(1)] and cnt = cons_counts [OF assms(1)]
  have room: "unat (cons_e s - cons_r s) < length (cons_buf s)"
    using assms cnt by (simp add: cons_inv_def)
  have le: "unat (cons_w s - cons_r s) \<le> unat (cons_e s - cons_r s)"
    and len: "INPUT_BUF_SIZE = length (cons_buf s)"
    using assms(1) by (simp_all add: cons_inv_def)
  show "committed (cons_store c s) = committed s" "editing (cons_store c s) = editing s @ [c]"
    using ring_put_split [OF ok room le] by (simp_all add: committed_def editing_def cons_store_def len)
  show "unat (cons_e s + 1 - cons_r s) = Suc (length (committed s) + length (editing s))"
    using ring_put_count [OF ok room] cnt by simp
  show "committed ((cons_store c s)\<lparr>cons_w := cons_e (cons_store c s)\<rparr>) = committed s @ editing s @ [c]"
    using ring_put_items [OF ok room, of c] ring_split [OF le, of "cons_buf s"]
    by (simp add: committed_def editing_def cons_store_def len)
qed

lemma cons_intr_store:
  assumes "tx_responsive lsr" and "cons_inv s" and "c \<noteq> 0" "c \<noteq> 21" "c \<noteq> 8" "c \<noteq> 127"
    and room: "length (committed s) + length (editing s) < INPUT_BUF_SIZE"
  shows "\<exists>woken s' u'. cons_intr lsr c s u = Some (woken, s', u') \<and> cons_inv s'
    \<and> cons_abs s' = edit_spec c (cons_abs s)
    \<and> transmitted u' = transmitted u @ echo_spec c (cons_abs s)
    \<and> (woken \<longleftrightarrow> length (committed s') > length (committed s))"
proof -
  define c' where "c' = (if c = 13 then 10 else c)"
  let ?s = "cons_store c' s"
  let ?t = "?s\<lparr>cons_w := cons_e ?s\<rparr>"
  note st = cons_store_spec(1-3) [OF assms(2) room, of c'] cons_store_spec(4) [OF assms(2) room]
  have small: "cons_e s - cons_r s < of_nat INPUT_BUF_SIZE"
    using room cons_counts [OF assms(2)] by (simp add: word_less_nat_alt INPUT_BUF_SIZE_def)
  have full: "cons_e ?s - cons_r ?s = of_nat INPUT_BUF_SIZE
      \<longleftrightarrow> Suc (length (committed s) + length (editing s)) = INPUT_BUF_SIZE"
    using st(4) by (simp add: cons_store_def INPUT_BUF_SIZE_def word_unat_eq_iff)
  obtain u1 where u1: "cons_putc lsr (ucast c') u = Some u1"
      "transmitted u1 = transmitted u @ echo_bytes (ucast c')"
    using cons_putc_returns [OF assms(1)] by blast
  have echo: "echo_bytes (ucast c') = [c']"
  proof -
    have "(ucast c' :: u32) < 256" using unat_lt [of c'] by (simp add: word_less_nat_alt unat_ucast_up)
    then show ?thesis by (auto simp: echo_bytes_def BACKSPACE_def ucast_down_up)
  qed
  have len: "length (cons_buf ?s) = INPUT_BUF_SIZE"
    using assms(2) by (simp add: cons_inv_def cons_store_def)
  have t: "committed ?t = committed s @ editing s @ [c']" "editing ?t = []"
    using st(3) by (simp_all add: editing_def ring_items_def)
  have "cons_inv ?t" using len st(4) room by (simp add: cons_inv_def t) (simp add: cons_store_def)
  moreover have "cons_inv ?s" if "c' \<noteq> 10"
    using len st that room assms(2) cons_counts [OF assms(2)]
    by (simp add: cons_inv_def) (simp add: cons_store_def)
  ultimately show ?thesis
    using u1 echo full small assms(3-6) room st(1,2) t
    by (auto simp: cons_intr_def edit_spec_def echo_spec_def cons_abs_def Let_def c'_def [symmetric])
qed

text \<open>
  C27: the interrupt handler implements the line editor.  For a transmitter that always
  becomes idle again, \<open>console::intr\<close> returns, keeps the ring's invariant, changes the
  committed bytes and the edited line exactly as \<open>edit_spec\<close> says, echoes \<open>echo_spec\<close> and
  wakes the readers exactly when bytes were committed.
\<close>

theorem cons_intr_refines:
  assumes "tx_responsive lsr" and "cons_inv s"
  shows "\<exists>woken s' u'. cons_intr lsr c s u = Some (woken, s', u') \<and> cons_inv s'
    \<and> cons_abs s' = edit_spec c (cons_abs s)
    \<and> transmitted u' = transmitted u @ echo_spec c (cons_abs s)
    \<and> (woken \<longleftrightarrow> length (committed s') > length (committed s))"
proof -
  have small: "cons_e s - cons_r s < of_nat INPUT_BUF_SIZE
      \<longleftrightarrow> length (committed s) + length (editing s) < INPUT_BUF_SIZE"
    using cons_counts [OF assms(2)] by (simp add: word_less_nat_alt INPUT_BUF_SIZE_def)
  consider (kill) "c = 21" | (erase) "c = 8 \<or> c = 127" | (store) "c \<noteq> 0" "c \<noteq> 21" "c \<noteq> 8" "c \<noteq> 127"
      "length (committed s) + length (editing s) < INPUT_BUF_SIZE"
    | (ignore) "c \<noteq> 21" "c \<noteq> 8" "c \<noteq> 127"
      "c = 0 \<or> \<not> length (committed s) + length (editing s) < INPUT_BUF_SIZE" by blast
  then show ?thesis
  proof cases
    case kill
    then show ?thesis using kill_line_spec [OF assms, of u]
      by (auto simp: cons_intr_def edit_spec_def echo_spec_def cons_abs_def)
  next
    case erase
    then show ?thesis
      using assms(2) cons_putc_returns [OF assms(1), of BACKSPACE u] cons_erase [OF assms(2)]
      by (cases "cons_e s = cons_w s")
        (auto simp: cons_intr_def edit_spec_def echo_spec_def cons_abs_def echo_bytes_def editing_def
          butlast_append)
  next
    case store
    then show ?thesis using cons_intr_store [OF assms, of c u] by blast
  next
    case ignore
    then show ?thesis using assms(2) small
      by (auto simp: cons_intr_def edit_spec_def echo_spec_def cons_abs_def)
  qed
qed

lemma cons_boot_inv: "cons_inv cons_boot"
  by (simp add: cons_inv_def cons_boot_def editing_def INPUT_BUF_SIZE_def)

theorem cons_intr_refines_witness:
  "\<exists>woken s' u'. cons_intr (\<lambda>_. 32) 13 cons_boot uart_boot = Some (woken, s', u')
     \<and> cons_abs s' = ([10], []) \<and> transmitted u' = [10] \<and> woken"
proof -
  have "tx_responsive (\<lambda>_. 32)" by (simp add: tx_responsive_def LSR_TX_IDLE_def)
  moreover have "cons_abs cons_boot = ([], [])"
    by (simp add: cons_abs_def committed_def editing_def cons_boot_def)
  ultimately show ?thesis
    using cons_intr_refines [OF _ cons_boot_inv, of "\<lambda>_. 32" 13 uart_boot]
    by (auto simp: edit_spec_def echo_spec_def INPUT_BUF_SIZE_def transmitted_def uart_boot_def
        cons_abs_def)
qed

section \<open>Reading a line\<close>

text \<open>
  What \<open>read\<close> of \<open>n\<close> more bytes delivers from the committed bytes \<open>com\<close>: up to and including a
  newline, up to and excluding a control-D; and what it leaves, where a control-D after some
  delivered bytes (\<open>got\<close>) stays for the next call.
\<close>

fun line_ready :: "nat \<Rightarrow> bytes \<Rightarrow> bool" where
  "line_ready 0 com = True"
| "line_ready (Suc n) [] = False"
| "line_ready (Suc n) (c # com) = (c = 4 \<or> c = 10 \<or> line_ready n com)"

fun line_taken :: "nat \<Rightarrow> bytes \<Rightarrow> bytes" where
  "line_taken 0 com = []"
| "line_taken (Suc n) [] = []"
| "line_taken (Suc n) (c # com) =
     (if c = 4 then [] else if c = 10 then [10] else c # line_taken n com)"

fun line_left :: "bool \<Rightarrow> nat \<Rightarrow> bytes \<Rightarrow> bytes" where
  "line_left got 0 com = com"
| "line_left got (Suc n) [] = []"
| "line_left got (Suc n) (c # com) =
     (if c = 4 then (if got then c # com else com)
      else if c = 10 then com else line_left True n com)"

definition addressed :: "u64 \<Rightarrow> bytes \<Rightarrow> (u64 \<times> u8) list" where
  "addressed dst cs = map (\<lambda>i. (dst + of_nat i, cs ! i)) [0..<length cs]"

lemma addressed_Cons: "addressed dst (c # cs) = (dst, c) # addressed (dst + 1) cs"
  by (auto simp: addressed_def map_upt_Suc ac_simps simp del: upt_Suc)

lemma cons_take_spec:
  assumes "cons_inv s" and "cons_r s \<noteq> cons_w s" and "cons_take s = (c, t)"
  shows "committed s = c # committed t" and "editing t = editing s" and "cons_inv t"
    and "cons_w t = cons_w s" and "t\<lparr>cons_r := cons_r t - 1\<rparr> = s"
proof -
  have len: "length (cons_buf s) = INPUT_BUF_SIZE" using assms(1) by (simp add: cons_inv_def)
  show "committed s = c # committed t"
    using assms(3) ring_get_items [OF assms(2), of "cons_buf s"] len
    by (auto simp: committed_def cons_take_def)
  show "editing t = editing s" "cons_w t = cons_w s" "t\<lparr>cons_r := cons_r t - 1\<rparr> = s"
    using assms(3) by (auto simp: editing_def cons_take_def)
  have "cons_r s \<noteq> cons_e s"
    using assms(1,2) by (auto simp: cons_inv_def unsigned_eq_0_iff)
  then show "cons_inv t"
    using assms ring_get_count [of "cons_r s" "cons_w s"] ring_get_count [of "cons_r s" "cons_e s"]
    by (auto simp: cons_inv_def cons_take_def editing_def)
qed

lemma cons_read_spec:
  assumes "cons_inv s" and "line_ready n (committed s)" and "n \<le> target"
  shows "\<exists>s'. cons_read cout killed target dst n s =
      (RReturns (int target - int n + int (length (line_taken n (committed s)))),
       addressed dst (line_taken n (committed s)), s') \<and> cons_inv s'
    \<and> committed s' = line_left (n < target) n (committed s) \<and> editing s' = editing s"
  using assms
proof (induction n arbitrary: dst s)
  case 0
  then show ?case by (simp add: addressed_def)
next
  case (Suc n)
  have ne: "cons_r s \<noteq> cons_w s"
    using Suc.prems(2) by (auto simp: committed_def)
  obtain c t where t: "cons_take s = (c, t)" by (cases "cons_take s")
  note tk = cons_take_spec [OF Suc.prems(1) ne t]
  show ?case
  proof (cases "c = 4 \<or> c = 10")
    case True
    let ?s = "if c = 4 \<and> Suc n < target then s else t"
    have "cons_read cout killed target dst (Suc n) s =
        (RReturns (int target - int (Suc n) + int (length (line_taken (Suc n) (committed s)))),
         addressed dst (line_taken (Suc n) (committed s)), ?s)"
      using True ne t tk(1,5) by (auto simp: addressed_def)
    moreover have "committed ?s = line_left (Suc n < target) (Suc n) (committed s)"
      using True tk(1) by auto
    ultimately show ?thesis using Suc.prems(1) tk(2,3) by auto
  next
    case False
    have "line_ready n (committed t)" using Suc.prems(2) tk(1) False by simp
    then show ?thesis
      using Suc.IH [OF tk(3), of "dst + 1"] Suc.prems(3) ne t tk(1,2) False
      by (clarsimp simp: addressed_Cons)
  qed
qed

text \<open>
  C28: when a whole line, a control-D or the requested number of bytes is committed, \<open>read\<close>
  returns without sleeping the number of bytes it delivers, hands them to the user in order
  and once, leaves the rest of the input in place and does not touch the edited line; a
  failing copy to the user is not noticed.
\<close>

theorem cons_read_line:
  assumes "cons_inv s" and "line_ready n (committed s)"
  shows "\<exists>s'. cons_read cout killed n dst n s =
      (RReturns (int (length (line_taken n (committed s)))),
       addressed dst (line_taken n (committed s)), s')
    \<and> cons_inv s' \<and> cons_abs s' = (line_left False n (committed s), editing s)"
  using cons_read_spec [OF assms, of n cout killed dst] by (auto simp: cons_abs_def)

theorem cons_read_line_witness:
  "\<exists>s'. cons_read (\<lambda>_. True) False 5 0x1000 5
      ((cons_store 10 (cons_store 65 cons_boot))\<lparr>cons_w := 2\<rparr>)
    = (RReturns 2, [(0x1000, 65), (0x1001, 10)], s') \<and> cons_abs s' = ([], [])"
proof -
  let ?s = "(cons_store 10 (cons_store 65 cons_boot))\<lparr>cons_w := 2\<rparr>"
  have com: "committed ?s = [65, 10]" "editing ?s = []"
    by (simp_all add: committed_def editing_def cons_store_def cons_boot_def ring_items_def
        INPUT_BUF_SIZE_def upt_rec)
  then have "cons_inv ?s"
    by (simp add: cons_inv_def) (simp add: cons_store_def cons_boot_def INPUT_BUF_SIZE_def)
  moreover have "line_ready 5 [65, 10]" "line_taken 5 [65, 10] = [65, 10]"
    "line_left False 5 [65, 10] = []" by code_simp+
  ultimately show ?thesis
    using cons_read_line [of ?s 5 "\<lambda>_. True" False "0x1000"] com by (auto simp: addressed_def)
qed

section \<open>Writing\<close>

text \<open>
  C29: \<open>write\<close> transmits the user's bytes exactly once and in order: whatever it hands over
  before it returns or sleeps inside \<open>putc\<close> is appended to the bytes transmitted or queued,
  and it stops early only at an unreadable user address.
\<close>

theorem cons_write_in_order:
  assumes "cons_write lsr cin src i rest u = (out, u')" and "tx_inv u"
  shows "\<exists>k \<le> rest. tx_inv u' \<and> (out = Inr (i + k) \<or> out = Inl (i + k))
    \<and> (out = Inr (i + k) \<longrightarrow> k = rest \<or> cin (src + of_nat (i + k)) = None)
    \<and> handed u' = handed u @ map (\<lambda>j. the (cin (src + of_nat j))) [i..<i + k]"
  using assms
proof (induction rest arbitrary: i u)
  case 0
  then show ?case by auto
next
  case (Suc rest)
  show ?case
  proof (cases "\<exists>c w u1. cin (src + of_nat i) = Some c \<and> putc lsr c u = Inr (w, u1)")
    case True
    then obtain c w u1 where c: "cin (src + of_nat i) = Some c" and p: "putc lsr c u = Inr (w, u1)"
      by blast
    note ps = putc_spec [OF p Suc.prems(2)]
    have "cons_write lsr cin src (Suc i) rest u1 = (out, u')" using Suc.prems(1) c p by simp
    from Suc.IH [OF this] ps obtain k where k: "k \<le> rest" "tx_inv u'"
      "out = Inr (Suc i + k) \<or> out = Inl (Suc i + k)"
      "out = Inr (Suc i + k) \<longrightarrow> k = rest \<or> cin (src + of_nat (Suc i + k)) = None"
      "handed u' = handed u1 @ map (\<lambda>j. the (cin (src + of_nat j))) [Suc i..<Suc i + k]"
      by blast
    moreover have "map (\<lambda>j. the (cin (src + of_nat j))) [i..<i + Suc k]
        = c # map (\<lambda>j. the (cin (src + of_nat j))) [Suc i..<Suc i + k]"
      using c by (subst upt_conv_Cons) (simp_all del: upt_Suc)
    ultimately show ?thesis using ps by (intro exI [of _ "Suc k"]) (simp del: upt_Suc)
  next
    case False
    then show ?thesis using Suc.prems
      by (intro exI [of _ 0]) (auto split: option.splits sum.splits)
  qed
qed

lemma uart_boot_inv: "tx_inv uart_boot" "handed uart_boot = []"
  by (simp_all add: handed_def tx_inv_def uart_boot_def UART_TX_BUF_SIZE_def tx_items_def transmitted_def)

theorem cons_write_in_order_witness:
  "\<exists>out u'. cons_write (\<lambda>k. if k = 0 then 32 else 0) (\<lambda>a. Some (ucast a)) 65 0 3 uart_boot = (out, u')
     \<and> out = Inr 3 \<and> handed u' = [65, 66, 67]"
proof -
  let ?lsr = "\<lambda>k. if k = 0 then 32 else (0 :: u8)" and ?cin = "\<lambda>a :: u64. Some (ucast a :: u8)"
  obtain out u' where r: "cons_write ?lsr ?cin 65 0 3 uart_boot = (out, u')"
    by (cases "cons_write ?lsr ?cin 65 0 3 uart_boot")
  moreover have "fst (cons_write ?lsr ?cin 65 0 3 uart_boot) = Inr 3" by code_simp
  ultimately show ?thesis
    using cons_write_in_order [OF r uart_boot_inv(1)] by (fastforce simp: uart_boot_inv upt_rec)
qed

end
