(* ===== verification/Lock.thy ===== *)
theory Lock
  imports Prelude
begin

text \<open>
  \<open>kernel/lock.cpp\<close>: spin locks and sleep locks.  A spin lock is modelled at the granularity
  of its memory accesses: any number of CPUs interleave the steps of \<open>acquire\<close> and
  \<open>release\<close>, where \<open>__sync_lock_test_and_set\<close> and \<open>__sync_lock_release\<close> are atomic.  A sleep
  lock is modelled at the granularity of the critical sections of its spin lock \<open>lk\<close>, which
  the spin-lock theorem justifies; the other theories treat critical sections of spin
  locks in the same way, as single steps.
\<close>

section \<open>The contract of a lock\<close>

text \<open>A transition system with an inductive invariant that admits one holder at a time.\<close>

locale mutex_system =
  fixes start :: 's and step :: "'s \<Rightarrow> 's \<Rightarrow> bool" and inside :: "'s \<Rightarrow> 'i \<Rightarrow> bool"
    and invar :: "'s \<Rightarrow> bool"
  assumes start_invar: "invar start"
    and step_invar: "invar s \<Longrightarrow> step s t \<Longrightarrow> invar t"
    and exclusive: "invar s \<Longrightarrow> inside s i \<Longrightarrow> inside s j \<Longrightarrow> i = j"
begin

lemma reach_invar: "step\<^sup>*\<^sup>* start s \<Longrightarrow> invar s"
  by (induction rule: rtranclp_induct) (auto intro: start_invar step_invar)

lemma mutual_exclusion: "step\<^sup>*\<^sup>* start s \<Longrightarrow> inside s i \<Longrightarrow> inside s j \<Longrightarrow> i = j"
  by (blast dest: reach_invar intro: exclusive)

end

section \<open>Interrupt nesting\<close>

text \<open>The fields of \<open>proc::cpu\<close> used here, and the interrupt-enable bit of \<open>sstatus\<close>.\<close>

record cpu =
  noff :: u32
  intena :: bool
  sie :: bool

definition push_off :: "cpu \<Rightarrow> cpu" where
  "push_off c = c\<lparr>sie := False, intena := (if noff c = 0 then sie c else intena c), noff := noff c + 1\<rparr>"

definition pop_off :: "cpu \<Rightarrow> fault + cpu" where
  "pop_off c =
     (if sie c then Inl (Panic ''pop_off - interruptible'')
      else if noff c < 1 then Inl (Panic ''pop_off'')
      else let c' = c\<lparr>noff := noff c - 1\<rparr> in
        Inr (if noff c' = 0 \<and> intena c' then c'\<lparr>sie := True\<rparr> else c'))"

section \<open>Spin locks\<close>

record spinlock =
  locked :: bool
  owner :: "nat option"

definition holding :: "nat \<Rightarrow> spinlock \<Rightarrow> bool" where
  "holding i l \<longleftrightarrow> locked l \<and> owner l = Some i"

text \<open>Where a CPU is in \<open>acquire\<close> and \<open>release\<close>, or outside of both.\<close>

datatype pc = Outside | Spinning | Won | Critical | Disowned | Unlocked | Panicked string

record spin_sys =
  lk :: spinlock
  cpus :: "nat \<Rightarrow> cpu"
  pcs :: "nat \<Rightarrow> pc"

definition spin_start :: spin_sys where
  "spin_start = \<lparr>lk = \<lparr>locked = False, owner = None\<rparr>,
     cpus = (\<lambda>_. \<lparr>noff = 0, intena = False, sie = True\<rparr>), pcs = (\<lambda>_. Outside)\<rparr>"

text \<open>\<open>acquire\<close> up to its loop, one turn of the loop, and the assignment after it.\<close>

definition acquire_enter :: "nat \<Rightarrow> spin_sys \<Rightarrow> spin_sys" where
  "acquire_enter i s =
     (let s1 = s\<lparr>cpus := (cpus s)(i := push_off (cpus s i))\<rparr> in
      if holding i (lk s1)
      then s1\<lparr>pcs := (pcs s1)(i := Panicked ''lock::acquire: already holding the lock'')\<rparr>
      else s1\<lparr>pcs := (pcs s1)(i := Spinning)\<rparr>)"

definition test_and_set :: "nat \<Rightarrow> spin_sys \<Rightarrow> spin_sys" where
  "test_and_set i s =
     (let old = locked (lk s); s1 = s\<lparr>lk := (lk s)\<lparr>locked := True\<rparr>\<rparr> in
      if old then s1 else s1\<lparr>pcs := (pcs s1)(i := Won)\<rparr>)"

definition acquire_own :: "nat \<Rightarrow> spin_sys \<Rightarrow> spin_sys" where
  "acquire_own i s = s\<lparr>lk := (lk s)\<lparr>owner := Some i\<rparr>, pcs := (pcs s)(i := Critical)\<rparr>"

text \<open>\<open>release\<close> up to \<open>cpu = nullptr\<close>, the atomic release, and \<open>pop_off\<close>.\<close>

definition release_enter :: "nat \<Rightarrow> spin_sys \<Rightarrow> spin_sys" where
  "release_enter i s =
     (if \<not> holding i (lk s) then s\<lparr>pcs := (pcs s)(i := Panicked ''lock::release: no lock'')\<rparr>
      else s\<lparr>lk := (lk s)\<lparr>owner := None\<rparr>, pcs := (pcs s)(i := Disowned)\<rparr>)"

definition release_unlock :: "nat \<Rightarrow> spin_sys \<Rightarrow> spin_sys" where
  "release_unlock i s = s\<lparr>lk := (lk s)\<lparr>locked := False\<rparr>, pcs := (pcs s)(i := Unlocked)\<rparr>"

definition release_pop :: "nat \<Rightarrow> spin_sys \<Rightarrow> spin_sys" where
  "release_pop i s = (case pop_off (cpus s i) of
       Inl (Panic m) \<Rightarrow> s\<lparr>pcs := (pcs s)(i := Panicked m)\<rparr>
     | Inl _ \<Rightarrow> s
     | Inr c \<Rightarrow> s\<lparr>cpus := (cpus s)(i := c), pcs := (pcs s)(i := Outside)\<rparr>)"

text \<open>
  The interleavings.  A CPU enters \<open>acquire\<close> from outside and \<open>release\<close> from the critical
  section; with \<open>misuse\<close> it may also acquire a lock it holds or release one it does not
  hold.  Outside, it may nest other critical sections (\<open>push_off\<close>, and \<open>pop_off\<close> when
  something is pushed) and enable interrupts when none is pushed.  The nesting depth is
  kept below the wrap-around of the 32-bit \<open>noff\<close>.
\<close>

inductive spin_step :: "bool \<Rightarrow> spin_sys \<Rightarrow> spin_sys \<Rightarrow> bool" for misuse where
  enter: "pcs s i = Outside \<Longrightarrow> noff (cpus s i) < - 2 \<Longrightarrow> spin_step misuse s (acquire_enter i s)"
| spin: "pcs s i = Spinning \<Longrightarrow> spin_step misuse s (test_and_set i s)"
| own: "pcs s i = Won \<Longrightarrow> spin_step misuse s (acquire_own i s)"
| leave: "pcs s i = Critical \<Longrightarrow> spin_step misuse s (release_enter i s)"
| unlock: "pcs s i = Disowned \<Longrightarrow> spin_step misuse s (release_unlock i s)"
| pop: "pcs s i = Unlocked \<Longrightarrow> spin_step misuse s (release_pop i s)"
| again: "misuse \<Longrightarrow> pcs s i = Critical \<Longrightarrow> noff (cpus s i) < - 1
    \<Longrightarrow> spin_step misuse s (acquire_enter i s)"
| leave_free: "misuse \<Longrightarrow> pcs s i = Outside \<Longrightarrow> spin_step misuse s (release_enter i s)"
| nest: "pcs s i = Outside \<Longrightarrow> noff (cpus s i) < - 2
    \<Longrightarrow> spin_step misuse s (s\<lparr>cpus := (cpus s)(i := push_off (cpus s i))\<rparr>)"
| unnest: "pcs s i = Outside \<Longrightarrow> 0 < noff (cpus s i) \<Longrightarrow> pop_off (cpus s i) = Inr c
    \<Longrightarrow> spin_step misuse s (s\<lparr>cpus := (cpus s)(i := c)\<rparr>)"
| toggle: "pcs s i = Outside \<Longrightarrow> noff (cpus s i) = 0
    \<Longrightarrow> spin_step misuse s (s\<lparr>cpus := (cpus s)(i := (cpus s i)\<lparr>sie := b\<rparr>)\<rparr>)"

section \<open>Sleep locks\<close>

record sleeplock =
  slocked :: bool
  spid :: u32

text \<open>One critical section of \<open>lk\<close> in each operation; \<open>None\<close> is a \<open>proc::sleep\<close>.\<close>

definition sleep_acquire :: "u32 \<Rightarrow> sleeplock \<Rightarrow> sleeplock option" where
  "sleep_acquire p l = (if slocked l then None else Some (l\<lparr>slocked := True, spid := p\<rparr>))"

definition sleep_release :: "sleeplock \<Rightarrow> sleeplock" where
  "sleep_release l = l\<lparr>slocked := False, spid := 0\<rparr>"

definition sleep_holding :: "u32 \<Rightarrow> sleeplock \<Rightarrow> bool" where
  "sleep_holding p l \<longleftrightarrow> slocked l \<and> spid l = p"

datatype spc = SOut | SWant | SAsleep | SHolds

record sleep_sys =
  slk :: sleeplock
  spcs :: "u32 \<Rightarrow> spc"

definition sleep_start :: sleep_sys where
  "sleep_start = \<lparr>slk = \<lparr>slocked = False, spid = 0\<rparr>, spcs = (\<lambda>_. SOut)\<rparr>"

text \<open>\<open>proc::wakeup(this)\<close> makes every sleeper on the lock try again.\<close>

definition wake_all :: "(u32 \<Rightarrow> spc) \<Rightarrow> u32 \<Rightarrow> spc" where
  "wake_all ps = (\<lambda>p. if ps p = SAsleep then SWant else ps p)"

inductive sleep_step :: "sleep_sys \<Rightarrow> sleep_sys \<Rightarrow> bool" where
  want: "spcs s p = SOut \<Longrightarrow> sleep_step s (s\<lparr>spcs := (spcs s)(p := SWant)\<rparr>)"
| got: "spcs s p = SWant \<Longrightarrow> sleep_acquire p (slk s) = Some l
    \<Longrightarrow> sleep_step s (s\<lparr>slk := l, spcs := (spcs s)(p := SHolds)\<rparr>)"
| sleep: "spcs s p = SWant \<Longrightarrow> sleep_acquire p (slk s) = None
    \<Longrightarrow> sleep_step s (s\<lparr>spcs := (spcs s)(p := SAsleep)\<rparr>)"
| release: "spcs s p = SHolds
    \<Longrightarrow> sleep_step s (s\<lparr>slk := sleep_release (slk s), spcs := (wake_all (spcs s))(p := SOut)\<rparr>)"
| kill: "spcs s p = SAsleep \<Longrightarrow> sleep_step s (s\<lparr>spcs := (spcs s)(p := SWant)\<rparr>)"

section \<open>Interrupts nest\<close>

definition cpu_ok :: "cpu \<Rightarrow> bool" where
  "cpu_ok c \<longleftrightarrow> (0 < noff c \<longrightarrow> \<not> sie c)"

lemma push_off_ok: "cpu_ok c \<Longrightarrow> noff c < - 1 \<Longrightarrow> cpu_ok (push_off c) \<and> 0 < noff (push_off c)"
  by (auto simp: cpu_ok_def push_off_def word_gt_0 add_eq_0_iff2)

lemma pop_off_ok: "cpu_ok c \<Longrightarrow> 0 < noff c \<Longrightarrow> \<exists>c'. pop_off c = Inr c' \<and> cpu_ok c'"
  by (auto simp: cpu_ok_def pop_off_def Let_def word_gt_0 word_less_1)

text \<open>The matching calls of \<open>pop_off\<close>, up to the first that panics.\<close>

fun pop_offs :: "nat \<Rightarrow> cpu \<Rightarrow> fault + cpu" where
  "pop_offs 0 c = Inr c"
| "pop_offs (Suc m) c = (case pop_off c of Inl e \<Rightarrow> Inl e | Inr c' \<Rightarrow> pop_offs m c')"

text \<open>The state \<open>d\<close> calls deep inside \<open>n\<close> calls of \<open>push_off\<close> made in \<open>c\<close>.\<close>

definition nested :: "cpu \<Rightarrow> nat \<Rightarrow> cpu" where
  "nested c d = c\<lparr>noff := noff c + of_nat d, intena := (if noff c = 0 then sie c else intena c), sie := sie c \<and> d = 0\<rparr>"

lemma noff_nested:
  assumes "unat (noff c) + d < 2 ^ 32"
  shows "noff (nested c d) = 0 \<longleftrightarrow> noff c = 0 \<and> d = 0"
proof -
  have "unat (noff c + of_nat d) = unat (noff c) + d" using assms by (simp add: unat_word_ariths unat_of_nat)
  then show ?thesis by (simp add: nested_def word_unat_eq_iff)
qed

lemma push_off_nested:
  assumes "cpu_ok c" and "unat (noff c) + n < 2 ^ 32" and "0 < n"
  shows "(push_off ^^ n) c = nested c n"
  using assms(2,3)
proof (induction n)
  case (Suc n)
  show ?case
  proof (cases "n = 0")
    case True
    then show ?thesis by (simp add: push_off_def nested_def)
  next
    case False
    then have "(push_off ^^ n) c = nested c n" using Suc by simp
    moreover have "noff (nested c n) \<noteq> 0" using noff_nested [of c n] Suc.prems False by simp
    moreover have "noff (nested c n) + 1 = noff c + of_nat (Suc n)" by (simp add: nested_def)
    ultimately have "(push_off ^^ Suc n) c = (nested c n)\<lparr>sie := False, noff := noff c + of_nat (Suc n)\<rparr>"
      by (simp add: push_off_def)
    then show ?thesis by (simp add: nested_def)
  qed
qed simp

lemma pop_off_nested:
  assumes "cpu_ok c" and "unat (noff c) + Suc d < 2 ^ 32"
  shows "pop_off (nested c (Suc d)) = Inr (nested c d)"
proof -
  have "noff (nested c (Suc d)) \<noteq> 0" using noff_nested [of c "Suc d"] assms(2) by simp
  moreover have "noff c + of_nat d = 0 \<longleftrightarrow> noff c = 0 \<and> d = 0" using noff_nested [of c d] assms(2) by (simp add: nested_def)
  ultimately show ?thesis using assms(1)
    by (auto simp: pop_off_def nested_def Let_def word_less_1 cpu_ok_def word_gt_0)
qed

text \<open>
  C26: \<open>push_off\<close> and \<open>pop_off\<close> nest.  After \<open>n\<close> calls of \<open>push_off\<close> on a hart, whatever its state,
  any \<open>m \<le> n\<close> calls of \<open>pop_off\<close> return without a panic, the depth counts the calls still
  open, interrupts are off as long as one is open, \<open>intena\<close> remembers the enable bit from
  before the outermost call and is not overwritten by an inner one, and the last \<open>pop_off\<close>
  brings that bit back.  The hypotheses: interrupts are off when the hart is already inside a
  \<open>push_off\<close>, and the 32-bit depth does not wrap.
\<close>

theorem push_pop_nest:
  assumes "cpu_ok c" and "unat (noff c) + n < 2 ^ 32" and "0 < n" and "m \<le> n"
  shows "pop_offs m ((push_off ^^ n) c)
    = Inr (c\<lparr>noff := noff c + of_nat (n - m), intena := (if noff c = 0 then sie c else intena c), sie := sie c \<and> m = n\<rparr>)"
proof -
  have "pop_offs m (nested c n) = Inr (nested c (n - m))" using assms(2,4)
  proof (induction m arbitrary: n)
    case (Suc m)
    then obtain d where d: "n = Suc d" by (cases n) auto
    then show ?case using Suc pop_off_nested [OF assms(1), of d] by simp
  qed simp
  moreover have "n - m = 0 \<longleftrightarrow> m = n" using assms(4) by auto
  ultimately show ?thesis unfolding push_off_nested [OF assms(1-3)] by (simp only: nested_def)
qed

theorem push_pop_nest_witness:
  "pop_offs 2 ((push_off ^^ 3) \<lparr>noff = 0, intena = False, sie = True\<rparr>) = Inr \<lparr>noff = 1, intena = True, sie = False\<rparr>
    \<and> pop_offs 3 ((push_off ^^ 3) \<lparr>noff = 0, intena = False, sie = True\<rparr>) = Inr \<lparr>noff = 0, intena = True, sie = True\<rparr>"
  using push_pop_nest [of "\<lparr>noff = 0, intena = False, sie = True\<rparr>" 3 2]
    push_pop_nest [of "\<lparr>noff = 0, intena = False, sie = True\<rparr>" 3 3]
  by (simp add: cpu_ok_def)

section \<open>Mutual exclusion of spin locks\<close>

definition in_cs :: "pc \<Rightarrow> bool" where
  "in_cs q \<longleftrightarrow> q = Won \<or> q = Critical \<or> q = Disowned"

definition masked :: "pc \<Rightarrow> bool" where
  "masked q \<longleftrightarrow> q = Spinning \<or> q = Unlocked \<or> in_cs q"

definition inside :: "spin_sys \<Rightarrow> nat \<Rightarrow> bool" where
  "inside s i \<longleftrightarrow> in_cs (pcs s i)"

definition misuses :: "string set" where
  "misuses = {''lock::acquire: already holding the lock'', ''lock::release: no lock''}"

text \<open>
  The invariant: with \<open>h\<close> the CPU that holds the lock, if any, only \<open>h\<close> is inside, \<open>locked\<close> is
  set while there is a holder, \<open>owner\<close> is the CPU that may release, a CPU in \<open>acquire\<close> or
  \<open>release\<close> has interrupts off, and only misuse panics.  A CPU that panicked while it held
  the lock keeps it.
\<close>

definition held_by :: "nat option \<Rightarrow> spin_sys \<Rightarrow> bool" where
  "held_by h s \<longleftrightarrow> (h \<noteq> None \<longrightarrow> locked (lk s)) \<and> (\<forall>i. in_cs (pcs s i) \<longrightarrow> Some i = h)
     \<and> (\<forall>i. pcs s i = Critical \<longrightarrow> Some i = owner (lk s))
     \<and> (\<forall>i. owner (lk s) = Some i \<longrightarrow> Some i = h \<and> pcs s i \<in> insert Critical (range Panicked))"

definition irq_ok :: "spin_sys \<Rightarrow> bool" where
  "irq_ok s \<longleftrightarrow> (\<forall>i. cpu_ok (cpus s i) \<and> (masked (pcs s i) \<longrightarrow> 0 < noff (cpus s i)))"

definition panics_ok :: "bool \<Rightarrow> spin_sys \<Rightarrow> bool" where
  "panics_ok misuse s \<longleftrightarrow> (\<forall>i m. pcs s i = Panicked m \<longrightarrow> misuse \<and> m \<in> misuses)"

definition spin_inv :: "bool \<Rightarrow> spin_sys \<Rightarrow> bool" where
  "spin_inv misuse s \<longleftrightarrow> (\<exists>h. held_by h s) \<and> irq_ok s \<and> panics_ok misuse s"

lemmas spin_defs = held_by_def irq_ok_def panics_ok_def in_cs_def masked_def

lemma spin_inv_start: "spin_inv misuse spin_start"
  unfolding spin_inv_def by (auto simp: spin_defs spin_start_def cpu_ok_def)

lemma acquire_enter_free:
  assumes "spin_inv misuse s" and "pcs s i = Outside"
  shows "acquire_enter i s
    = s\<lparr>cpus := (cpus s)(i := push_off (cpus s i)), pcs := (pcs s)(i := Spinning)\<rparr>"
proof -
  have "owner (lk s) \<noteq> Some i" using assms by (auto simp: spin_inv_def spin_defs)
  then show ?thesis by (simp add: acquire_enter_def holding_def)
qed

lemma critical_holds: "held_by h s \<Longrightarrow> pcs s i = Critical \<Longrightarrow> holding i (lk s)"
  by (auto simp: held_by_def holding_def)

lemma release_enter_free:
  assumes "held_by h s" and "pcs s i = Outside"
  shows "release_enter i s = s\<lparr>pcs := (pcs s)(i := Panicked ''lock::release: no lock'')\<rparr>"
proof -
  have "owner (lk s) \<noteq> Some i" using assms by (auto simp: spin_defs)
  then show ?thesis by (simp add: release_enter_def holding_def)
qed

lemma release_pop_ok:
  assumes "irq_ok s" and "pcs s i = Unlocked"
  obtains c where "pop_off (cpus s i) = Inr c" and "cpu_ok c"
    and "release_pop i s = s\<lparr>cpus := (cpus s)(i := c), pcs := (pcs s)(i := Outside)\<rparr>"
proof -
  have "cpu_ok (cpus s i)" "0 < noff (cpus s i)" using assms by (auto simp: irq_ok_def masked_def)
  then obtain c where "pop_off (cpus s i) = Inr c" "cpu_ok c" using pop_off_ok by blast
  then show thesis by (intro that [of c]) (simp_all add: release_pop_def)
qed

text \<open>The effect of each step on the holder.\<close>

lemma held_by_steps:
  assumes "held_by h s"
  shows "pcs s i = Outside \<Longrightarrow> held_by h (s\<lparr>cpus := f, pcs := (pcs s)(i := Spinning)\<rparr>)"
    and "pcs s i = Spinning \<Longrightarrow> \<exists>h'. held_by h' (test_and_set i s)"
    and "pcs s i = Won \<Longrightarrow> held_by h (acquire_own i s)"
    and "pcs s i = Critical \<Longrightarrow> held_by h (release_enter i s)"
    and "pcs s i = Disowned \<Longrightarrow> held_by None (release_unlock i s)"
    and "pcs s i = Unlocked \<Longrightarrow> held_by h (s\<lparr>cpus := f, pcs := (pcs s)(i := Outside)\<rparr>)"
    and "pcs s i = Critical \<Longrightarrow> held_by h (s\<lparr>cpus := f, pcs := (pcs s)(i := Panicked m)\<rparr>)"
    and "pcs s i = Outside \<Longrightarrow> held_by h (s\<lparr>pcs := (pcs s)(i := Panicked m)\<rparr>)"
    and "held_by h (s\<lparr>cpus := f\<rparr>)"
proof -
  show "\<exists>h'. held_by h' (test_and_set i s)" if "pcs s i = Spinning"
  proof (cases "locked (lk s)")
    case True
    then have "held_by h (test_and_set i s)" using assms that by (simp add: held_by_def test_and_set_def)
    then show ?thesis ..
  next
    case False
    then have "held_by (Some i) (test_and_set i s)"
      using assms by (auto simp: spin_defs test_and_set_def)
    then show ?thesis ..
  qed
  show "pcs s i = Critical \<Longrightarrow> held_by h (release_enter i s)"
    using assms critical_holds [OF assms, of i] by (auto simp: spin_defs release_enter_def)
  show "held_by None (release_unlock i s)" if d: "pcs s i = Disowned"
  proof -
    have h: "h = Some i" using assms d by (auto simp: held_by_def in_cs_def)
    have "owner (lk s) \<noteq> Some j" for j
    proof
      assume "owner (lk s) = Some j"
      then have "h = Some j" "pcs s j \<in> insert Critical (range Panicked)"
        using assms by (auto simp: held_by_def)
      then show False using h d by auto
    qed
    moreover have "\<not> in_cs (pcs s j)" if "j \<noteq> i" for j using assms h that by (auto simp: held_by_def)
    ultimately show ?thesis
      using assms by (auto simp: held_by_def release_unlock_def in_cs_def)
  qed
qed (use assms in \<open>auto simp: spin_defs acquire_own_def\<close>)

lemma spin_inv_at:
  assumes "spin_inv misuse s" and "\<exists>h. held_by h t"
    and "\<And>j. j \<noteq> i \<Longrightarrow> cpus t j = cpus s j \<and> pcs t j = pcs s j"
    and "cpu_ok (cpus t i)" and "masked (pcs t i) \<Longrightarrow> 0 < noff (cpus t i)"
    and "\<And>m. pcs t i = Panicked m \<Longrightarrow> misuse \<and> m \<in> misuses"
  shows "spin_inv misuse t"
  unfolding spin_inv_def irq_ok_def panics_ok_def
proof (intro conjI allI impI assms(2))
  fix j m
  show "cpu_ok (cpus t j)" using assms by (cases "j = i") (auto simp: spin_inv_def irq_ok_def)
  show "masked (pcs t j) \<Longrightarrow> 0 < noff (cpus t j)"
    using assms by (cases "j = i") (auto simp: spin_inv_def irq_ok_def)
  show "pcs t j = Panicked m \<Longrightarrow> misuse" "pcs t j = Panicked m \<Longrightarrow> m \<in> misuses"
    using assms by (cases "j = i"; auto simp: spin_inv_def panics_ok_def)+
qed

lemma spin_inv_cpu: "spin_inv misuse s \<Longrightarrow> cpu_ok (cpus s i)"
  "spin_inv misuse s \<Longrightarrow> masked (pcs s i) \<Longrightarrow> 0 < noff (cpus s i)"
  unfolding spin_inv_def irq_ok_def by blast+

lemma spin_step_inv:
  assumes "spin_step misuse s t" and "spin_inv misuse s"
  shows "spin_inv misuse t"
  using assms
proof (induction rule: spin_step.induct)
  case (enter s i)
  then obtain h where h: "held_by h s" by (auto simp: spin_inv_def)
  have "noff (cpus s i) < - 1" using enter.hyps(2) by (rule less_le_trans) simp
  then have "cpu_ok (push_off (cpus s i)) \<and> 0 < noff (push_off (cpus s i))"
    using enter.prems by (intro push_off_ok spin_inv_cpu)
  then show ?case unfolding acquire_enter_free [OF enter.prems enter.hyps(1)]
    using enter.prems held_by_steps(1) [OF h enter.hyps(1)]
    by (intro spin_inv_at [where i = i, OF enter.prems]) auto
next
  case (spin s i)
  then obtain h where h: "held_by h s" by (auto simp: spin_inv_def)
  show ?case using spin held_by_steps(2) [OF h spin.hyps] spin_inv_cpu [OF spin.prems, of i]
    by (intro spin_inv_at [where i = i, OF spin.prems]) (auto simp: test_and_set_def Let_def masked_def split: if_splits)
next
  case (own s i)
  then obtain h where h: "held_by h s" by (auto simp: spin_inv_def)
  show ?case using own held_by_steps(3) [OF h own.hyps] spin_inv_cpu [OF own.prems, of i]
    by (intro spin_inv_at [where i = i, OF own.prems]) (auto simp: acquire_own_def masked_def in_cs_def)
next
  case (leave s i)
  then obtain h where h: "held_by h s" by (auto simp: spin_inv_def)
  show ?case
    using leave held_by_steps(4) [OF h leave.hyps] critical_holds [OF h leave.hyps]
      spin_inv_cpu [OF leave.prems, of i]
    by (intro spin_inv_at [where i = i, OF leave.prems]) (auto simp: release_enter_def masked_def in_cs_def)
next
  case (unlock s i)
  then obtain h where h: "held_by h s" by (auto simp: spin_inv_def)
  show ?case using unlock held_by_steps(5) [OF h unlock.hyps] spin_inv_cpu [OF unlock.prems, of i]
    by (intro spin_inv_at [where i = i, OF unlock.prems]) (auto simp: release_unlock_def masked_def in_cs_def)
next
  case (pop s i)
  then obtain h where h: "held_by h s" and "irq_ok s" by (auto simp: spin_inv_def)
  then obtain c where "cpu_ok c"
      "release_pop i s = s\<lparr>cpus := (cpus s)(i := c), pcs := (pcs s)(i := Outside)\<rparr>"
    using release_pop_ok pop.hyps by blast
  then show ?case using pop held_by_steps(6) [OF h pop.hyps]
    by (intro spin_inv_at [where i = i, OF pop.prems]) (auto simp: masked_def in_cs_def)
next
  case (again s i)
  then obtain h where h: "held_by h s" by (auto simp: spin_inv_def)
  have "cpu_ok (push_off (cpus s i))"
    using push_off_ok again.hyps(3) spin_inv_cpu(1) [OF again.prems] by blast
  then show ?case
    using again held_by_steps(7) [OF h again.hyps(2)] critical_holds [OF h again.hyps(2)]
    by (intro spin_inv_at [where i = i, OF again.prems])
      (auto simp: acquire_enter_def Let_def misuses_def masked_def in_cs_def split: if_splits)
next
  case (leave_free s i)
  then obtain h where h: "held_by h s" by (auto simp: spin_inv_def)
  show ?case
    using leave_free held_by_steps(8) [OF h leave_free.hyps(2)] spin_inv_cpu [OF leave_free.prems, of i]
    by (intro spin_inv_at [where i = i, OF leave_free.prems])
      (auto simp: release_enter_free [OF h] misuses_def masked_def in_cs_def)
next
  case (nest s i)
  then obtain h where h: "held_by h s" by (auto simp: spin_inv_def)
  have "noff (cpus s i) < - 1" using nest.hyps(2) by (rule less_le_trans) simp
  then have "cpu_ok (push_off (cpus s i))"
    using push_off_ok spin_inv_cpu(1) [OF nest.prems] by blast
  then show ?case using nest held_by_steps(9) [OF h]
    by (intro spin_inv_at [where i = i, OF nest.prems]) (auto simp: masked_def in_cs_def)
next
  case (unnest s i c)
  then obtain h where h: "held_by h s" by (auto simp: spin_inv_def)
  have "cpu_ok c" using pop_off_ok spin_inv_cpu(1) [OF unnest.prems] unnest.hyps(2,3) by fastforce
  then show ?case using unnest held_by_steps(9) [OF h]
    by (intro spin_inv_at [where i = i, OF unnest.prems]) (auto simp: masked_def in_cs_def)
next
  case (toggle s i b)
  then obtain h where h: "held_by h s" by (auto simp: spin_inv_def)
  then show ?case using toggle held_by_steps(9) [OF h]
    by (intro spin_inv_at [where i = i, OF toggle.prems]) (auto simp: masked_def in_cs_def cpu_ok_def)
qed

interpretation spin: mutex_system spin_start "spin_step misuse" inside "spin_inv misuse"
proof
  show "spin_inv misuse spin_start" by (rule spin_inv_start)
  show "spin_inv misuse s \<Longrightarrow> spin_step misuse s t \<Longrightarrow> spin_inv misuse t" for s t
    by (rule spin_step_inv)
  show "spin_inv misuse s \<Longrightarrow> inside s i \<Longrightarrow> inside s j \<Longrightarrow> i = j" for s i j
    by (auto simp: spin_inv_def held_by_def inside_def)
qed

text \<open>
  C24: spin locks exclude each other.  However the CPUs interleave, at most one is between its
  successful test-and-set and its release; it has interrupts disabled, \<open>holding\<close> answers
  yes exactly for it once it owns the lock, and without misuse no CPU ever panics.
\<close>

theorem spinlock_mutual_exclusion:
  assumes "(spin_step False)\<^sup>*\<^sup>* spin_start s"
  shows "(inside s i \<longrightarrow> inside s j \<longrightarrow> i = j) \<and> (inside s i \<longrightarrow> \<not> sie (cpus s i))
    \<and> (holding i (lk s) \<longleftrightarrow> pcs s i = Critical) \<and> pcs s i \<noteq> Panicked m"
proof -
  have inv: "spin_inv False s" using assms by (rule spin.reach_invar)
  have "inside s i \<longrightarrow> inside s j \<longrightarrow> i = j" using spin.mutual_exclusion [OF assms] by blast
  moreover have "\<not> sie (cpus s i)" if "inside s i"
  proof -
    have "masked (pcs s i)" using that by (auto simp: inside_def masked_def)
    then show ?thesis using spin_inv_cpu [OF inv] by (simp add: cpu_ok_def)
  qed
  moreover have "holding i (lk s) \<longleftrightarrow> pcs s i = Critical"
  proof -
    obtain h where "held_by h s" using inv by (auto simp: spin_inv_def)
    moreover have "pcs s i \<notin> range Panicked" using inv by (auto simp: spin_inv_def panics_ok_def)
    ultimately show ?thesis using critical_holds by (auto simp: held_by_def holding_def)
  qed
  moreover have "pcs s i \<noteq> Panicked m" using inv by (auto simp: spin_inv_def panics_ok_def)
  ultimately show ?thesis by blast
qed

lemma spin_critical:
  "(spin_step misuse)\<^sup>*\<^sup>* spin_start (acquire_own 0 (test_and_set 0 (acquire_enter 0 spin_start)))"
proof -
  have "spin_step misuse spin_start (acquire_enter 0 spin_start)"
    by (rule spin_step.enter) (simp_all add: spin_start_def word_gt_0)
  moreover have "spin_step misuse (acquire_enter 0 spin_start)
      (test_and_set 0 (acquire_enter 0 spin_start))"
    by (rule spin_step.spin) (simp add: spin_start_def acquire_enter_def holding_def)
  moreover have "spin_step misuse (test_and_set 0 (acquire_enter 0 spin_start))
      (acquire_own 0 (test_and_set 0 (acquire_enter 0 spin_start)))"
    by (rule spin_step.own)
      (simp add: spin_start_def acquire_enter_def holding_def test_and_set_def)
  ultimately show ?thesis
    by (rule rtranclp.rtrancl_into_rtrancl [OF rtranclp.rtrancl_into_rtrancl [OF r_into_rtranclp]])
qed

theorem spinlock_mutual_exclusion_witness:
  "let s = acquire_own 0 (test_and_set 0 (acquire_enter 0 spin_start)) in
   (spin_step False)\<^sup>*\<^sup>* spin_start s \<and> inside s 0 \<and> \<not> inside s 1 \<and> \<not> sie (cpus s 0) \<and> holding 0 (lk s)"
proof -
  let ?s = "acquire_own 0 (test_and_set 0 (acquire_enter 0 spin_start))"
  have "pcs ?s 0 = Critical" by (simp add: acquire_own_def)
  then have "inside ?s 0" by (simp add: inside_def in_cs_def)
  then show ?thesis
    using spinlock_mutual_exclusion [OF spin_critical, of 0 1] spin_critical [of False]
      \<open>pcs ?s 0 = Critical\<close> by auto
qed

section \<open>Sleep locks\<close>

definition sleep_inv :: "sleep_sys \<Rightarrow> bool" where
  "sleep_inv s \<longleftrightarrow> (\<forall>p. spcs s p = SHolds \<longrightarrow> slocked (slk s) \<and> p = spid (slk s))
     \<and> (slocked (slk s) \<longrightarrow> spcs s (spid (slk s)) = SHolds)
     \<and> (\<forall>p. spcs s p = SAsleep \<longrightarrow> slocked (slk s))"

lemma sleep_inv_upd:
  assumes "sleep_inv s" and "spcs s p \<noteq> SHolds" and "q \<noteq> SHolds" and "q = SAsleep \<Longrightarrow> slocked (slk s)"
  shows "sleep_inv (s\<lparr>spcs := (spcs s)(p := q)\<rparr>)"
proof -
  have "slocked (slk s) \<Longrightarrow> spid (slk s) \<noteq> p" using assms(1,2) by (auto simp: sleep_inv_def)
  then show ?thesis using assms by (simp add: sleep_inv_def) (metis (full_types))
qed

lemma sleep_step_inv:
  assumes "sleep_inv s" and "sleep_step s t"
  shows "sleep_inv t"
  using assms(2,1)
proof (induction rule: sleep_step.induct)
  case (release s p)
  then have "spcs s q \<noteq> SHolds" if "q \<noteq> p" for q using that by (auto simp: sleep_inv_def)
  then show ?case by (simp add: sleep_inv_def sleep_release_def wake_all_def)
next
  case (got s p l)
  then have "\<not> slocked (slk s)" "l = (slk s)\<lparr>slocked := True, spid := p\<rparr>"
    by (auto simp: sleep_acquire_def split: if_splits)
  then show ?case using got.prems by (auto simp: sleep_inv_def)
next
  case (sleep s p)
  then have "slocked (slk s)" by (auto simp: sleep_acquire_def split: if_splits)
  then show ?case using sleep by (intro sleep_inv_upd) simp_all
qed (auto intro: sleep_inv_upd)

interpretation sleepl: mutex_system sleep_start sleep_step "\<lambda>s p. spcs s p = SHolds" sleep_inv
proof
  show "sleep_inv sleep_start" by (simp add: sleep_inv_def sleep_start_def)
  show "sleep_inv s \<Longrightarrow> sleep_step s t \<Longrightarrow> sleep_inv t" for s t by (rule sleep_step_inv)
  show "sleep_inv s \<Longrightarrow> spcs s p = SHolds \<Longrightarrow> spcs s q = SHolds \<Longrightarrow> p = q" for s p q
    by (auto simp: sleep_inv_def)
qed

text \<open>
  C25: sleep locks exclude each other and lose no wakeup: at most one process holds the lock,
  \<open>holding\<close> answers yes exactly for it, and a process sleeps only while another one holds
  the lock and will therefore wake it.
\<close>

theorem sleeplock_mutual_exclusion:
  assumes "sleep_step\<^sup>*\<^sup>* sleep_start s"
  shows "(spcs s p = SHolds \<longrightarrow> spcs s q = SHolds \<longrightarrow> p = q)
    \<and> (sleep_holding p (slk s) \<longleftrightarrow> spcs s p = SHolds)
    \<and> (spcs s p = SAsleep \<longrightarrow> (\<exists>h. h \<noteq> p \<and> spcs s h = SHolds))"
proof -
  have inv: "sleep_inv s" using assms by (rule sleepl.reach_invar)
  have "\<exists>h. h \<noteq> p \<and> spcs s h = SHolds" if "spcs s p = SAsleep"
  proof -
    have "spcs s (spid (slk s)) = SHolds" using inv that by (auto simp: sleep_inv_def)
    then show ?thesis using that by (intro exI [of _ "spid (slk s)"]) auto
  qed
  then show ?thesis
    using sleepl.mutual_exclusion [OF assms] inv by (auto simp: sleep_inv_def sleep_holding_def)
qed

theorem sleeplock_mutual_exclusion_witness:
  "let s = \<lparr>slk = \<lparr>slocked = True, spid = 7\<rparr>, spcs = (\<lambda>_. SOut)(7 := SHolds)\<rparr> in
   sleep_step\<^sup>*\<^sup>* sleep_start s \<and> spcs s 7 = SHolds \<and> sleep_holding 7 (slk s)"
proof -
  let ?s = "\<lparr>slk = \<lparr>slocked = True, spid = 7\<rparr>, spcs = (\<lambda>_. SOut)(7 := SHolds)\<rparr>"
  have "sleep_step sleep_start (sleep_start\<lparr>spcs := (spcs sleep_start)(7 := SWant)\<rparr>)"
    by (rule sleep_step.want) (simp add: sleep_start_def)
  moreover have "sleep_step (sleep_start\<lparr>spcs := (spcs sleep_start)(7 := SWant)\<rparr>) ?s"
    using sleep_step.got [of "sleep_start\<lparr>spcs := (spcs sleep_start)(7 := SWant)\<rparr>" 7
        "\<lparr>slocked = True, spid = 7\<rparr>"]
    by (simp add: sleep_start_def sleep_acquire_def)
  ultimately have "sleep_step\<^sup>*\<^sup>* sleep_start ?s"
    by (rule rtranclp.rtrancl_into_rtrancl [OF r_into_rtranclp])
  then show ?thesis using sleeplock_mutual_exclusion [of ?s 7] by simp
qed

end
