(* ===== verification/Bio.thy ===== *)
theory Bio
  imports Lock
begin

text \<open>
  \<open>kernel/bio.cpp\<close>: the buffer cache.  The thirty buffers and the list head are numbered;
  \<open>prev\<close> and \<open>next\<close> are two maps on these numbers, so that the pointer assignments of the
  code are updates of the maps.  A critical section of \<open>bcache.lock\<close> is one step.  The
  sleep lock of a buffer that is already held makes the operation fault with \<open>Sleeps\<close>.
  The disk is a map from block numbers to blocks together with the history of the writes
  it has received; \<open>virtio_disk::disk_rw\<close> moves one block (it ignores the device number).
\<close>

section \<open>Doubly linked lists in two maps\<close>

fun chain :: "(nat \<Rightarrow> nat) \<Rightarrow> (nat \<Rightarrow> nat) \<Rightarrow> nat \<Rightarrow> nat list \<Rightarrow> nat \<Rightarrow> bool" where
  "chain nx pv a [] z \<longleftrightarrow> nx a = z \<and> pv z = a"
| "chain nx pv a (x # xs) z \<longleftrightarrow> nx a = x \<and> pv x = a \<and> chain nx pv x xs z"

lemma chain_append:
  "chain nx pv a (xs @ b # ys) z \<longleftrightarrow> chain nx pv a xs b \<and> chain nx pv b ys z"
  by (induction xs arbitrary: a) auto

lemma chain_nx_upd: "x \<notin> set (a # xs) \<Longrightarrow> chain (nx(x := v)) pv a xs z = chain nx pv a xs z"
  by (induction xs arbitrary: a) auto

lemma chain_pv_upd: "y \<notin> set (z # xs) \<Longrightarrow> chain nx (pv(y := v)) a xs z = chain nx pv a xs z"
  by (induction xs arbitrary: a) auto

lemma chain_first: "chain nx pv a xs z \<Longrightarrow> nx a = hd (xs @ [z])"
  by (cases xs) auto

lemma chain_last: "chain nx pv a xs z \<Longrightarrow> pv z = last (a # xs)"
  by (induction xs arbitrary: a) auto

lemma chain_retarget:
  assumes "chain nx pv a xs b" and "distinct (a # xs)" and "c \<notin> set xs"
  shows "chain (nx(last (a # xs) := c)) (pv(c := last (a # xs))) a xs c"
  using assms
proof (induction xs arbitrary: a)
  case Nil
  then show ?case by simp
next
  case (Cons x xs)
  then have "a \<noteq> last (x # xs)" by (metis distinct.simps(2) last_in_set list.distinct(1))
  then show ?case using Cons by auto
qed

section \<open>The cache\<close>

definition NBUF :: nat where [layout_simps]: "NBUF = 30"
definition BSIZE :: nat where [layout_simps]: "BSIZE = 1024"
definition ROOTDEV :: u32 where [layout_simps]: "ROOTDEV = 1"

text \<open>The list head \<open>bcache.head\<close> has the number after the last buffer.\<close>

definition head :: nat where [layout_simps]: "head = NBUF"

record buf =
  valid :: bool
  dev :: u32
  blockno :: u32
  refcnt :: u32
  lock :: sleeplock
  data :: bytes

record bio_state =
  bufs :: "nat \<Rightarrow> buf"
  bprev :: "nat \<Rightarrow> nat"
  bnext :: "nat \<Rightarrow> nat"
  disk :: "u32 \<Rightarrow> bytes"
  writes :: "(u32 \<times> bytes) list"
  mypid :: u32

definition upd_buf :: "nat \<Rightarrow> (buf \<Rightarrow> buf) \<Rightarrow> 'a bio_state_scheme \<Rightarrow> 'a bio_state_scheme" where
  "upd_buf i f s = s\<lparr>bufs := (bufs s)(i := f (bufs s i))\<rparr>"

text \<open>
  \<open>b.next = head.next; b.prev = &head; head.next->prev = &b; head.next = &b\<close>, and the two
  assignments that take a buffer out of the list.
\<close>

definition link_front :: "nat \<Rightarrow> 'a bio_state_scheme \<Rightarrow> 'a bio_state_scheme" where
  "link_front b s =
     (let s1 = s\<lparr>bnext := (bnext s)(b := bnext s head)\<rparr>;
          s2 = s1\<lparr>bprev := (bprev s1)(b := head)\<rparr>;
          s3 = s2\<lparr>bprev := (bprev s2)(bnext s2 head := b)\<rparr>
      in s3\<lparr>bnext := (bnext s3)(head := b)\<rparr>)"

definition unlink :: "nat \<Rightarrow> 'a bio_state_scheme \<Rightarrow> 'a bio_state_scheme" where
  "unlink b s =
     (let s1 = s\<lparr>bprev := (bprev s)(bnext s b := bprev s b)\<rparr>
      in s1\<lparr>bnext := (bnext s1)(bprev s1 b := bnext s1 b)\<rparr>)"

definition bio_init :: "'a bio_state_scheme \<Rightarrow> 'a bio_state_scheme" where
  "bio_init s = fold link_front [0..<NBUF]
     (s\<lparr>bprev := (bprev s)(head := head), bnext := (bnext s)(head := head)\<rparr>)"

text \<open>A walk along \<open>next\<close> from \<open>i\<close> to the head; not reaching it is \<open>None\<close>.\<close>

partial_function (option) scan :: "(nat \<Rightarrow> nat) \<Rightarrow> (nat \<Rightarrow> bool) \<Rightarrow> nat \<Rightarrow> nat option option" where
  "scan nx P i = (if i = head then Some None else if P i then Some (Some i) else scan nx P (nx i))"

definition lock_buf :: "nat \<Rightarrow> ('a bio_state_scheme, unit) kop" where
  "lock_buf i = (\<lambda>s. case sleep_acquire (mypid s) (lock (bufs s i)) of
       None \<Rightarrow> Inl (Sleeps ''buf.lock'')
     | Some l \<Rightarrow> Inr ((), upd_buf i (\<lambda>b. b\<lparr>lock := l\<rparr>) s))"

definition bget :: "u32 \<Rightarrow> u32 \<Rightarrow> ('a bio_state_scheme, nat) kop" where
  "bget d bno = (\<lambda>s.
     case scan (bnext s) (\<lambda>i. dev (bufs s i) = d \<and> blockno (bufs s i) = bno) (bnext s head) of
       None \<Rightarrow> Inl Diverges
     | Some (Some i) \<Rightarrow>
         kthen (lock_buf i) (kreturn i) (upd_buf i (\<lambda>b. b\<lparr>refcnt := refcnt b + 1\<rparr>) s)
     | Some None \<Rightarrow>
         (case scan (bnext s) (\<lambda>i. refcnt (bufs s i) = 0) (bnext s head) of
            None \<Rightarrow> Inl Diverges
          | Some (Some i) \<Rightarrow>
              kthen (lock_buf i) (kreturn i)
                (upd_buf i (\<lambda>b. b\<lparr>dev := d, blockno := bno, valid := False, refcnt := 1\<rparr>) s)
          | Some None \<Rightarrow> Inl (Panic ''no buffers'')))"

text \<open>\<open>virtio_disk::disk_rw\<close> on buffer \<open>i\<close>: the transfer it performs.\<close>

definition disk_rw :: "nat \<Rightarrow> bool \<Rightarrow> 'a bio_state_scheme \<Rightarrow> 'a bio_state_scheme" where
  "disk_rw i write s =
     (let b = bufs s i in
      if write then s\<lparr>disk := (disk s)(blockno b := data b), writes := writes s @ [(blockno b, data b)]\<rparr>
      else upd_buf i (\<lambda>b. b\<lparr>data := disk s (blockno b)\<rparr>) s)"

definition bread :: "u32 \<Rightarrow> u32 \<Rightarrow> ('a bio_state_scheme, nat) kop" where
  "bread d bno = kbind (bget d bno) (\<lambda>i s.
     if \<not> valid (bufs s i)
     then Inr (i, upd_buf i (\<lambda>b. b\<lparr>valid := True\<rparr>) (disk_rw i False s))
     else Inr (i, s))"

definition brelse :: "nat \<Rightarrow> ('a bio_state_scheme, unit) kop" where
  "brelse i = (\<lambda>s.
     if \<not> sleep_holding (mypid s) (lock (bufs s i)) then Inl (Panic ''bio::brelse: no lock'')
     else let s1 = upd_buf i (\<lambda>b. b\<lparr>lock := sleep_release (lock b)\<rparr>) s;
              s2 = upd_buf i (\<lambda>b. b\<lparr>refcnt := refcnt b - 1\<rparr>) s1
          in Inr ((), if refcnt (bufs s2 i) = 0 then link_front i (unlink i s2) else s2))"

definition bwrite :: "nat \<Rightarrow> ('a bio_state_scheme, unit) kop" where
  "bwrite i = (\<lambda>s.
     if \<not> sleep_holding (mypid s) (lock (bufs s i)) then Inl (Panic ''bio::bwrite: no lock'')
     else Inr ((), disk_rw i True s))"

definition bpin :: "nat \<Rightarrow> 'a bio_state_scheme \<Rightarrow> 'a bio_state_scheme" where
  "bpin i = upd_buf i (\<lambda>b. b\<lparr>refcnt := refcnt b + 1\<rparr>)"

definition bupin :: "nat \<Rightarrow> 'a bio_state_scheme \<Rightarrow> 'a bio_state_scheme" where
  "bupin i = upd_buf i (\<lambda>b. b\<lparr>refcnt := refcnt b - 1\<rparr>)"

text \<open>A caller that holds the buffer's lock changes its contents.\<close>

definition bmod :: "nat \<Rightarrow> (bytes \<Rightarrow> bytes) \<Rightarrow> ('a bio_state_scheme, unit) kop" where
  "bmod i f = kmodify (upd_buf i (\<lambda>b. b\<lparr>data := f (data b)\<rparr>))"

section \<open>The list of buffers\<close>

definition lru_list :: "'a bio_state_scheme \<Rightarrow> nat list \<Rightarrow> bool" where
  "lru_list s xs \<longleftrightarrow> chain (bnext s) (bprev s) head xs head \<and> distinct xs \<and> head \<notin> set xs"

lemma upd_buf_simps [simp]:
  "bufs (upd_buf i f s) = (bufs s)(i := f (bufs s i))" "bnext (upd_buf i f s) = bnext s"
  "bprev (upd_buf i f s) = bprev s" "disk (upd_buf i f s) = disk s" "writes (upd_buf i f s) = writes s"
  "mypid (upd_buf i f s) = mypid s" "bio_state.more (upd_buf i f s) = bio_state.more s"
  by (simp_all add: upd_buf_def)

lemma link_simps [simp]:
  "bufs (link_front i s) = bufs s" "disk (link_front i s) = disk s" "writes (link_front i s) = writes s"
  "mypid (link_front i s) = mypid s" "bio_state.more (link_front i s) = bio_state.more s"
  "bufs (unlink i s) = bufs s" "disk (unlink i s) = disk s" "writes (unlink i s) = writes s"
  "mypid (unlink i s) = mypid s" "bio_state.more (unlink i s) = bio_state.more s"
  by (simp_all add: link_front_def unlink_def Let_def)

lemma lru_list_cong: "bnext s = bnext t \<Longrightarrow> bprev s = bprev t \<Longrightarrow> lru_list s xs = lru_list t xs"
  by (simp add: lru_list_def)

lemma link_front_list:
  assumes "lru_list s xs" and "b \<notin> set xs" and "b \<noteq> head"
  shows "lru_list (link_front b s) (b # xs)"
proof -
  let ?nx = "bnext s" and ?pv = "bprev s"
  have c: "chain ?nx ?pv head xs head" and d: "distinct xs" "head \<notin> set xs"
    using assms(1) by (simp_all add: lru_list_def)
  have nx: "?nx head = hd (xs @ [head])" using c by (rule chain_first)
  have "chain (?nx(b := ?nx head, head := b)) (?pv(b := head, ?nx head := b)) b xs head"
  proof (cases xs)
    case Nil
    then show ?thesis using nx assms(3) by simp
  next
    case (Cons x ys)
    then have "chain ?nx ?pv x ys head" "?nx head = x" "x \<noteq> b" "x \<noteq> head"
      using c assms(2) d by auto
    then show ?thesis using Cons assms(2,3) d by (auto simp: chain_nx_upd chain_pv_upd)
  qed
  then show ?thesis
    using assms(2,3) d nx by (cases xs) (auto simp: lru_list_def link_front_def Let_def)
qed

lemma unlink_list:
  assumes "lru_list s (xs @ b # ys)"
  shows "lru_list (unlink b s) (xs @ ys)"
proof -
  let ?nx = "bnext s" and ?pv = "bprev s"
  have c: "chain ?nx ?pv head xs b" "chain ?nx ?pv b ys head"
    and d: "distinct (xs @ b # ys)" "head \<notin> set (xs @ b # ys)"
    using assms by (simp_all add: lru_list_def chain_append)
  let ?p = "last (head # xs)" and ?n = "hd (ys @ [head])"
  have p: "?pv b = ?p" and n: "?nx b = ?n" using c by (simp_all add: chain_last chain_first)
  have nb: "?n \<noteq> b" using d by (cases ys) auto
  have "?n \<notin> set xs" using d by (cases ys) auto
  then have l: "chain (?nx(?p := ?n)) (?pv(?n := ?p)) head xs ?n"
    using c(1) d by (intro chain_retarget) auto
  have "?p \<in> set (head # xs)" by (rule last_in_set) simp
  then have pn: "?p \<notin> set (b # ys)" using d by auto
  have "chain (?nx(?p := ?n)) (?pv(?n := ?p)) head (xs @ ys) head"
  proof (cases ys)
    case Nil
    then show ?thesis using l by simp
  next
    case (Cons y zs)
    then have "chain ?nx ?pv y zs head" "y \<notin> set (head # zs)" "?p \<notin> set (y # zs)"
      using c(2) d pn by auto
    then have "chain (?nx(?p := y)) (?pv(y := ?p)) y zs head"
      by (simp add: chain_nx_upd chain_pv_upd)
    then show ?thesis using l Cons by (simp add: chain_append)
  qed
  then show ?thesis
    using d p n nb by (auto simp: lru_list_def unlink_def Let_def)
qed

lemma bio_init_list:
  "lru_list (bio_init s) (rev [0..<NBUF])"
proof -
  let ?t = "s\<lparr>bprev := (bprev s)(head := head), bnext := (bnext s)(head := head)\<rparr>"
  have "n \<le> NBUF \<Longrightarrow> lru_list (fold link_front [0..<n] ?t) (rev [0..<n])" for n
  proof (induction n)
    case 0
    then show ?case by (simp add: lru_list_def)
  next
    case (Suc n)
    then show ?case by (auto intro!: link_front_list simp: head_def)
  qed
  then show ?thesis by (simp add: bio_init_def)
qed

lemma scan_chain:
  assumes "chain nx pv a xs head" and "head \<notin> set xs"
  shows "scan nx P (nx a) = Some (find P xs)"
  using assms
proof (induction xs arbitrary: a)
  case Nil
  then show ?case by (subst scan.simps) simp
next
  case (Cons x xs)
  then show ?case by (subst scan.simps) auto
qed

section \<open>The cache as a map of blocks\<close>

text \<open>
  What a cache state means for the callers, by block number of the root device: the buffer
  a block is cached in, its reference count, the holder of its lock, and the contents that
  \<open>bread\<close> returns.
\<close>

definition cached :: "'a bio_state_scheme \<Rightarrow> u32 \<Rightarrow> nat option" where
  "cached s b = find (\<lambda>i. dev (bufs s i) = ROOTDEV \<and> blockno (bufs s i) = b) [0..<NBUF]"

definition refs :: "'a bio_state_scheme \<Rightarrow> u32 \<Rightarrow> u32" where
  "refs s b = (case cached s b of None \<Rightarrow> 0 | Some i \<Rightarrow> refcnt (bufs s i))"

definition locked_block :: "'a bio_state_scheme \<Rightarrow> u32 \<Rightarrow> bool" where
  "locked_block s b \<longleftrightarrow> (case cached s b of None \<Rightarrow> False | Some i \<Rightarrow> slocked (lock (bufs s i)))"

definition view :: "'a bio_state_scheme \<Rightarrow> u32 \<Rightarrow> bytes" where
  "view s b = (case cached s b of
       None \<Rightarrow> disk s b
     | Some i \<Rightarrow> if valid (bufs s i) then data (bufs s i) else disk s b)"

lemma blocks_cong:
  assumes "bufs t = bufs s"
  shows "cached t = cached s" "refs t = refs s" "locked_block t = locked_block s"
    "disk t = disk s \<Longrightarrow> view t = view s"
proof -
  show c: "cached t = cached s" by (rule ext) (simp add: cached_def assms)
  show "refs t = refs s" "locked_block t = locked_block s" "disk t = disk s \<Longrightarrow> view t = view s"
    by (rule ext, auto simp: refs_def locked_block_def view_def c assms split: option.splits)+
qed

text \<open>
  The invariant: the list holds every buffer once; a block has one buffer at most; a buffer
  in use belongs to the root device; a locked buffer is referenced; an unreferenced valid
  buffer agrees with the disk.
\<close>

definition buf_ok :: "'a bio_state_scheme \<Rightarrow> nat \<Rightarrow> bool" where
  "buf_ok s i \<longleftrightarrow>
     (let b = bufs s i in
      length (data b) = BSIZE
      \<and> (valid b \<or> refcnt b \<noteq> 0 \<longrightarrow> dev b = ROOTDEV)
      \<and> (slocked (lock b) \<longrightarrow> refcnt b \<noteq> 0)
      \<and> (valid b \<and> refcnt b = 0 \<longrightarrow> data b = disk s (blockno b)))"

definition unique_blocks :: "'a bio_state_scheme \<Rightarrow> bool" where
  "unique_blocks s \<longleftrightarrow>
     (\<forall>i < NBUF. \<forall>j < NBUF. dev (bufs s i) = ROOTDEV \<longrightarrow> dev (bufs s j) = ROOTDEV
        \<longrightarrow> blockno (bufs s i) = blockno (bufs s j) \<longrightarrow> i = j)"

definition bio_inv :: "'a bio_state_scheme \<Rightarrow> bool" where
  "bio_inv s \<longleftrightarrow> (\<exists>xs. lru_list s xs \<and> set xs = {..<NBUF}) \<and> unique_blocks s
     \<and> (\<forall>i < NBUF. buf_ok s i) \<and> (\<forall>b. length (disk s b) = BSIZE)"

lemma bio_inv_cong:
  assumes "bufs t = bufs s" and "bnext t = bnext s" and "bprev t = bprev s" and "disk t = disk s"
  shows "bio_inv t = bio_inv s"
  using assms by (simp add: bio_inv_def lru_list_def unique_blocks_def buf_ok_def)

lemma cached_iff:
  assumes "unique_blocks s"
  shows "cached s b = Some i \<longleftrightarrow> i < NBUF \<and> dev (bufs s i) = ROOTDEV \<and> blockno (bufs s i) = b"
proof
  assume "cached s b = Some i"
  then show "i < NBUF \<and> dev (bufs s i) = ROOTDEV \<and> blockno (bufs s i) = b"
    by (auto simp: cached_def find_Some_iff)
next
  assume i: "i < NBUF \<and> dev (bufs s i) = ROOTDEV \<and> blockno (bufs s i) = b"
  then obtain j where j: "cached s b = Some j"
    by (cases "cached s b") (auto simp: cached_def find_None_iff)
  then have "j < NBUF \<and> dev (bufs s j) = ROOTDEV \<and> blockno (bufs s j) = b"
    by (auto simp: cached_def find_Some_iff)
  then show "cached s b = Some i" using i j assms by (auto simp: unique_blocks_def)
qed

lemma cached_None_iff:
  "cached s b = None \<longleftrightarrow> (\<forall>i < NBUF. dev (bufs s i) = ROOTDEV \<longrightarrow> blockno (bufs s i) \<noteq> b)"
  by (auto simp: cached_def find_None_iff)

lemma cached_cong:
  "(\<And>i. i < NBUF \<Longrightarrow> dev (bufs t i) = dev (bufs s i) \<and> blockno (bufs t i) = blockno (bufs s i))
   \<Longrightarrow> cached t = cached s"
  unfolding cached_def by (intro ext find_cong) auto

lemma unique_blocks_cong:
  "(\<And>i. i < NBUF \<Longrightarrow> dev (bufs t i) = dev (bufs s i) \<and> blockno (bufs t i) = blockno (bufs s i))
   \<Longrightarrow> unique_blocks t = unique_blocks s"
  unfolding unique_blocks_def by simp

lemma scan_find:
  assumes "bio_inv s"
  shows "\<exists>xs. scan (bnext s) P (bnext s head) = Some (find P xs) \<and> set xs = {..<NBUF}"
  using assms unfolding bio_inv_def lru_list_def by (meson scan_chain)

lemma scan_cached:
  assumes "bio_inv s"
  shows "scan (bnext s) (\<lambda>i. dev (bufs s i) = ROOTDEV \<and> blockno (bufs s i) = b) (bnext s head)
    = Some (cached s b)"
proof -
  let ?P = "\<lambda>i. dev (bufs s i) = ROOTDEV \<and> blockno (bufs s i) = b"
  obtain xs where xs: "scan (bnext s) ?P (bnext s head) = Some (find ?P xs)" "set xs = {..<NBUF}"
    using scan_find [OF assms] by blast
  have "find ?P xs = cached s b"
  proof (cases "cached s b")
    case None
    then have "find ?P xs = None" using xs(2) by (auto simp: cached_None_iff find_None_iff)
    then show ?thesis using None by simp
  next
    case (Some i)
    have u: "unique_blocks s" using assms by (simp add: bio_inv_def)
    obtain j where "find ?P xs = Some j"
      using Some xs(2) u by (cases "find ?P xs") (auto simp: cached_iff find_None_iff)
    moreover from this have "?P j" "j < NBUF" using xs(2) by (auto simp: find_Some_iff)
    ultimately show ?thesis using Some cached_iff [OF u, of b j] by simp
  qed
  then show ?thesis using xs by simp
qed

text \<open>A buffer that can be recycled for block \<open>b\<close>, unless it is cached already.\<close>

definition available :: "'a bio_state_scheme \<Rightarrow> u32 \<Rightarrow> bool" where
  "available s b \<longleftrightarrow> cached s b \<noteq> None \<or> (\<exists>i < NBUF. refcnt (bufs s i) = 0)"

lemma scan_free:
  assumes "bio_inv s" and "\<exists>i < NBUF. refcnt (bufs s i) = 0"
  shows "\<exists>i < NBUF. scan (bnext s) (\<lambda>i. refcnt (bufs s i) = 0) (bnext s head) = Some (Some i)
    \<and> refcnt (bufs s i) = 0"
proof -
  let ?P = "\<lambda>i. refcnt (bufs s i) = 0"
  obtain xs where xs: "scan (bnext s) ?P (bnext s head) = Some (find ?P xs)" "set xs = {..<NBUF}"
    using scan_find [OF assms(1)] by blast
  then obtain j where "find ?P xs = Some j"
    using assms(2) by (cases "find ?P xs") (auto simp: find_None_iff)
  moreover from this have "?P j" "j < NBUF" using xs(2) by (auto simp: find_Some_iff)
  ultimately show ?thesis using xs(1) by auto
qed

lemma bio_inv_cached:
  assumes "bio_inv s"
  shows "cached s b = Some i \<longleftrightarrow> i < NBUF \<and> dev (bufs s i) = ROOTDEV \<and> blockno (bufs s i) = b"
  using assms by (simp add: bio_inv_def cached_iff)

lemma free_buffer:
  assumes "bio_inv s" and "card {b. refs s b \<noteq> 0} < NBUF"
  shows "\<exists>i < NBUF. refcnt (bufs s i) = 0"
proof (rule ccontr)
  assume "\<not> (\<exists>i < NBUF. refcnt (bufs s i) = 0)"
  then have ref: "refcnt (bufs s i) \<noteq> 0" if "i < NBUF" for i using that by auto
  then have c: "cached s (blockno (bufs s i)) = Some i" if "i < NBUF" for i
    using that assms(1) by (auto simp: bio_inv_cached [OF assms(1)] bio_inv_def buf_ok_def Let_def)
  have "{b. refs s b \<noteq> 0} = (\<lambda>i. blockno (bufs s i)) ` {..<NBUF}"
  proof (intro equalityI subsetI)
    fix b assume "b \<in> {b. refs s b \<noteq> 0}"
    then obtain i where "cached s b = Some i" by (auto simp: refs_def split: option.splits)
    then show "b \<in> (\<lambda>i. blockno (bufs s i)) ` {..<NBUF}"
      by (auto simp: bio_inv_cached [OF assms(1)])
  qed (use c ref in \<open>auto simp: refs_def\<close>)
  moreover have "inj_on (\<lambda>i. blockno (bufs s i)) {..<NBUF}"
    by (rule inj_onI) (use c in \<open>metis lessThan_iff option.inject\<close>)
  ultimately show False using assms(2) by (simp add: card_image)
qed

lemma finite_busy: "bio_inv s \<Longrightarrow> finite {b. refs s b \<noteq> 0}"
  by (rule finite_subset [of _ "(\<lambda>i. blockno (bufs s i)) ` {..<NBUF}"])
    (auto simp: refs_def bio_inv_cached split: option.splits)

section \<open>What the operations do to the map of blocks\<close>

text \<open>A buffer the running process has locked.\<close>

definition holds :: "'a bio_state_scheme \<Rightarrow> u32 \<Rightarrow> nat \<Rightarrow> bool" where
  "holds s b i \<longleftrightarrow> cached s b = Some i \<and> sleep_holding (mypid s) (lock (bufs s i)) \<and> valid (bufs s i)"

lemma holds_cong:
  "bufs t = bufs s \<Longrightarrow> mypid t = mypid s \<Longrightarrow> holds t b i = holds s b i"
  using blocks_cong(1) [of t s] by (simp add: holds_def)

lemma holds_data: "holds s b i \<Longrightarrow> data (bufs s i) = view s b"
  by (simp add: holds_def view_def)

text \<open>The buffers held for other blocks than \<open>b\<close> stay held.\<close>

definition keeps :: "u32 \<Rightarrow> 'a bio_state_scheme \<Rightarrow> 'a bio_state_scheme \<Rightarrow> bool" where
  "keeps b s t \<longleftrightarrow> (\<forall>b' j. b' \<noteq> b \<longrightarrow> holds s b' j \<longrightarrow> holds t b' j)"

lemma keepsD: "keeps b s t \<Longrightarrow> b' \<noteq> b \<Longrightarrow> holds s b' j \<Longrightarrow> holds t b' j"
  by (simp add: keeps_def)

lemma keeps_trans: "keeps b s t \<Longrightarrow> keeps b t u \<Longrightarrow> keeps b s u"
  by (simp add: keeps_def)

text \<open>Changing a buffer that keeps its block.\<close>

lemma upd_buf_block:
  assumes inv: "bio_inv s" and c: "cached s b = Some i"
    and keep: "dev (f (bufs s i)) = dev (bufs s i)" "blockno (f (bufs s i)) = blockno (bufs s i)"
  defines "t \<equiv> upd_buf i f s"
  shows "cached t = cached s"
    and "refs t = (refs s)(b := refcnt (f (bufs s i)))"
    and "locked_block t = (locked_block s)(b := slocked (lock (f (bufs s i))))"
    and "view t = (view s)(b := if valid (f (bufs s i)) then data (f (bufs s i)) else disk s b)"
    and "keeps b s t"
    and "buf_ok t i \<Longrightarrow> bio_inv t"
proof -
  show ct: "cached t = cached s" using keep by (intro cached_cong) (auto simp: t_def)
  have other: "j \<noteq> i" if "cached s b' = Some j" "b' \<noteq> b" for b' j
    using that c inv by (auto simp: bio_inv_cached)
  show "refs t = (refs s)(b := refcnt (f (bufs s i)))"
    using other c ct by (intro ext) (auto simp: refs_def t_def split: option.splits)
  show "locked_block t = (locked_block s)(b := slocked (lock (f (bufs s i))))"
    using other c ct by (intro ext) (auto simp: locked_block_def t_def split: option.splits)
  show "view t = (view s)(b := if valid (f (bufs s i)) then data (f (bufs s i)) else disk s b)"
    using other c ct by (intro ext) (auto simp: view_def t_def split: option.splits)
  show "keeps b s t"
    using other ct by (auto simp: keeps_def holds_def t_def)
  assume ok: "buf_ok t i"
  have "unique_blocks t"
    using inv keep unique_blocks_cong [of t s] by (auto simp: t_def bio_inv_def)
  moreover have "buf_ok t j" if "j < NBUF" for j
    using inv ok that by (cases "j = i") (auto simp: bio_inv_def buf_ok_def Let_def t_def)
  moreover have "lru_list t xs = lru_list s xs" for xs by (rule lru_list_cong) (simp_all add: t_def)
  ultimately show "bio_inv t" using inv by (auto simp: bio_inv_def t_def)
qed

definition same_disk :: "'a bio_state_scheme \<Rightarrow> 'a bio_state_scheme \<Rightarrow> bool" where
  "same_disk s t \<longleftrightarrow> disk t = disk s \<and> writes t = writes s \<and> mypid t = mypid s
     \<and> bio_state.more t = bio_state.more s"

lemma same_diskD:
  assumes "same_disk s t"
  shows "disk t = disk s" "writes t = writes s" "mypid t = mypid s"
    "bio_state.more t = bio_state.more s"
  using assms by (simp_all add: same_disk_def)

lemma same_disk_refl [simp]: "same_disk s s" and same_disk_upd [simp]: "same_disk s (upd_buf i f s)"
  by (simp_all add: same_disk_def)

lemma same_disk_trans: "same_disk s t \<Longrightarrow> same_disk t u \<Longrightarrow> same_disk s u"
  by (simp add: same_disk_def)

lemma bget_hit:
  assumes inv: "bio_inv s" and c: "cached s b = Some i" and unl: "\<not> locked_block s b"
    and nomax: "refs s b \<noteq> - 1"
  shows "\<exists>t. bget ROOTDEV b s = Inr (i, t) \<and> bio_inv t \<and> cached t = cached s
    \<and> refs t = (refs s)(b := refs s b + 1) \<and> locked_block t = (locked_block s)(b := True)
    \<and> view t = view s \<and> same_disk s t \<and> sleep_holding (mypid s) (lock (bufs t i))
    \<and> valid (bufs t i) = valid (bufs s i) \<and> keeps b s t"
proof -
  let ?f = "\<lambda>x. x\<lparr>refcnt := refcnt x + 1, lock := (lock x)\<lparr>slocked := True, spid := mypid s\<rparr>\<rparr>"
  let ?t = "upd_buf i ?f s"
  have r: "refs s b = refcnt (bufs s i)" using c by (simp add: refs_def)
  have "slocked (lock (bufs s i)) = False" using unl c by (simp add: locked_block_def)
  then have b: "bget ROOTDEV b s = Inr (i, ?t)"
    unfolding bget_def scan_cached [OF inv]
    by (simp add: c kbind_def lock_buf_def sleep_acquire_def upd_buf_def)
  have ok: "buf_ok s i" using inv c by (auto simp: bio_inv_cached [OF inv]) (simp add: bio_inv_def)
  have "refcnt (bufs s i) + 1 \<noteq> 0" using nomax r by (metis add_eq_0_iff2)
  moreover have "dev (bufs s i) = ROOTDEV" using c by (simp add: bio_inv_cached [OF inv])
  ultimately have "buf_ok ?t i" using ok by (auto simp: buf_ok_def Let_def)
  moreover have "view s b = (if valid (bufs s i) then data (bufs s i) else disk s b)"
    using c by (simp add: view_def)
  ultimately show ?thesis
    using b upd_buf_block [OF inv c, of ?f] r by (auto simp: sleep_holding_def fun_upd_idem)
qed

lemma bget_miss:
  assumes inv: "bio_inv s" and c: "cached s b = None" and free: "\<exists>i < NBUF. refcnt (bufs s i) = 0"
  shows "\<exists>i t. bget ROOTDEV b s = Inr (i, t) \<and> bio_inv t \<and> cached t b = Some i
    \<and> refs t = (refs s)(b := 1) \<and> locked_block t = (locked_block s)(b := True)
    \<and> view t = view s \<and> same_disk s t \<and> sleep_holding (mypid s) (lock (bufs t i))
    \<and> \<not> valid (bufs t i) \<and> keeps b s t \<and> (\<forall>b'. b' \<noteq> b \<longrightarrow> cached s b' = None \<longrightarrow> cached t b' = None)"
proof -
  obtain i where i: "i < NBUF" "refcnt (bufs s i) = 0"
    "scan (bnext s) (\<lambda>i. refcnt (bufs s i) = 0) (bnext s head) = Some (Some i)"
    using scan_free [OF inv free] by blast
  let ?f = "\<lambda>x. x\<lparr>dev := ROOTDEV, blockno := b, valid := False, refcnt := 1,
    lock := (lock x)\<lparr>slocked := True, spid := mypid s\<rparr>\<rparr>"
  let ?t = "upd_buf i ?f s"
  have ok: "buf_ok s i" using inv i by (simp add: bio_inv_def)
  then have "slocked (lock (bufs s i)) = False" using i by (auto simp: buf_ok_def Let_def)
  then have bg: "bget ROOTDEV b s = Inr (i, ?t)"
    unfolding bget_def scan_cached [OF inv]
    using i by (simp add: c kbind_def lock_buf_def sleep_acquire_def upd_buf_def)
  have none: "dev (bufs s j) = ROOTDEV \<Longrightarrow> blockno (bufs s j) \<noteq> b" if "j < NBUF" for j
    using c that by (auto simp: cached_None_iff)
  have u: "unique_blocks s" using inv by (simp add: bio_inv_def)
  then have ut: "unique_blocks ?t" using none by (auto simp: unique_blocks_def)
  have ct: "cached ?t b' = (if b' = b then Some i else if cached s b' = Some i then None else cached s b')" for b'
  proof -
    have "cached ?t b' = Some j \<longleftrightarrow> (if b' = b then j = i else j \<noteq> i \<and> cached s b' = Some j)" for j
      using i(1) none by (auto simp: cached_iff [OF ut] cached_iff [OF u])
    then show ?thesis by (intro option_eqI) auto
  qed
  have old: "data (bufs s i) = disk s (blockno (bufs s i))" if "valid (bufs s i)"
    using ok that i(2) by (auto simp: buf_ok_def Let_def)
  have at: "blockno (bufs s i) = b'" if "cached s b' = Some i" for b'
    using that by (simp add: cached_iff [OF u])
  have "refs ?t = (refs s)(b := 1)"
    using i(2) by (intro ext) (auto simp: refs_def ct split: option.splits)
  moreover have "locked_block ?t = (locked_block s)(b := True)"
    using \<open>slocked (lock (bufs s i)) = False\<close>
    by (intro ext) (auto simp: locked_block_def ct split: option.splits)
  moreover have "view ?t = view s"
    using c old at by (intro ext) (auto simp: view_def ct split: option.splits)
  moreover have "keeps b s ?t"
    using \<open>slocked (lock (bufs s i)) = False\<close> by (auto simp: keeps_def holds_def ct sleep_holding_def)
  moreover have "bio_inv ?t"
  proof -
    have "buf_ok ?t j" if "j < NBUF" for j
      using inv ok that by (cases "j = i") (auto simp: bio_inv_def buf_ok_def Let_def)
    moreover have "lru_list ?t xs = lru_list s xs" for xs by (rule lru_list_cong) simp_all
    ultimately show ?thesis using inv ut by (auto simp: bio_inv_def)
  qed
  ultimately show ?thesis
    using bg ct by (intro exI [of _ i] exI [of _ ?t]) (simp add: sleep_holding_def)
qed

text \<open>\<open>bread\<close> returns a locked buffer with the contents of the block and takes a reference.\<close>

lemma bread_spec:
  assumes inv: "bio_inv s" and unl: "\<not> locked_block s b" and nomax: "refs s b \<noteq> - 1"
    and room: "refs s b \<noteq> 0 \<or> card {b. refs s b \<noteq> 0} < NBUF"
  shows "\<exists>i t. bread ROOTDEV b s = Inr (i, t) \<and> bio_inv t \<and> holds t b i \<and> data (bufs t i) = view s b
    \<and> refs t = (refs s)(b := refs s b + 1) \<and> locked_block t = (locked_block s)(b := True)
    \<and> view t = view s \<and> same_disk s t \<and> keeps b s t
    \<and> (\<forall>b'. b' \<noteq> b \<longrightarrow> cached s b' = None \<longrightarrow> cached t b' = None)"
proof -
  have "\<exists>i t. bget ROOTDEV b s = Inr (i, t) \<and> bio_inv t \<and> cached t b = Some i
    \<and> refs t = (refs s)(b := refs s b + 1) \<and> locked_block t = (locked_block s)(b := True)
    \<and> view t = view s \<and> same_disk s t \<and> sleep_holding (mypid s) (lock (bufs t i))
    \<and> keeps b s t \<and> (\<forall>b'. b' \<noteq> b \<longrightarrow> cached s b' = None \<longrightarrow> cached t b' = None)"
  proof (cases "cached s b")
    case None
    then have "refs s b = 0" by (simp add: refs_def)
    then show ?thesis using bget_miss [OF inv None] free_buffer [OF inv] room by auto
  next
    case (Some i)
    then show ?thesis using bget_hit [OF inv Some unl nomax] by (metis (no_types, lifting))
  qed
  then obtain i t where b: "bget ROOTDEV b s = Inr (i, t)" and t: "bio_inv t" "cached t b = Some i"
    "refs t = (refs s)(b := refs s b + 1)" "locked_block t = (locked_block s)(b := True)"
    "view t = view s" "same_disk s t" "sleep_holding (mypid s) (lock (bufs t i))"
    "\<forall>b'. b' \<noteq> b \<longrightarrow> cached s b' = None \<longrightarrow> cached t b' = None" "keeps b s t" by blast
  have at: "blockno (bufs t i) = b" "i < NBUF" "dev (bufs t i) = ROOTDEV"
    using t(1,2) by (simp_all add: bio_inv_cached)
  show ?thesis
  proof (cases "valid (bufs t i)")
    case True
    then have "bread ROOTDEV b s = Inr (i, t)" using b by (simp add: bread_def kbind_def)
    moreover have "data (bufs t i) = view s b" using True t(2,5) by (simp add: view_def flip: t(5))
    moreover have "mypid t = mypid s" using t(6) by (rule same_diskD)
    ultimately show ?thesis using t True by (auto simp: holds_def)
  next
    case False
    let ?f = "\<lambda>x. x\<lparr>data := disk t b, valid := True\<rparr>"
    let ?u = "upd_buf i ?f t"
    have br: "bread ROOTDEV b s = Inr (i, ?u)"
      using b False at(1) by (simp add: bread_def kbind_def disk_rw_def upd_buf_def)
    have v: "view s b = disk t b" using False t(2,5) by (simp add: view_def flip: t(5))
    have "buf_ok ?u i"
      using t(1) at False by (auto simp: bio_inv_def buf_ok_def Let_def)
    moreover have "mypid t = mypid s" using t(6) by (rule same_diskD)
    moreover have "refcnt (bufs t i) = refs s b + 1" "slocked (lock (bufs t i))"
      using fun_cong [OF t(3), of b] fun_cong [OF t(4), of b] t(2)
      by (simp_all add: refs_def locked_block_def)
    ultimately show ?thesis
      using br t(2-9) v upd_buf_block [OF t(1,2), of ?f]
      by (auto simp: holds_def fun_upd_idem intro: same_disk_trans keeps_trans)
  qed
qed

text \<open>\<open>brelse\<close> gives lock and reference back; the last reference needs an up-to-date disk.\<close>

lemma brelse_spec:
  assumes inv: "bio_inv s" and h: "holds s b i" and clean: "refs s b = 1 \<Longrightarrow> view s b = disk s b"
  shows "\<exists>t. brelse i s = Inr ((), t) \<and> bio_inv t
    \<and> refs t = (refs s)(b := refs s b - 1) \<and> locked_block t = (locked_block s)(b := False)
    \<and> view t = view s \<and> same_disk s t \<and> keeps b s t \<and> cached t = cached s"
proof -
  have c: "cached s b = Some i" and hold: "sleep_holding (mypid s) (lock (bufs s i))"
    and val: "valid (bufs s i)" using h by (simp_all add: holds_def)
  have at: "i < NBUF" "dev (bufs s i) = ROOTDEV" "blockno (bufs s i) = b"
    using c by (simp_all add: bio_inv_cached [OF inv])
  let ?f = "\<lambda>x. x\<lparr>lock := sleep_release (lock x), refcnt := refcnt x - 1\<rparr>"
  let ?t = "upd_buf i ?f s"
  have r: "refs s b = refcnt (bufs s i)" and v: "view s b = data (bufs s i)"
    using c val by (simp_all add: refs_def view_def)
  have "buf_ok s i" using inv at by (simp add: bio_inv_def)
  then have "buf_ok ?t i"
    using at clean r v by (auto simp: buf_ok_def Let_def sleep_release_def)
  then have t: "bio_inv ?t" "refs ?t = (refs s)(b := refs s b - 1)"
    "locked_block ?t = (locked_block s)(b := False)" "view ?t = view s" "cached ?t = cached s"
    "keeps b s ?t"
    using upd_buf_block [OF inv c, of ?f] r v val by (auto simp: sleep_release_def fun_upd_idem)
  have e: "upd_buf i (\<lambda>b. b\<lparr>refcnt := refcnt b - 1\<rparr>) (upd_buf i (\<lambda>b. b\<lparr>lock := sleep_release (lock b)\<rparr>) s) = ?t"
    by (simp add: upd_buf_def)
  show ?thesis
  proof (cases "refcnt (bufs ?t i) = 0")
    case False
    then have "brelse i s = Inr ((), ?t)" unfolding brelse_def Let_def e using hold by simp
    then show ?thesis using t by auto
  next
    case True
    let ?u = "link_front i (unlink i ?t)"
    have "brelse i s = Inr ((), ?u)" unfolding brelse_def Let_def e using hold True by simp
    moreover have "bio_inv ?u"
    proof -
      obtain xs where xs: "lru_list ?t xs" "set xs = {..<NBUF}" using t(1) by (auto simp: bio_inv_def)
      then obtain ys zs where s: "xs = ys @ i # zs" using at(1) by (metis lessThan_iff split_list)
      have "lru_list (unlink i ?t) (ys @ zs)" using xs s by (auto intro: unlink_list)
      then have "lru_list ?u (i # ys @ zs)"
        using xs s at(1) by (intro link_front_list) (auto simp: lru_list_def head_def)
      moreover have "set (i # ys @ zs) = {..<NBUF}" using xs(2) s by auto
      moreover have "unique_blocks ?u = unique_blocks ?t" "buf_ok ?u j = buf_ok ?t j" for j
        by (simp_all add: unique_blocks_def buf_ok_def)
      ultimately show ?thesis using t(1) unfolding bio_inv_def by auto
    qed
    moreover have "refs ?u = refs ?t" "locked_block ?u = locked_block ?t" "view ?u = view ?t"
      "cached ?u = cached ?t"
      by (intro blocks_cong; simp)+
    ultimately show ?thesis using t by (auto simp: same_disk_def keeps_def holds_def)
  qed
qed

lemma bwrite_spec:
  assumes inv: "bio_inv s" and h: "holds s b i"
  shows "\<exists>t. bwrite i s = Inr ((), t) \<and> bio_inv t \<and> holds t b i
    \<and> disk t = (disk s)(b := view s b) \<and> writes t = writes s @ [(b, view s b)]
    \<and> refs t = refs s \<and> locked_block t = locked_block s \<and> view t = view s
    \<and> keeps b s t \<and> mypid t = mypid s
    \<and> bio_state.more t = bio_state.more s"
proof -
  have c: "cached s b = Some i" and hold: "sleep_holding (mypid s) (lock (bufs s i))"
    and val: "valid (bufs s i)" using h by (simp_all add: holds_def)
  have at: "i < NBUF" "blockno (bufs s i) = b" using c by (simp_all add: bio_inv_cached [OF inv])
  have v: "view s b = data (bufs s i)" using c val by (simp add: view_def)
  let ?t = "disk_rw i True s"
  have t: "bufs ?t = bufs s" "disk ?t = (disk s)(b := view s b)" "bnext ?t = bnext s" "bprev ?t = bprev s"
    "writes ?t = writes s @ [(b, view s b)]" "mypid ?t = mypid s" "bio_state.more ?t = bio_state.more s"
    using at v by (simp_all add: disk_rw_def Let_def)
  have ct: "cached ?t = cached s" by (intro ext) (simp add: cached_def t)
  have ok: "buf_ok s j" if "j < NBUF" for j using inv that by (simp add: bio_inv_def)
  have "buf_ok ?t j" if "j < NBUF" for j
  proof -
    have "j = i" if "dev (bufs s j) = ROOTDEV" "blockno (bufs s j) = b"
      using that \<open>j < NBUF\<close> c bio_inv_cached [OF inv, of b j] by simp
    then show ?thesis using ok [OF that] v by (auto simp: buf_ok_def Let_def t)
  qed
  moreover have "length (view s b) = BSIZE" using ok [OF at(1)] v by (simp add: buf_ok_def Let_def)
  moreover have "lru_list ?t xs = lru_list s xs" "unique_blocks ?t = unique_blocks s" for xs
    by (simp_all add: lru_list_def unique_blocks_def t)
  ultimately have "bio_inv ?t" using inv by (auto simp: bio_inv_def t(2))
  moreover have "view ?t = view s"
    using c val v by (intro ext) (auto simp: view_def ct t split: option.splits)
  ultimately show ?thesis
    using hold h t ct by (intro exI [of _ ?t]) (simp add: bwrite_def holds_def keeps_def blocks_cong [OF t(1)])
qed

lemma bmod_spec:
  assumes inv: "bio_inv s" and h: "holds s b i" and len: "length (f (view s b)) = BSIZE"
  shows "\<exists>t. bmod i f s = Inr ((), t) \<and> bio_inv t \<and> holds t b i
    \<and> view t = (view s)(b := f (view s b)) \<and> data (bufs t i) = f (view s b)
    \<and> refs t = refs s \<and> locked_block t = locked_block s \<and> same_disk s t \<and> keeps b s t"
proof -
  have c: "cached s b = Some i" and hold: "sleep_holding (mypid s) (lock (bufs s i))"
    and val: "valid (bufs s i)" using h by (simp_all add: holds_def)
  have at: "i < NBUF" using c by (simp add: bio_inv_cached [OF inv])
  have v: "view s b = data (bufs s i)" using c val by (simp add: view_def)
  let ?f = "\<lambda>x. x\<lparr>data := f (data x)\<rparr>"
  have "buf_ok s i" using inv at by (simp add: bio_inv_def)
  moreover have "slocked (lock (bufs s i))" using hold by (simp add: sleep_holding_def)
  ultimately have "buf_ok (upd_buf i ?f s) i" using len v by (auto simp: buf_ok_def Let_def)
  then show ?thesis
    using upd_buf_block [OF inv c, of ?f] hold val v c
    by (auto simp: bmod_def holds_def refs_def locked_block_def fun_upd_idem)
qed

lemma bpin_spec:
  assumes inv: "bio_inv s" and h: "holds s b i" and nomax: "refs s b \<noteq> - 1"
  shows "bio_inv (bpin i s) \<and> holds (bpin i s) b i \<and> refs (bpin i s) = (refs s)(b := refs s b + 1)
    \<and> locked_block (bpin i s) = locked_block s \<and> view (bpin i s) = view s \<and> same_disk s (bpin i s)"
proof -
  have c: "cached s b = Some i" and hold: "sleep_holding (mypid s) (lock (bufs s i))"
    and val: "valid (bufs s i)" using h by (simp_all add: holds_def)
  have at: "i < NBUF" "dev (bufs s i) = ROOTDEV" using c by (simp_all add: bio_inv_cached [OF inv])
  let ?f = "\<lambda>x. x\<lparr>refcnt := refcnt x + 1\<rparr>"
  have r: "refs s b = refcnt (bufs s i)" using c by (simp add: refs_def)
  have "buf_ok s i" using inv at by (simp add: bio_inv_def)
  moreover have "refcnt (bufs s i) + 1 \<noteq> 0" using nomax r by (metis add_eq_0_iff2)
  ultimately have "buf_ok (upd_buf i ?f s) i" using at by (auto simp: buf_ok_def Let_def)
  then show ?thesis
    using upd_buf_block [OF inv c, of ?f] hold val c r
    by (auto simp: bpin_def holds_def locked_block_def view_def fun_upd_idem)
qed

section \<open>Properties\<close>

text \<open>The state after boot: no block is cached, whatever the memory of the list fields held.\<close>

definition bio_boot :: "(u32 \<Rightarrow> bytes) \<Rightarrow> u32 \<Rightarrow> bio_state" where
  "bio_boot d pid = bio_init
     \<lparr>bufs = (\<lambda>_. \<lparr>valid = False, dev = 0, blockno = 0, refcnt = 0,
        lock = \<lparr>slocked = False, spid = 0\<rparr>, data = replicate BSIZE 0\<rparr>),
      bprev = (\<lambda>_. head), bnext = (\<lambda>_. head), disk = d, writes = [], mypid = pid\<rparr>"

lemma bio_init_frame [simp]:
  "bufs (bio_init s) = bufs s" "disk (bio_init s) = disk s" "writes (bio_init s) = writes s"
  "mypid (bio_init s) = mypid s" "bio_state.more (bio_init s) = bio_state.more s"
proof -
  have "bufs (fold link_front xs t) = bufs t \<and> disk (fold link_front xs t) = disk t
    \<and> writes (fold link_front xs t) = writes t \<and> mypid (fold link_front xs t) = mypid t
    \<and> bio_state.more (fold link_front xs t) = bio_state.more t" for xs and t :: "'a bio_state_scheme"
    by (induction xs arbitrary: t) auto
  then show "bufs (bio_init s) = bufs s" "disk (bio_init s) = disk s" "writes (bio_init s) = writes s"
    "mypid (bio_init s) = mypid s" "bio_state.more (bio_init s) = bio_state.more s"
    by (auto simp: bio_init_def)
qed

lemma fresh_cache:
  assumes "\<And>i. dev (bufs s i) = 0 \<and> \<not> valid (bufs s i) \<and> refcnt (bufs s i) = 0
      \<and> \<not> slocked (lock (bufs s i)) \<and> length (data (bufs s i)) = BSIZE"
    and "\<And>b. length (disk s b) = BSIZE"
  shows "bio_inv (bio_init s) \<and> refs (bio_init s) = (\<lambda>_. 0)
    \<and> locked_block (bio_init s) = (\<lambda>_. False) \<and> view (bio_init s) = disk s"
proof -
  let ?t = "bio_init s"
  have u: "unique_blocks ?t" using assms(1) by (simp add: unique_blocks_def ROOTDEV_def)
  have n: "cached ?t b = None" for b using assms(1) by (simp add: cached_None_iff ROOTDEV_def)
  have "\<exists>xs. lru_list ?t xs \<and> set xs = {..<NBUF}"
    using bio_init_list [of s] by (intro exI [of _ "rev [0..<NBUF]"]) auto
  moreover have "buf_ok ?t i" for i using assms(1) by (simp add: buf_ok_def Let_def)
  ultimately have "bio_inv ?t" using u assms(2) by (simp add: bio_inv_def)
  then show ?thesis using n by (auto simp: refs_def locked_block_def view_def fun_eq_iff)
qed

lemma bio_boot_cache:
  assumes "\<And>b. length (d b) = BSIZE"
  shows "bio_inv (bio_boot d pid)" "refs (bio_boot d pid) = (\<lambda>_. 0)"
    "locked_block (bio_boot d pid) = (\<lambda>_. False)" "view (bio_boot d pid) = d"
    "disk (bio_boot d pid) = d" "writes (bio_boot d pid) = []" "mypid (bio_boot d pid) = pid"
  using fresh_cache [of "\<lparr>bufs = (\<lambda>_. \<lparr>valid = False, dev = 0, blockno = 0, refcnt = 0,
        lock = \<lparr>slocked = False, spid = 0\<rparr>, data = replicate BSIZE 0\<rparr>),
      bprev = (\<lambda>_. head), bnext = (\<lambda>_. head), disk = d, writes = [], mypid = pid\<rparr>"] assms
  unfolding bio_boot_def by simp_all

text \<open>
  C10: reading a block through the cache.  If the block is not locked by anybody, its reference
  count does not overflow, and it is in use or fewer than \<open>NBUF\<close> blocks are, \<open>bread\<close> returns
  a buffer locked by the caller that holds the block's contents; it takes one reference and
  the lock of this block only, keeps the invariant of the cache (in particular the list of
  buffers), and the contents of every block, evicted ones included, stay what they were.
\<close>

theorem bread_correct:
  assumes "bio_inv s" and "\<not> locked_block s b" and "refs s b \<noteq> - 1"
    and "refs s b \<noteq> 0 \<or> card {b. refs s b \<noteq> 0} < NBUF"
  shows "\<exists>i t. bread ROOTDEV b s = Inr (i, t) \<and> bio_inv t \<and> holds t b i \<and> data (bufs t i) = view s b
    \<and> refs t = (refs s)(b := refs s b + 1) \<and> locked_block t = (locked_block s)(b := True)
    \<and> view t = view s \<and> same_disk s t"
  using bread_spec [OF assms] by blast

theorem bread_correct_witness:
  "\<exists>i t. bread ROOTDEV 7 (bio_boot (\<lambda>b. replicate BSIZE (ucast b)) 3) = Inr (i, t)
     \<and> data (bufs t i) = replicate BSIZE 7 \<and> refs t 7 = 1 \<and> refs t 8 = 0"
proof -
  let ?s = "bio_boot (\<lambda>b. replicate BSIZE (ucast b)) 3"
  have "bio_inv ?s" "refs ?s = (\<lambda>_. 0)" "locked_block ?s = (\<lambda>_. False)"
    "view ?s = (\<lambda>b. replicate BSIZE (ucast b))"
    by (rule bio_boot_cache; simp)+
  then show ?thesis using bread_correct [of ?s 7] by (auto simp: NBUF_def)
qed

text \<open>
  C36: the error branch.  When the block is not cached and every buffer is referenced, \<open>bget\<close>
  panics; it never recycles a referenced buffer.
\<close>

theorem bget_no_buffers:
  assumes "bio_inv s" and "cached s b = None" and "\<And>i. i < NBUF \<Longrightarrow> refcnt (bufs s i) \<noteq> 0"
  shows "bget ROOTDEV b s = Inl (Panic ''no buffers'')"
proof -
  let ?P = "\<lambda>i. refcnt (bufs s i) = 0"
  obtain xs where xs: "scan (bnext s) ?P (bnext s head) = Some (find ?P xs)" "set xs = {..<NBUF}"
    using scan_find [OF assms(1)] by blast
  then have "find ?P xs = None" using assms(3) by (auto simp: find_None_iff)
  then show ?thesis unfolding bget_def scan_cached [OF assms(1)] using assms(2) xs by simp
qed

lemma full_cache:
  fixes pid :: u32
  assumes "\<And>b. length (d b) = BSIZE"
  defines "s \<equiv> (bio_boot d pid)\<lparr>bufs := (\<lambda>i. \<lparr>valid = False, dev = ROOTDEV, blockno = of_nat i,
      refcnt = 1, lock = \<lparr>slocked = False, spid = 0\<rparr>, data = replicate BSIZE 0\<rparr>)\<rparr>"
  shows "bio_inv s" and "cached s 100 = None"
proof -
  have "unique_blocks s"
    by (auto simp: s_def unique_blocks_def NBUF_def dest!: arg_cong [of _ _ unat])
  moreover have "\<exists>xs. lru_list s xs \<and> set xs = {..<NBUF}"
    using bio_boot_cache(1) [where d = d and pid = pid, OF assms(1)] by (auto simp: s_def bio_inv_def lru_list_def)
  moreover have "disk (bio_boot d pid) = d" using assms(1) by (rule bio_boot_cache)
  ultimately show "bio_inv s"
    using assms(1) by (simp add: bio_inv_def) (simp add: s_def buf_ok_def Let_def)
  show "cached s 100 = None"
    by (auto simp: s_def cached_None_iff NBUF_def dest!: arg_cong [of _ _ unat])
qed

theorem bget_no_buffers_witness:
  "bget ROOTDEV 100 ((bio_boot (\<lambda>_. replicate BSIZE 0) 3)\<lparr>bufs := (\<lambda>i. \<lparr>valid = False,
      dev = ROOTDEV, blockno = of_nat i, refcnt = 1, lock = \<lparr>slocked = False, spid = 0\<rparr>,
      data = replicate BSIZE 0\<rparr>)\<rparr>)
    = Inl (Panic ''no buffers'')"
  by (rule bget_no_buffers; (rule full_cache)?; simp)

text \<open>
  C37: the cache evicts the most recently used buffer.  After the last reference to a block is
  released, the next miss recycles exactly that buffer, although others may be free.
\<close>

theorem bget_evicts_most_recent:
  assumes "bio_inv s" and "holds s b i" and "refs s b = 1" and "view s b = disk s b"
    and "brelse i s = Inr ((), t)" and "cached s b' = None"
  shows "\<exists>u. bget ROOTDEV b' t = Inr (i, u)"
proof -
  obtain t' where "brelse i s = Inr ((), t')" "bio_inv t'" "cached t' = cached s"
    using brelse_spec [OF assms(1,2)] assms(4) by blast
  then have t: "bio_inv t" "cached t = cached s" using assms(5) by simp_all
  have at: "i < NBUF" "refcnt (bufs s i) = 1"
    using assms(1-3) bio_inv_cached [OF assms(1), of b i] by (simp_all add: holds_def refs_def)
  then have h: "bnext t head = i" "refcnt (bufs t i) = 0" "i \<noteq> head"
    using assms(5) by (auto simp: brelse_def Let_def link_front_def head_def split: if_splits)
  then have "scan (bnext t) (\<lambda>i. refcnt (bufs t i) = 0) (bnext t head) = Some (Some i)"
    by (subst scan.simps) simp
  moreover have "\<not> slocked (lock (bufs t i))"
    using t(1) at(1) h(2) by (auto simp: bio_inv_def buf_ok_def Let_def)
  ultimately show ?thesis
    unfolding bget_def scan_cached [OF t(1)]
    using assms(6) t(2) by (simp add: kbind_def lock_buf_def sleep_acquire_def)
qed

theorem bget_evicts_most_recent_witness:
  "\<exists>i s t u. bread ROOTDEV 7 (bio_boot (\<lambda>_. replicate BSIZE 0) 3) = Inr (i, s)
     \<and> brelse i s = Inr ((), t) \<and> bget ROOTDEV 8 t = Inr (i, u)"
proof -
  let ?s = "bio_boot (\<lambda>_. replicate BSIZE 0) 3"
  note boot = bio_boot_cache [of "\<lambda>_. replicate BSIZE 0" 3, simplified]
  have none: "cached ?s 8 = None" by (simp add: cached_None_iff bio_boot_def ROOTDEV_def)
  from bread_spec [of ?s 7] boot none obtain i s where b: "bread ROOTDEV 7 ?s = Inr (i, s)"
    and s: "bio_inv s" "holds s 7 i" "refs s = (\<lambda>_. 0)(7 := 1)" "view s = (\<lambda>_. replicate BSIZE 0)"
      "disk s = (\<lambda>_. replicate BSIZE 0)" "cached s 8 = None"
    by (auto simp: NBUF_def same_disk_def)
  from brelse_spec [OF s(1,2)] s(4,5) obtain t where "brelse i s = Inr ((), t)" by auto
  then show ?thesis using b s bget_evicts_most_recent [OF s(1,2), of t 8] by auto
qed

end
