(* ===== verification/Log.thy ===== *)
theory Log
  imports Bio
begin

text \<open>
  \<open>kernel/log.cpp\<close>: the write-ahead log on top of the buffer cache.  The in-memory log
  header \<open>log.lh\<close> has a signed count and a block array of \<open>LOGSIZE\<close> entries; an index beyond
  it faults.  \<open>begin_op\<close> that has to wait faults with \<open>Sleeps\<close>.  The central result is the
  crash safety of \<open>commit\<close>: the disk writes it makes may stop after any prefix, and
  \<open>recover\<close> on the disk left behind gives the data area before or after the transaction.
\<close>

section \<open>The operations\<close>

definition LOGSIZE :: nat where [layout_simps]: "LOGSIZE = 30"
definition MAXOPBLOCKS :: u32 where [layout_simps]: "MAXOPBLOCKS = 10"

text \<open>
  The blocks for copies behind the header: \<open>mkfs\<close> reserves \<open>LOGSIZE\<close> blocks for the log,
  the first of which is the header.
\<close>

definition NCOPY :: nat where [layout_simps]: "NCOPY = LOGSIZE - 1"

lemma NCOPY_LOGSIZE [simp]:
  "n \<le> NCOPY \<Longrightarrow> n \<le> LOGSIZE" "n < NCOPY \<Longrightarrow> n < LOGSIZE" "i \<le> int NCOPY \<Longrightarrow> i \<le> int LOGSIZE"
  "i < int NCOPY \<Longrightarrow> i < int LOGSIZE"
  by (simp_all add: NCOPY_def LOGSIZE_def)

record log_state = bio_state +
  lstart :: u32
  lsize :: u32
  outstanding :: u32
  committing :: bool
  ldev :: u32
  lh_n :: int
  lh_block :: "u32 list"

definition lh_block_at :: "nat \<Rightarrow> ('a log_state_scheme, u32) kop" where
  "lh_block_at k = (\<lambda>s. if k < LOGSIZE then Inr (lh_block s ! k, s) else Inl (Oob ''log.lh.block''))"

text \<open>The header block: the count at offset 0, the block numbers from offset 4 on.\<close>

definition hdr_n :: "bytes \<Rightarrow> int" where
  "hdr_n d = sint (get_u32 d 0)"

definition hdr_block :: "bytes \<Rightarrow> nat \<Rightarrow> u32" where
  "hdr_block d k = get_u32 d (4 + 4 * k)"

definition hdr_put :: "int \<Rightarrow> u32 list \<Rightarrow> bytes \<Rightarrow> bytes" where
  "hdr_put n bl d = fold (\<lambda>k d. put_u32 d (4 + 4 * k) (bl ! k)) [0..<nat n] (put_u32 d 0 (of_int n))"

definition rhead :: "('a log_state_scheme, unit) kop" where
  "rhead = kbind (\<lambda>s. bread (ldev s) (lstart s) s) (\<lambda>i s.
     let d = data (bufs s i); n = hdr_n d in
     if LOGSIZE < nat n then Inl (Oob ''log.lh.block'')
     else brelse i (s\<lparr>lh_n := n,
            lh_block := fold (\<lambda>k l. l[k := hdr_block d k]) [0..<nat n] (lh_block s)\<rparr>))"

definition whead :: "('a log_state_scheme, unit) kop" where
  "whead = kbind (\<lambda>s. bread (ldev s) (lstart s) s) (\<lambda>i s.
     if LOGSIZE < nat (lh_n s) then Inl (Oob ''log.lh.block'')
     else kthen (bmod i (hdr_put (lh_n s) (lh_block s))) (kthen (bwrite i) (brelse i)) s)"

definition install_one :: "bool \<Rightarrow> nat \<Rightarrow> ('a log_state_scheme, unit) kop" where
  "install_one recovering k =
     kbind (\<lambda>s. bread (ldev s) (lstart s + of_nat k + 1) s) (\<lambda>lbuf.
     kbind (lh_block_at k) (\<lambda>b.
     kbind (\<lambda>s. bread (ldev s) b s) (\<lambda>dbuf.
     kbind (kgets (\<lambda>s. data (bufs s lbuf))) (\<lambda>d.
     kthen (bmod dbuf (\<lambda>_. d))
     (kthen (bwrite dbuf)
     (kthen (kwhen recovering (bwrite dbuf))
     (kthen (brelse lbuf) (brelse dbuf))))))))"

definition install_trans :: "bool \<Rightarrow> ('a log_state_scheme, unit) kop" where
  "install_trans recovering = (\<lambda>s. kfor (install_one recovering) [0..<nat (lh_n s)] s)"

definition recover :: "('a log_state_scheme, unit) kop" where
  "recover = kthen rhead (kthen (install_trans True)
     (kthen (kmodify (\<lambda>s. s\<lparr>lh_n := 0\<rparr>)) whead))"

definition log_init :: "u32 \<Rightarrow> u32 \<Rightarrow> u32 \<Rightarrow> ('a log_state_scheme, unit) kop" where
  "log_init d logstart nlog =
     kthen (kmodify (\<lambda>s. s\<lparr>lstart := logstart, lsize := nlog, ldev := d\<rparr>)) recover"

definition write_one :: "nat \<Rightarrow> ('a log_state_scheme, unit) kop" where
  "write_one tail =
     kbind (\<lambda>s. bread (ldev s) (lstart s + of_nat tail + 1) s) (\<lambda>to.
     kbind (lh_block_at tail) (\<lambda>b.
     kbind (\<lambda>s. bread (ldev s) b s) (\<lambda>from.
     kbind (kgets (\<lambda>s. data (bufs s from))) (\<lambda>d.
     kthen (bmod to (\<lambda>_. d))
     (kthen (bwrite to)
     (kthen (brelse from) (brelse to)))))))"

definition write_log :: "('a log_state_scheme, unit) kop" where
  "write_log = (\<lambda>s. kfor write_one [0..<nat (lh_n s)] s)"

definition commit :: "('a log_state_scheme, unit) kop" where
  "commit = (\<lambda>s. if lh_n s > 0 then
       kthen write_log (kthen whead (kthen (install_trans False)
         (kthen (kmodify (\<lambda>s. s\<lparr>lh_n := 0\<rparr>)) whead))) s
     else Inr ((), s))"

text \<open>
  \<open>log.lh.n + (log.outstanding + 1) * MAXOPBLOCKS > LOGSIZE\<close> is evaluated in \<open>uint32_t\<close>.
\<close>

definition begin_op :: "('a log_state_scheme, unit) kop" where
  "begin_op = (\<lambda>s.
     if committing s then Inl (Sleeps ''log'')
     else if of_int (lh_n s) + (outstanding s + 1) * MAXOPBLOCKS > of_nat LOGSIZE then Inl (Sleeps ''log'')
     else Inr ((), s\<lparr>outstanding := outstanding s + 1\<rparr>))"

definition end_op :: "('a log_state_scheme, unit) kop" where
  "end_op = (\<lambda>s.
     let s1 = s\<lparr>outstanding := outstanding s - 1\<rparr> in
     if committing s1 then Inl (Panic ''log::end_op: log committing'')
     else if outstanding s1 = 0 then
       kthen commit (kmodify (\<lambda>s. s\<lparr>committing := False\<rparr>)) (s1\<lparr>committing := True\<rparr>)
     else Inr ((), s1))"

text \<open>The first index below \<open>n\<close> whose entry is \<open>b\<close>, else \<open>n\<close>.\<close>

definition log_slot :: "u32 list \<Rightarrow> nat \<Rightarrow> u32 \<Rightarrow> nat" where
  "log_slot bl n b = (case find (\<lambda>i. bl ! i = b) [0..<n] of None \<Rightarrow> n | Some i \<Rightarrow> i)"

definition lwrite :: "nat \<Rightarrow> ('a log_state_scheme, unit) kop" where
  "lwrite i = (\<lambda>s.
     if lh_n s \<ge> int LOGSIZE \<or> lh_n s \<ge> sint (lsize s) - 1 then Inl (Panic ''too big a transaction'')
     else if outstanding s < 1 then Inl (Panic ''log_write outside of trans'')
     else let b = blockno (bufs s i); k = log_slot (lh_block s) (nat (lh_n s)) b;
              s1 = s\<lparr>lh_block := (lh_block s)[k := b]\<rparr>
          in Inr ((), if int k = lh_n s then (bpin i s1)\<lparr>lh_n := lh_n s1 + 1\<rparr> else s1))"

section \<open>Header blocks\<close>

lemma length_hdr_put [simp]: "length (hdr_put n bl d) = length d"
proof -
  have "length (fold (\<lambda>k d. put_u32 d (4 + 4 * k) (bl ! k)) ks d) = length d" for ks d
    by (induction ks arbitrary: d) auto
  then show ?thesis by (simp add: hdr_put_def)
qed

lemma hdr_put_get:
  assumes "length d = BSIZE" and "n \<le> LOGSIZE"
  shows "hdr_n (hdr_put (int n) bl d) = int n" and "k < n \<Longrightarrow> hdr_block (hdr_put (int n) bl d) k = bl ! k"
proof -
  let ?f = "\<lambda>n. fold (\<lambda>k d. put_u32 d (4 + 4 * k) (bl ! k)) [0..<n]"
  have len: "length (?f n d) = length d" for n d by (induction n arbitrary: d) auto
  have "get_u32 (?f m e) 0 = get_u32 e 0" for m e by (induction m) auto
  moreover have "get_u32 (put_u32 d 0 (of_int (int n))) 0 = of_int (int n)"
    using assms by (simp add: BSIZE_def)
  moreover have "sint (of_int (int n) :: u32) = int n"
    using assms(2) by (simp add: LOGSIZE_def signed_of_nat signed_take_bit_int_eq_self)
  ultimately show "hdr_n (hdr_put (int n) bl d) = int n"
    by (simp add: hdr_n_def hdr_put_def)
  have "get_u32 (?f m e) (4 + 4 * k) = bl ! k" if "k < m" "m \<le> n" "length e = BSIZE" for m e
    using that
  proof (induction m)
    case (Suc m)
    then show ?case using assms(2) by (cases "k = m") (auto simp: len BSIZE_def LOGSIZE_def)
  qed simp
  then show "k < n \<Longrightarrow> hdr_block (hdr_put (int n) bl d) k = bl ! k"
    using assms by (simp add: hdr_block_def hdr_put_def)
qed

section \<open>Sequences of disk writes\<close>

definition apply_writes :: "(u32 \<times> bytes) list \<Rightarrow> (u32 \<Rightarrow> bytes) \<Rightarrow> u32 \<Rightarrow> bytes" where
  "apply_writes ws m = fold (\<lambda>(b, d) m. m(b := d)) ws m"

lemma apply_writes_Nil [simp]: "apply_writes [] m = m"
  by (simp add: apply_writes_def)

lemma apply_writes_append: "apply_writes (xs @ ys) m = apply_writes ys (apply_writes xs m)"
  by (simp add: apply_writes_def)

lemma apply_writes_snoc [simp]: "apply_writes (xs @ [(b, d)]) m = (apply_writes xs m)(b := d)"
  by (simp add: apply_writes_def)

lemma apply_writes_Cons [simp]: "apply_writes ((b, d) # ws) m = apply_writes ws (m(b := d))"
  by (simp add: apply_writes_def)

lemma apply_writes_other: "b \<notin> fst ` set ws \<Longrightarrow> apply_writes ws m b = m b"
  by (induction ws rule: rev_induct) auto

lemma apply_writes_map:
  assumes "distinct (map f [0..<n])" and "k < n"
  shows "apply_writes (map (\<lambda>k. (f k, g k)) [0..<n]) m (f k) = g k"
  using assms
proof (induction n)
  case (Suc n)
  show ?case
  proof (cases "k = n")
    case False
    then have "k < n" using Suc.prems(2) by simp
    moreover have "f k \<noteq> f n" using Suc.prems(1) \<open>k < n\<close> by (auto simp: image_def dest!: bspec [of _ _ k])
    ultimately show ?thesis using Suc by simp
  qed simp
qed simp

lemma apply_writes_twice:
  "apply_writes (concat (map (\<lambda>k. [(f k, g k), (f k, g k)]) [0..<n])) m
   = apply_writes (map (\<lambda>k. (f k, g k)) [0..<n]) m"
  by (induction n) (simp_all add: apply_writes_append)

section \<open>The effect of the log operations on the blocks\<close>

text \<open>
  A state in which the log can work: the cache invariant holds, no block is locked, no
  reference count is at its limit, and two more blocks can be read.
\<close>

definition quiet :: "'a log_state_scheme \<Rightarrow> bool" where
  "quiet s \<longleftrightarrow> bio_inv s \<and> ldev s = ROOTDEV \<and> length (lh_block s) = LOGSIZE
     \<and> 0 \<le> lh_n s \<and> lh_n s \<le> int NCOPY
     \<and> locked_block s = (\<lambda>_. False) \<and> (\<forall>b. refs s b \<noteq> - 1)
     \<and> card {b. refs s b \<noteq> 0} + 2 \<le> NBUF"

text \<open>
  \<open>t\<close> is \<open>s\<close> after the disk writes \<open>ws\<close>: cache contents and disk have received them, nothing
  else of the cache and of the log header has changed.
\<close>

definition wrote :: "(u32 \<times> bytes) list \<Rightarrow> 'a log_state_scheme \<Rightarrow> 'a log_state_scheme \<Rightarrow> bool" where
  "wrote ws s t \<longleftrightarrow> bio_inv t \<and> refs t = refs s \<and> locked_block t = locked_block s
     \<and> view t = apply_writes ws (view s) \<and> disk t = apply_writes ws (disk s)
     \<and> writes t = writes s @ ws \<and> mypid t = mypid s \<and> bio_state.more t = bio_state.more s"

lemma more_eqD:
  assumes "bio_state.more t = bio_state.more (s :: 'a log_state_scheme)"
  shows "lstart t = lstart s" "lsize t = lsize s" "outstanding t = outstanding s"
    "committing t = committing s" "ldev t = ldev s" "lh_n t = lh_n s" "lh_block t = lh_block s"
    "log_state.more t = log_state.more s"
  using assms by (cases s; cases t; simp)+

lemma wrote_quiet: "wrote ws s t \<Longrightarrow> quiet s \<Longrightarrow> quiet t"
  using more_eqD [of t s] by (simp add: wrote_def quiet_def)

lemma wrote_refl: "bio_inv s \<Longrightarrow> wrote [] s s"
  by (simp add: wrote_def)

lemma wrote_trans: "wrote xs s t \<Longrightarrow> wrote ys t u \<Longrightarrow> wrote (xs @ ys) s u"
  by (simp add: wrote_def apply_writes_append)

lemma card_insert_busy:
  assumes "bio_inv s"
  shows "card {b. ((refs s)(x := v)) b \<noteq> 0} \<le> card {b. refs s b \<noteq> 0} + 1"
proof -
  have "{b. ((refs s)(x := v)) b \<noteq> 0} \<subseteq> insert x {b. refs s b \<noteq> 0}" by auto
  then have "card {b. ((refs s)(x := v)) b \<noteq> 0} \<le> card (insert x {b. refs s b \<noteq> 0})"
    using finite_busy [OF assms] by (intro card_mono) auto
  also have "\<dots> \<le> card {b. refs s b \<noteq> 0} + 1" by (simp add: card_insert_if finite_busy [OF assms])
  finally show ?thesis .
qed

text \<open>Two different blocks can be locked one after the other.\<close>

lemma bread_two:
  assumes q: "quiet s" and ab: "a \<noteq> b"
  obtains i j t u where "bread ROOTDEV a s = Inr (i, t)" and "bread ROOTDEV b t = Inr (j, u)"
    and "bio_state.more t = bio_state.more s" and "bio_inv u" and "holds u a i" and "holds u b j"
    and "refs u = (refs s)(a := refs s a + 1, b := refs s b + 1)"
    and "locked_block u = (\<lambda>_. False)(a := True, b := True)"
    and "view u = view s" and "same_disk s u"
proof -
  have inv: "bio_inv s" and unl: "locked_block s = (\<lambda>_. False)" and nm: "refs s x \<noteq> - 1"
    and room: "card {b. refs s b \<noteq> 0} + 2 \<le> NBUF" for x
    using q by (simp_all add: quiet_def)
  obtain i t where r1: "bread ROOTDEV a s = Inr (i, t)" and t: "bio_inv t" "holds t a i"
    "refs t = (refs s)(a := refs s a + 1)" "locked_block t = (locked_block s)(a := True)"
    "view t = view s" "same_disk s t"
    using bread_spec [OF inv, of a] unl nm room by auto
  have "card {b. refs t b \<noteq> 0} < NBUF"
    using card_insert_busy [OF inv, of a "refs s a + 1"] room unfolding t(3) by simp
  then obtain j u where r2: "bread ROOTDEV b t = Inr (j, u)" and u: "bio_inv u" "holds u b j"
    "refs u = (refs t)(b := refs t b + 1)" "locked_block u = (locked_block t)(b := True)"
    "view u = view t" "same_disk t u" "keeps b t u"
    using bread_spec [OF t(1), of b] unl nm t(3,4) ab by auto
  have "holds u a i" using keepsD [OF u(7)] t(2) ab by simp
  moreover have "same_disk s u" using t(6) u(6) by (rule same_disk_trans)
  moreover have "bio_state.more t = bio_state.more s" using t(6) by (rule same_diskD)
  ultimately show thesis
    using that [OF r1 r2] t u ab unl by (simp add: fun_upd_def)
qed

lemma brelse_two:
  assumes inv: "bio_inv s" and h: "holds s a i" "holds s b j" and ab: "a \<noteq> b"
    and clean: "refs s a = 1 \<Longrightarrow> view s a = disk s a" "refs s b = 1 \<Longrightarrow> view s b = disk s b"
  obtains t where "kthen (brelse i) (brelse j) s = Inr ((), t)" and "bio_inv t"
    and "refs t = (refs s)(a := refs s a - 1, b := refs s b - 1)"
    and "locked_block t = (locked_block s)(a := False, b := False)"
    and "view t = view s" and "same_disk s t"
proof -
  obtain t where t: "brelse i s = Inr ((), t)" "bio_inv t" "refs t = (refs s)(a := refs s a - 1)"
    "locked_block t = (locked_block s)(a := False)" "view t = view s" "same_disk s t" "keeps a s t"
    using brelse_spec [OF inv h(1)] clean(1) by blast
  have "holds t b j" using keepsD [OF t(7)] h(2) ab by simp
  moreover have "refs t b = 1 \<Longrightarrow> view t b = disk t b"
    using clean(2) t(3,5) ab same_diskD(1) [OF t(6)] by simp
  ultimately obtain u where u: "brelse j t = Inr ((), u)" "bio_inv u" "refs u = (refs t)(b := refs t b - 1)"
    "locked_block u = (locked_block t)(b := False)" "view u = view t" "same_disk t u"
    using brelse_spec [OF t(2)] by blast
  have "same_disk s u" using t(6) u(6) by (rule same_disk_trans)
  then show thesis using that t u ab by (simp add: kbind_def)
qed

lemma bmod_bwrite:
  assumes inv: "bio_inv s" and h: "holds s b i" and len: "length (f (view s b)) = BSIZE"
  obtains t where "kthen (bmod i f) (bwrite i) s = Inr ((), t)" and "bio_inv t" and "holds t b i"
    and "view t = (view s)(b := f (view s b))" and "disk t = (disk s)(b := f (view s b))"
    and "writes t = writes s @ [(b, f (view s b))]" and "refs t = refs s"
    and "locked_block t = locked_block s" and "keeps b s t" and "mypid t = mypid s"
    and "bio_state.more t = bio_state.more s"
proof -
  obtain t where t: "bmod i f s = Inr ((), t)" "bio_inv t" "holds t b i"
    "view t = (view s)(b := f (view s b))" "refs t = refs s" "locked_block t = locked_block s"
    "same_disk s t" "keeps b s t"
    using bmod_spec [where f = f, OF inv h len] by blast
  obtain u where u: "bwrite i t = Inr ((), u)" "bio_inv u" "holds u b i"
    "disk u = (disk t)(b := view t b)" "writes u = writes t @ [(b, view t b)]" "refs u = refs t"
    "locked_block u = locked_block t" "view u = view t" "keeps b t u" "mypid u = mypid t"
    "bio_state.more u = bio_state.more t"
    using bwrite_spec [OF t(2,3)] by blast
  have "keeps b s u" using t(8) u(9) by (rule keeps_trans)
  then show thesis
    using that t u same_diskD [OF t(7)] by (simp add: kbind_def)
qed

lemma view_length: "bio_inv s \<Longrightarrow> length (view s b) = BSIZE"
  by (auto simp: view_def bio_inv_cached bio_inv_def buf_ok_def Let_def split: option.splits)

lemma fun_upd_back [simp]: "m b = v \<Longrightarrow> (m(b := w))(b := v) = m"
  by (auto simp: fun_eq_iff)

text \<open>
  Copying block \<open>a\<close> to block \<open>b\<close> with both locked and writing \<open>b\<close> out, once or (in
  recovery) twice.
\<close>

lemma bwrite_again:
  assumes inv: "bio_inv s" and h: "holds s b i" and vd: "view s b = disk s b"
  obtains t where "kwhen r (bwrite i) s = Inr ((), t)" and "bio_inv t" and "holds t b i"
    and "view t = view s" and "disk t = disk s"
    and "writes t = writes s @ (if r then [(b, view s b)] else [])" and "refs t = refs s"
    and "locked_block t = locked_block s" and "keeps b s t" and "mypid t = mypid s"
    and "bio_state.more t = bio_state.more s"
proof (cases r)
  case True
  then show ?thesis using bwrite_spec [OF inv h] vd that by (auto simp: fun_upd_idem)
next
  case False
  then show ?thesis using that [of s] inv h by (simp add: keeps_def)
qed

lemma copy_blocks:
  assumes q: "quiet s" and ab: "a \<noteq> b"
    and u: "bio_inv u" "holds u a i" "holds u b j"
      "refs u = (refs s)(a := refs s a + 1, b := refs s b + 1)"
      "locked_block u = (\<lambda>_. False)(a := True, b := True)" "view u = view s" "same_disk s u"
    and clean: "refs s a = 0 \<Longrightarrow> view s a = disk s a"
  obtains t where "kthen (bmod j (\<lambda>_. view s a)) (kthen (bwrite j)
      (kthen (kwhen r (bwrite j)) (kthen (brelse i) (brelse j)))) u = Inr ((), t)"
    and "wrote ((b, view s a) # (if r then [(b, view s a)] else [])) s t"
proof -
  have len: "length (view s a) = BSIZE" using q by (simp add: quiet_def view_length)
  obtain x where x: "kthen (bmod j (\<lambda>_. view s a)) (bwrite j) u = Inr ((), x)" "bio_inv x" "holds x b j"
    "view x = (view u)(b := view s a)" "disk x = (disk u)(b := view s a)"
    "writes x = writes u @ [(b, view s a)]" "refs x = refs u" "locked_block x = locked_block u"
    "keeps b u x" "mypid x = mypid u" "bio_state.more x = bio_state.more u"
    using bmod_bwrite [OF u(1,3), of "\<lambda>_. view s a"] len by auto
  obtain v where v: "kwhen r (bwrite j) x = Inr ((), v)" "bio_inv v" "holds v b j"
    "view v = view x" "disk v = disk x" "writes v = writes x @ (if r then [(b, view x b)] else [])"
    "refs v = refs x" "locked_block v = locked_block x" "keeps b x v" "mypid v = mypid x"
    "bio_state.more v = bio_state.more x"
    using bwrite_again [OF x(2,3)] x(4,5) by auto
  note sd = same_diskD [OF u(7)]
  have ha: "holds v a i" using keepsD [OF v(9)] keepsD [OF x(9)] u(2) ab by simp
  have "refs v a = 1 \<Longrightarrow> view v a = disk v a"
    using clean v(4,5,7) x(4,5,7) u(4,6) ab sd by simp
  moreover have "view v b = disk v b" using v(4,5) x(4,5) by simp
  ultimately obtain t where t: "kthen (brelse i) (brelse j) v = Inr ((), t)" "bio_inv t"
    "refs t = (refs v)(a := refs v a - 1, b := refs v b - 1)"
    "locked_block t = (locked_block v)(a := False, b := False)" "view t = view v" "same_disk v t"
    using brelse_two [OF v(2) ha v(3) ab] by blast
  note sd' = same_diskD [OF t(6)]
  have "refs t = refs s" using t(3) v(7) x(7) u(4) ab by (auto simp: fun_eq_iff)
  moreover have "locked_block t = locked_block s"
    using t(4) v(8) x(8) u(5) q by (auto simp: fun_eq_iff quiet_def)
  ultimately have "wrote ((b, view s a) # (if r then [(b, view s a)] else [])) s t"
    using t v x u sd sd' by (simp add: wrote_def apply_writes_def)
  moreover have "kthen (bmod j (\<lambda>_. view s a)) (kthen (bwrite j)
      (kthen (kwhen r (bwrite j)) (kthen (brelse i) (brelse j)))) u = Inr ((), t)"
  proof -
    obtain y where "bmod j (\<lambda>_. view s a) u = Inr ((), y)" "bwrite j y = Inr ((), x)"
      using x(1) by (auto simp: kbind_eq_Inr)
    then show ?thesis using v(1) t(1) by (simp add: kbind_Inr)
  qed
  ultimately show thesis using that by blast
qed

lemma write_one_spec:
  assumes q: "quiet s" and k: "k < LOGSIZE"
    and ab: "lh_block s ! k \<noteq> lstart s + of_nat k + 1" and pin: "refs s (lh_block s ! k) \<noteq> 0"
  shows "\<exists>t. write_one k s = Inr ((), t)
    \<and> wrote [(lstart s + of_nat k + 1, view s (lh_block s ! k))] s t"
proof -
  let ?b = "lstart s + of_nat k + 1" and ?a = "lh_block s ! k"
  obtain j i t u where r: "bread ROOTDEV ?b s = Inr (j, t)" "bread ROOTDEV ?a t = Inr (i, u)"
    and m: "bio_state.more t = bio_state.more s"
    and u: "bio_inv u" "holds u ?b j" "holds u ?a i"
      "refs u = (refs s)(?b := refs s ?b + 1, ?a := refs s ?a + 1)"
      "locked_block u = (\<lambda>_. False)(?b := True, ?a := True)" "view u = view s" "same_disk s u"
    using bread_two [OF q, of ?b ?a] ab by metis
  have u': "refs u = (refs s)(?a := refs s ?a + 1, ?b := refs s ?b + 1)"
    "locked_block u = (\<lambda>_. False)(?a := True, ?b := True)"
    using u(4,5) ab by (auto simp: fun_eq_iff)
  obtain v where v: "kthen (bmod j (\<lambda>_. view s ?a)) (kthen (bwrite j) (kthen (brelse i) (brelse j))) u
      = Inr ((), v)" "wrote [(?b, view s ?a)] s v"
    using copy_blocks [OF q _ u(1,3,2) u' u(6,7), where r = False] ab pin by auto
  have "ldev s = ROOTDEV" "ldev t = ROOTDEV" "lh_block t = lh_block s"
    using q more_eqD [OF m] by (simp_all add: quiet_def)
  moreover have "data (bufs u i) = view s ?a" using holds_data [OF u(3)] u(6) by simp
  ultimately have "write_one k s = Inr ((), v)"
    using r v(1) k by (simp add: write_one_def lh_block_at_def kbind_Inr)
  then show ?thesis using v(2) by blast
qed

lemma install_one_spec:
  assumes q: "quiet s" and k: "k < LOGSIZE"
    and ab: "lh_block s ! k \<noteq> lstart s + of_nat k + 1"
    and clean: "view s (lstart s + of_nat k + 1) = disk s (lstart s + of_nat k + 1)"
  defines "w \<equiv> (lh_block s ! k, view s (lstart s + of_nat k + 1))"
  shows "\<exists>t. install_one r k s = Inr ((), t) \<and> wrote (w # (if r then [w] else [])) s t"
proof -
  let ?a = "lstart s + of_nat k + 1" and ?b = "lh_block s ! k"
  obtain i j t u where r: "bread ROOTDEV ?a s = Inr (i, t)" "bread ROOTDEV ?b t = Inr (j, u)"
    and m: "bio_state.more t = bio_state.more s"
    and u: "bio_inv u" "holds u ?a i" "holds u ?b j"
      "refs u = (refs s)(?a := refs s ?a + 1, ?b := refs s ?b + 1)"
      "locked_block u = (\<lambda>_. False)(?a := True, ?b := True)" "view u = view s" "same_disk s u"
    using bread_two [OF q, of ?a ?b] ab by metis
  obtain v where v: "kthen (bmod j (\<lambda>_. view s ?a)) (kthen (bwrite j)
      (kthen (kwhen r (bwrite j)) (kthen (brelse i) (brelse j)))) u = Inr ((), v)"
    "wrote (w # (if r then [w] else [])) s v"
    using copy_blocks [OF q _ u, where r = r] ab clean unfolding w_def by metis
  have "ldev s = ROOTDEV" "ldev t = ROOTDEV" "lh_block t = lh_block s"
    using q more_eqD [OF m] by (simp_all add: quiet_def)
  moreover have "data (bufs u i) = view s ?a" using holds_data [OF u(2)] u(6) by simp
  ultimately have "install_one r k s = Inr ((), v)"
    using r v(1) k by (simp add: install_one_def lh_block_at_def kbind_Inr)
  then show ?thesis using v(2) by blast
qed

text \<open>The log area: the header block and the blocks that hold the copies.\<close>

definition log_copy :: "'a log_state_scheme \<Rightarrow> nat \<Rightarrow> u32" where
  "log_copy s k = lstart s + of_nat k + 1"

definition log_area :: "'a log_state_scheme \<Rightarrow> u32 set" where
  "log_area s = insert (lstart s) (log_copy s ` {..<NCOPY})"

lemma log_copy_inj: "j < LOGSIZE \<Longrightarrow> k < LOGSIZE \<Longrightarrow> log_copy s j = log_copy s k \<longleftrightarrow> j = k"
  by (auto simp: log_copy_def LOGSIZE_def dest!: arg_cong [of _ _ unat])

lemma log_copy_start: "k < LOGSIZE \<Longrightarrow> log_copy s k \<noteq> lstart s"
proof -
  assume "k < LOGSIZE"
  then have "unat (of_nat (Suc k) :: u32) = Suc k" by (intro unat_of_nat_lt) (simp add: LOGSIZE_def)
  then have "(of_nat (Suc k) :: u32) \<noteq> 0" by (metis nat.distinct(1) unat_0)
  then show ?thesis by (simp add: log_copy_def add.assoc add.commute)
qed

definition nblocks :: "'a log_state_scheme \<Rightarrow> nat" where
  "nblocks s = nat (lh_n s)"

text \<open>The blocks in the header are data blocks, each listed once.\<close>

definition log_ok :: "'a log_state_scheme \<Rightarrow> bool" where
  "log_ok s \<longleftrightarrow> distinct (take (nblocks s) (lh_block s))
     \<and> (\<forall>k < nblocks s. lh_block s ! k \<notin> log_area s)"

lemma log_okD:
  assumes "quiet s" and "log_ok s"
  shows "nblocks s \<le> NCOPY"
    and "k < nblocks s \<Longrightarrow> lh_block s ! k \<noteq> lstart s"
    and "k < nblocks s \<Longrightarrow> j < NCOPY \<Longrightarrow> lh_block s ! k \<noteq> log_copy s j"
    and "distinct (map (\<lambda>k. lh_block s ! k) [0..<nblocks s])"
proof -
  show n: "nblocks s \<le> NCOPY" using assms(1) by (auto simp: quiet_def nblocks_def)
  show "k < nblocks s \<Longrightarrow> lh_block s ! k \<noteq> lstart s"
    "k < nblocks s \<Longrightarrow> j < NCOPY \<Longrightarrow> lh_block s ! k \<noteq> log_copy s j"
    using assms(2) by (auto simp: log_ok_def log_area_def)
  have "map (\<lambda>k. lh_block s ! k) [0..<nblocks s] = take (nblocks s) (lh_block s)"
    using n assms(1) by (intro nth_equalityI) (auto simp: quiet_def)
  then show "distinct (map (\<lambda>k. lh_block s ! k) [0..<nblocks s])" using assms(2) by (simp add: log_ok_def)
qed

lemma wrote_log:
  assumes "wrote ws s t"
  shows "log_copy t = log_copy s" "log_area t = log_area s" "nblocks t = nblocks s"
    "lh_block t = lh_block s" "lstart t = lstart s" "lh_n t = lh_n s" "log_ok t = log_ok s"
  using assms more_eqD [of t s]
  by (simp_all add: wrote_def log_copy_def fun_eq_iff log_area_def nblocks_def log_ok_def)

lemma whead_spec:
  assumes q: "quiet s"
  defines "h \<equiv> hdr_put (lh_n s) (lh_block s) (view s (lstart s))"
  shows "\<exists>t. whead s = Inr ((), t) \<and> wrote [(lstart s, h)] s t"
proof -
  let ?b = "lstart s"
  have inv: "bio_inv s" and l: "ldev s = ROOTDEV" "nat (lh_n s) \<le> LOGSIZE" "locked_block s = (\<lambda>_. False)"
    using q by (auto simp: quiet_def)
  obtain i t where t: "bread ROOTDEV ?b s = Inr (i, t)" "bio_inv t" "holds t ?b i"
    "refs t = (refs s)(?b := refs s ?b + 1)" "locked_block t = (locked_block s)(?b := True)"
    "view t = view s" "same_disk s t"
    using bread_spec [OF inv, of ?b] q by (auto simp: quiet_def)
  note sd = same_diskD [OF t(7)] and m = more_eqD [OF same_diskD(4) [OF t(7)]]
  let ?f = "hdr_put (lh_n s) (lh_block s)"
  have len: "length (?f (view t ?b)) = BSIZE" using view_length [OF inv] t(6) by simp
  obtain u where u: "kthen (bmod i ?f) (bwrite i) t = Inr ((), u)" "bio_inv u" "holds u ?b i"
    "view u = (view t)(?b := ?f (view t ?b))" "disk u = (disk t)(?b := ?f (view t ?b))"
    "writes u = writes t @ [(?b, ?f (view t ?b))]" "refs u = refs t" "locked_block u = locked_block t"
    "mypid u = mypid t" "bio_state.more u = bio_state.more t"
    using bmod_bwrite [where f = ?f, OF t(2,3) len] by metis
  obtain v where v: "brelse i u = Inr ((), v)" "bio_inv v" "refs v = (refs u)(?b := refs u ?b - 1)"
    "locked_block v = (locked_block u)(?b := False)" "view v = view u" "same_disk u v"
    using brelse_spec [OF u(2,3)] u(4,5) by auto
  note sd' = same_diskD [OF v(6)]
  have "refs v = refs s" "locked_block v = locked_block s"
    using v(3,4) u(7,8) t(4,5) l(3) by (auto simp: fun_eq_iff)
  then have "wrote [(?b, h)] s v" using v u t(6) sd sd' by (simp add: wrote_def h_def)
  moreover have "whead s = Inr ((), v)"
  proof -
    obtain y where "bmod i ?f t = Inr ((), y)" "bwrite i y = Inr ((), u)"
      using u(1) by (auto simp: kbind_eq_Inr)
    then show ?thesis using t(1) v(1) l m by (simp add: whead_def kbind_Inr)
  qed
  ultimately show ?thesis by blast
qed

lemma write_log_spec:
  assumes q: "quiet s" and ok: "log_ok s" and pin: "\<And>k. k < nblocks s \<Longrightarrow> refs s (lh_block s ! k) \<noteq> 0"
  shows "\<exists>t. write_log s = Inr ((), t)
    \<and> wrote (map (\<lambda>k. (log_copy s k, view s (lh_block s ! k))) [0..<nblocks s]) s t"
proof -
  note l = log_okD [OF q ok]
  have "m \<le> nblocks s \<Longrightarrow> \<exists>t. kfor write_one [0..<m] s = Inr ((), t)
    \<and> wrote (map (\<lambda>k. (log_copy s k, view s (lh_block s ! k))) [0..<m]) s t" for m
  proof (induction m)
    case 0
    then show ?case using q wrote_refl by (auto simp: quiet_def)
  next
    case (Suc m)
    then obtain t where t: "kfor write_one [0..<m] s = Inr ((), t)"
      and w: "wrote (map (\<lambda>k. (log_copy s k, view s (lh_block s ! k))) [0..<m]) s t"
      by auto
    note wl = wrote_log [OF w] and qt = wrote_quiet [OF w q]
    let ?b = "lh_block s ! m"
    have m: "m < NCOPY" "m < nblocks s" using Suc.prems l(1) by auto
    have "?b \<notin> log_copy s ` {..<m}" using l(3) [OF m(2)] m(1) by (meson imageE lessThan_iff less_trans)
    then have v: "view t ?b = view s ?b"
      using w by (simp add: wrote_def apply_writes_other image_image lessThan_atLeast0)
    have "refs t = refs s" using w by (simp add: wrote_def)
    then have "\<exists>u. write_one m t = Inr ((), u) \<and> wrote [(log_copy s m, view s ?b)] t u"
      using write_one_spec [OF qt NCOPY_LOGSIZE(2) [OF m(1)]] l(3) [OF m(2,1)] pin [OF m(2)] v wl
      by (simp add: log_copy_def)
    then show ?case using t w wrote_trans by (fastforce simp: kfor_append kbind_Inr)
  qed
  then show ?thesis by (auto simp: write_log_def nblocks_def)
qed

definition install_writes :: "bool \<Rightarrow> 'a log_state_scheme \<Rightarrow> nat \<Rightarrow> (u32 \<times> bytes) list" where
  "install_writes r s m = concat (map (\<lambda>k. let w = (lh_block s ! k, view s (log_copy s k))
     in w # (if r then [w] else [])) [0..<m])"

lemma install_trans_spec:
  assumes q: "quiet s" and ok: "log_ok s"
    and clean: "\<And>k. k < nblocks s \<Longrightarrow> view s (log_copy s k) = disk s (log_copy s k)"
  shows "\<exists>t. install_trans r s = Inr ((), t) \<and> wrote (install_writes r s (nblocks s)) s t"
proof -
  note l = log_okD [OF q ok]
  have "m \<le> nblocks s \<Longrightarrow> \<exists>t. kfor (install_one r) [0..<m] s = Inr ((), t)
    \<and> wrote (install_writes r s m) s t" for m
  proof (induction m)
    case 0
    then show ?case using q wrote_refl by (auto simp: quiet_def install_writes_def)
  next
    case (Suc m)
    then obtain t where t: "kfor (install_one r) [0..<m] s = Inr ((), t)"
      and w: "wrote (install_writes r s m) s t" by auto
    note wl = wrote_log [OF w] and qt = wrote_quiet [OF w q]
    have m: "m < NCOPY" "m < nblocks s" using Suc.prems l(1) by auto
    have "log_copy s m \<notin> (\<lambda>x. lh_block s ! x) ` {..<m}"
      using l(3) [OF _ m(1)] m(2) by (metis (no_types, lifting) imageE lessThan_iff less_trans)
    then have "log_copy s m \<notin> fst ` set (install_writes r s m)"
      by (auto simp: image_iff install_writes_def Let_def split: if_splits)
    then have v: "view t (log_copy s m) = view s (log_copy s m)"
      "disk t (log_copy s m) = disk s (log_copy s m)"
      using w by (auto simp: wrote_def intro!: apply_writes_other)
    let ?w = "(lh_block s ! m, view s (log_copy s m))"
    have "\<exists>u. install_one r m t = Inr ((), u) \<and> wrote (?w # (if r then [?w] else [])) t u"
      using install_one_spec [OF qt NCOPY_LOGSIZE(2) [OF m(1)], of r] l(3) [OF m(2,1)] clean [OF m(2)] v wl
      by (cases r) (simp_all add: log_copy_def)
    then obtain u where u: "install_one r m t = Inr ((), u)" "wrote (?w # (if r then [?w] else [])) t u"
      by blast
    have "install_writes r s (Suc m) = install_writes r s m @ ?w # (if r then [?w] else [])"
      by (simp add: install_writes_def Let_def)
    then show ?case using t u wrote_trans [OF w u(2)] by (auto simp: kfor_append kbind_Inr)
  qed
  then show ?thesis by (auto simp: install_trans_def nblocks_def)
qed

section \<open>The writes of a commit\<close>

text \<open>
  What must hold for \<open>commit\<close>: the log works, its blocks are pinned data blocks, the copies on
  disk are what the cache has for the log area, and the header on disk is empty.
\<close>

definition commit_ready :: "'a log_state_scheme \<Rightarrow> bool" where
  "commit_ready s \<longleftrightarrow> quiet s \<and> log_ok s \<and> (\<forall>k < nblocks s. refs s (lh_block s ! k) \<noteq> 0)
     \<and> (\<forall>b \<in> log_area s. view s b = disk s b) \<and> hdr_n (disk s (lstart s)) = 0"

definition copy_writes :: "'a log_state_scheme \<Rightarrow> (u32 \<times> bytes) list" where
  "copy_writes s = map (\<lambda>k. (log_copy s k, view s (lh_block s ! k))) [0..<nblocks s]"

definition home_writes :: "'a log_state_scheme \<Rightarrow> (u32 \<times> bytes) list" where
  "home_writes s = map (\<lambda>k. (lh_block s ! k, view s (lh_block s ! k))) [0..<nblocks s]"

definition full_header :: "'a log_state_scheme \<Rightarrow> bytes" where
  "full_header s = hdr_put (lh_n s) (lh_block s) (disk s (lstart s))"

definition commit_writes :: "'a log_state_scheme \<Rightarrow> (u32 \<times> bytes) list" where
  "commit_writes s = copy_writes s @ [(lstart s, full_header s)] @ home_writes s
     @ [(lstart s, hdr_put 0 (lh_block s) (full_header s))]"

lemma copies_apply:
  assumes "quiet s" and "log_ok s"
  shows "k < nblocks s \<Longrightarrow> apply_writes (copy_writes s) m (log_copy s k) = view s (lh_block s ! k)"
    and "b \<notin> log_area s \<Longrightarrow> apply_writes (copy_writes s) m b = m b"
    and "apply_writes (copy_writes s) m (lstart s) = m (lstart s)"
proof -
  note l = log_okD [OF assms]
  have "distinct (map (log_copy s) [0..<nblocks s])"
    using l(1) by (auto simp: distinct_map inj_on_def log_copy_inj)
  then show "k < nblocks s \<Longrightarrow> apply_writes (copy_writes s) m (log_copy s k) = view s (lh_block s ! k)"
    unfolding copy_writes_def by (rule apply_writes_map)
  have dom: "fst ` set (copy_writes s) \<subseteq> log_copy s ` {..<NCOPY}"
    using l(1) by (auto simp: copy_writes_def)
  then show "b \<notin> log_area s \<Longrightarrow> apply_writes (copy_writes s) m b = m b"
    by (intro apply_writes_other) (auto simp: log_area_def)
  have "lstart s \<notin> log_copy s ` {..<NCOPY}" using log_copy_start [of _ s] by (metis NCOPY_LOGSIZE(2) imageE lessThan_iff)
  then show "apply_writes (copy_writes s) m (lstart s) = m (lstart s)"
    using dom by (intro apply_writes_other) auto
qed

lemma homes_apply:
  assumes "quiet s" and "log_ok s"
  shows "k < nblocks s \<Longrightarrow> apply_writes (home_writes s) m (lh_block s ! k) = view s (lh_block s ! k)"
    and "b \<notin> set (take (nblocks s) (lh_block s)) \<Longrightarrow> apply_writes (home_writes s) m b = m b"
    and "b \<in> log_area s \<Longrightarrow> apply_writes (home_writes s) m b = m b"
proof -
  note l = log_okD [OF assms]
  show "k < nblocks s \<Longrightarrow> apply_writes (home_writes s) m (lh_block s ! k) = view s (lh_block s ! k)"
    unfolding home_writes_def using l(4) by (rule apply_writes_map)
  have dom: "fst ` set (home_writes s) = set (take (nblocks s) (lh_block s))"
    using assms(1) l(1) by (auto simp: home_writes_def quiet_def nth_image [symmetric] image_image)
  then show "b \<notin> set (take (nblocks s) (lh_block s)) \<Longrightarrow> apply_writes (home_writes s) m b = m b"
    by (intro apply_writes_other) auto
  show "b \<in> log_area s \<Longrightarrow> apply_writes (home_writes s) m b = m b"
    using assms(2) by (intro apply_writes_other) (auto simp: home_writes_def log_ok_def)
qed

lemma clear_header:
  "bio_inv (s\<lparr>lh_n := n\<rparr>) = bio_inv s" "refs (s\<lparr>lh_n := n\<rparr>) = refs s"
  "locked_block (s\<lparr>lh_n := n\<rparr>) = locked_block s" "view (s\<lparr>lh_n := n\<rparr>) = view s"
  using blocks_cong [of "s\<lparr>lh_n := n\<rparr>" s] bio_inv_cong [of "s\<lparr>lh_n := n\<rparr>" s] by simp_all

lemma clear_header_quiet: "quiet s \<Longrightarrow> quiet (s\<lparr>lh_n := 0\<rparr>)"
  by (simp add: quiet_def clear_header)

lemma commit_spec:
  assumes r: "commit_ready s" and pos: "0 < lh_n s"
  shows "\<exists>t. commit s = Inr ((), t) \<and> writes t = writes s @ commit_writes s
    \<and> disk t = apply_writes (commit_writes s) (disk s)
    \<and> view t = apply_writes (commit_writes s) (view s)
    \<and> bio_inv t \<and> refs t = refs s \<and> locked_block t = locked_block s \<and> lh_n t = 0"
proof -
  have q: "quiet s" and ok: "log_ok s" and pin: "\<And>k. k < nblocks s \<Longrightarrow> refs s (lh_block s ! k) \<noteq> 0"
    and area: "\<And>b. b \<in> log_area s \<Longrightarrow> view s b = disk s b"
    using r by (auto simp: commit_ready_def)
  note ca = copies_apply [OF q ok] and ha = homes_apply [OF q ok] and l = log_okD [OF q ok]
  have st: "lstart s \<in> log_area s" by (simp add: log_area_def)
  obtain t1 where t1: "write_log s = Inr ((), t1)" "wrote (copy_writes s) s t1"
    using write_log_spec [OF q ok pin] by (auto simp: copy_writes_def)
  note q1 = wrote_quiet [OF t1(2) q] and w1 = wrote_log [OF t1(2)]
  have v1: "view t1 = apply_writes (copy_writes s) (view s)" "disk t1 = apply_writes (copy_writes s) (disk s)"
    using t1(2) by (simp_all add: wrote_def)
  obtain t2 where t2: "whead t1 = Inr ((), t2)" "wrote [(lstart s, full_header s)] t1 t2"
    using whead_spec [OF q1] w1 v1 ca(3) area [OF st] by (auto simp: full_header_def)
  note q2 = wrote_quiet [OF t2(2) q1] and w2 = wrote_log [OF t2(2), unfolded w1]
  have v2: "view t2 = (view t1)(lstart s := full_header s)" "disk t2 = (disk t1)(lstart s := full_header s)"
    using t2(2) by (simp_all add: wrote_def)
  have copy: "view t2 (log_copy s k) = view s (lh_block s ! k)" "disk t2 (log_copy s k) = view s (lh_block s ! k)"
    if "k < nblocks s" for k
    using ca(1) [OF that] v1 v2 log_copy_start [of k s] l(1) that by auto
  obtain t3 where t3: "install_trans False t2 = Inr ((), t3)" "wrote (install_writes False t2 (nblocks t2)) t2 t3"
    using install_trans_spec [OF q2, of False] w2 ok copy by auto
  have iw: "install_writes False t2 (nblocks t2) = home_writes s"
    using copy w2 unfolding install_writes_def home_writes_def
    by (simp add: Let_def concat_map_singleton)
  note t3' = t3(2) [unfolded iw]
  note q3 = wrote_quiet [OF t3' q2] and w3 = wrote_log [OF t3', unfolded w2]
  let ?t3 = "t3\<lparr>lh_n := 0\<rparr>"
  have v3: "view t3 (lstart s) = full_header s"
    using t3' ha(3) [OF st] v2 by (simp add: wrote_def)
  have "lh_block ?t3 = lh_block s" "lstart ?t3 = lstart s" "view ?t3 = view t3"
    using w3 blocks_cong(4) [of ?t3 t3] by simp_all
  then obtain t4 where t4: "whead ?t3 = Inr ((), t4)"
    "wrote [(lstart s, hdr_put 0 (lh_block s) (full_header s))] ?t3 t4"
    using whead_spec [OF clear_header_quiet [OF q3]] v3 by auto
  have "commit s = Inr ((), t4)"
    using pos t1(1) t2(1) t3(1) t4(1) by (simp add: commit_def kbind_Inr)
  moreover have "writes t4 = writes s @ commit_writes s"
    "disk t4 = apply_writes (commit_writes s) (disk s)" "view t4 = apply_writes (commit_writes s) (view s)"
    "bio_inv t4" "refs t4 = refs s" "locked_block t4 = locked_block s"
    using t1(2) t2(2) t3' t4(2) clear_header [where s = t3]
    by (simp_all add: wrote_def commit_writes_def apply_writes_append)
  moreover have "lh_n t4 = 0" using wrote_log(6) [OF t4(2)] by simp
  ultimately show ?thesis by blast
qed

section \<open>Recovery\<close>

text \<open>
  What recovery makes of a disk: a block listed in the header gets the contents of its copy,
  every other block keeps its contents.
\<close>

definition area_at :: "u32 \<Rightarrow> u32 set" where
  "area_at st = insert st ((\<lambda>k. st + of_nat k + 1) ` {..<NCOPY})"

definition header_ok :: "u32 \<Rightarrow> (u32 \<Rightarrow> bytes) \<Rightarrow> bool" where
  "header_ok st d \<longleftrightarrow> 0 \<le> hdr_n (d st) \<and> hdr_n (d st) \<le> int NCOPY
     \<and> distinct (map (hdr_block (d st)) [0..<nat (hdr_n (d st))])
     \<and> (\<forall>k < nat (hdr_n (d st)). hdr_block (d st) k \<notin> area_at st)
     \<and> (\<forall>b. length (d b) = BSIZE)"

definition recovered :: "u32 \<Rightarrow> (u32 \<Rightarrow> bytes) \<Rightarrow> u32 \<Rightarrow> bytes" where
  "recovered st d b =
     (case find (\<lambda>k. hdr_block (d st) k = b) [0..<nat (hdr_n (d st))] of
        None \<Rightarrow> d b | Some k \<Rightarrow> d (st + of_nat k + 1))"

lemma recovered_listed:
  assumes "header_ok st d" and "k < nat (hdr_n (d st))"
  shows "recovered st d (hdr_block (d st) k) = d (st + of_nat k + 1)"
proof -
  obtain j where j: "find (\<lambda>j. hdr_block (d st) j = hdr_block (d st) k) [0..<nat (hdr_n (d st))] = Some j"
    using assms(2) by (cases "find (\<lambda>j. hdr_block (d st) j = hdr_block (d st) k) [0..<nat (hdr_n (d st))]")
      (auto simp: find_None_iff)
  then have "j < nat (hdr_n (d st))" "hdr_block (d st) j = hdr_block (d st) k"
    by (auto simp: find_Some_iff)
  then have "j = k" using assms by (auto simp: header_ok_def distinct_map inj_on_def)
  then show ?thesis using j by (simp add: recovered_def)
qed

lemma recovered_other:
  "b \<notin> hdr_block (d st) ` {..<nat (hdr_n (d st))} \<Longrightarrow> recovered st d b = d b"
proof -
  assume "b \<notin> hdr_block (d st) ` {..<nat (hdr_n (d st))}"
  then have "find (\<lambda>k. hdr_block (d st) k = b) [0..<nat (hdr_n (d st))] = None"
    by (auto simp: find_None_iff)
  then show ?thesis by (simp add: recovered_def)
qed

text \<open>The state the log starts from: an empty cache, nothing pinned, locked or dirty.\<close>

definition fresh :: "'a log_state_scheme \<Rightarrow> bool" where
  "fresh s \<longleftrightarrow> bio_inv s \<and> ldev s = ROOTDEV \<and> length (lh_block s) = LOGSIZE
     \<and> locked_block s = (\<lambda>_. False) \<and> refs s = (\<lambda>_. 0) \<and> view s = disk s"

lemma length_fold_blocks [simp]: "length (fold (\<lambda>k l. l[k := f k]) ks l) = length l"
  by (induction ks arbitrary: l) auto

lemma nth_fold_blocks: "k < n \<Longrightarrow> n \<le> length l \<Longrightarrow> fold (\<lambda>k l. l[k := f k]) [0..<n] l ! k = f k"
  by (induction n) (auto simp: nth_list_update less_Suc_eq)

lemma rhead_spec:
  assumes f: "fresh s" and h: "header_ok (lstart s) (disk s)"
  defines "d \<equiv> disk s (lstart s)"
  shows "\<exists>t. rhead s = Inr ((), t) \<and> fresh t \<and> disk t = disk s \<and> writes t = writes s
    \<and> lstart t = lstart s \<and> lh_n t = hdr_n d \<and> (\<forall>k < nat (hdr_n d). lh_block t ! k = hdr_block d k)"
proof -
  let ?b = "lstart s"
  have inv: "bio_inv s" and l: "ldev s = ROOTDEV" "length (lh_block s) = LOGSIZE"
      "locked_block s = (\<lambda>_. False)" "refs s = (\<lambda>_. 0)" "view s = disk s"
    and n: "nat (hdr_n d) \<le> LOGSIZE"
    using f h by (auto simp: fresh_def header_ok_def d_def)
  obtain i t where t: "bread ROOTDEV ?b s = Inr (i, t)" "bio_inv t" "holds t ?b i"
    "data (bufs t i) = view s ?b" "refs t = (refs s)(?b := refs s ?b + 1)"
    "locked_block t = (locked_block s)(?b := True)" "view t = view s" "same_disk s t"
    using bread_spec [OF inv, of ?b] l by (auto simp: NBUF_def)
  note sd = same_diskD [OF t(8)] and m = more_eqD [OF same_diskD(4) [OF t(8)]]
  let ?t = "t\<lparr>lh_n := hdr_n d, lh_block := fold (\<lambda>k l. l[k := hdr_block d k]) [0..<nat (hdr_n d)] (lh_block t)\<rparr>"
  have c: "cached ?t = cached t" "refs ?t = refs t" "locked_block ?t = locked_block t" "view ?t = view t"
    using blocks_cong [of ?t t] by simp_all
  have "bio_inv ?t" using t(2) bio_inv_cong [of ?t t] by simp
  moreover have "holds ?t ?b i" using t(3) c(1) by (simp add: holds_def)
  moreover have "view ?t ?b = disk ?t ?b" using c(4) t(7) l(5) sd by simp
  ultimately obtain u where u: "brelse i ?t = Inr ((), u)" "bio_inv u"
    "refs u = (refs ?t)(?b := refs ?t ?b - 1)" "locked_block u = (locked_block ?t)(?b := False)"
    "view u = view ?t" "same_disk ?t u"
    using brelse_spec [of ?t ?b i] by blast
  note sd' = same_diskD [OF u(6)] and m' = more_eqD [OF same_diskD(4) [OF u(6)]]
  have "rhead s = Inr ((), u)"
    using t(1,4) u(1) n l by (simp add: rhead_def kbind_Inr Let_def d_def)
  moreover have "refs u = (\<lambda>_. 0)" "locked_block u = (\<lambda>_. False)"
    using u(3,4) c t(5,6) l by (auto simp: fun_eq_iff)
  moreover have "lh_block u ! k = hdr_block d k" if "k < nat (hdr_n d)" for k
    using that n m m' l(2) by (simp add: nth_fold_blocks)
  ultimately show ?thesis
    using u(2,5) c(4) t(7) sd sd' m m' l by (intro exI [of _ u]) (simp add: fresh_def)
qed

lemma fresh_quiet:
  assumes "fresh s" and "0 \<le> lh_n s" and "lh_n s \<le> int NCOPY"
  shows "quiet s"
  using assms by (simp add: fresh_def quiet_def NBUF_def)

lemma log_area_at: "log_area s = area_at (lstart s)"
  by (auto simp: log_area_def area_at_def log_copy_def)

definition recover_writes :: "u32 \<Rightarrow> (u32 \<Rightarrow> bytes) \<Rightarrow> (u32 \<times> bytes) list" where
  "recover_writes st d = concat (map (\<lambda>k. [(hdr_block (d st) k, d (st + of_nat k + 1)),
     (hdr_block (d st) k, d (st + of_nat k + 1))]) [0..<nat (hdr_n (d st))])"

lemma recover_spec:
  assumes f: "fresh s" and h: "header_ok (lstart s) (disk s)"
  shows "\<exists>t bl. recover s = Inr ((), t) \<and> fresh t
    \<and> writes t = writes s @ recover_writes (lstart s) (disk s)
        @ [(lstart s, hdr_put 0 bl (disk s (lstart s)))]
    \<and> disk t = (apply_writes (recover_writes (lstart s) (disk s)) (disk s))
        (lstart s := hdr_put 0 bl (disk s (lstart s)))"
proof -
  let ?st = "lstart s" and ?d = "disk s"
  let ?n = "nat (hdr_n (?d ?st))"
  obtain t where t: "rhead s = Inr ((), t)" "fresh t" "disk t = ?d" "writes t = writes s"
    "lstart t = ?st" "lh_n t = hdr_n (?d ?st)" "\<And>k. k < ?n \<Longrightarrow> lh_block t ! k = hdr_block (?d ?st) k"
    using rhead_spec [OF f h] by blast
  have q: "quiet t" using fresh_quiet [OF t(2)] h t(6) by (simp add: header_ok_def)
  have n: "nblocks t = ?n" by (simp add: nblocks_def t(6))
  have bl: "map (\<lambda>k. lh_block t ! k) [0..<?n] = map (hdr_block (?d ?st)) [0..<?n]" using t(7) by auto
  have "take ?n (lh_block t) = map (\<lambda>k. lh_block t ! k) [0..<?n]"
    using h t(2) by (intro nth_equalityI) (auto simp: fresh_def header_ok_def)
  then have ok: "log_ok t" using h t(7) by (auto simp: log_ok_def n bl header_ok_def log_area_at t(5))
  have v: "view t = ?d" using t(2,3) by (simp add: fresh_def)
  have iw: "install_writes True t ?n = recover_writes ?st ?d"
    unfolding install_writes_def recover_writes_def
    by (rule arg_cong [of _ _ concat], rule map_cong)
      (auto simp: Let_def t(5,7) log_copy_def v)
  obtain u where u: "install_trans True t = Inr ((), u)" "wrote (recover_writes ?st ?d) t u"
    using install_trans_spec [OF q ok, of True] v t(3) iw n by auto
  let ?u = "u\<lparr>lh_n := 0\<rparr>"
  have "hdr_block (?d ?st) k \<noteq> ?st" if "k < ?n" for k
    using h that by (auto simp: header_ok_def area_at_def)
  then have "?st \<notin> fst ` set (recover_writes ?st ?d)" by (fastforce simp: recover_writes_def)
  then have "view u ?st = ?d ?st" using u(2) v by (simp add: wrote_def apply_writes_other)
  then obtain w where w: "whead ?u = Inr ((), w)" "wrote [(?st, hdr_put 0 (lh_block u) (?d ?st))] ?u w"
    using whead_spec [OF clear_header_quiet [OF wrote_quiet [OF u(2) q]]] wrote_log [OF u(2)] t(5)
    by (auto simp: clear_header)
  have "recover s = Inr ((), w)"
    using t(1) u(1) w(1) by (simp add: recover_def kbind_Inr)
  moreover have "fresh w"
    using wrote_log [OF w(2)] wrote_log [OF u(2)] w(2) u(2) t(2,3) more_eqD [of w ?u] more_eqD [of u t]
    by (simp add: fresh_def wrote_def clear_header)
  moreover have "writes w = writes s @ recover_writes ?st ?d @ [(?st, hdr_put 0 (lh_block u) (?d ?st))]"
    "disk w = (apply_writes (recover_writes ?st ?d) ?d)(?st := hdr_put 0 (lh_block u) (?d ?st))"
    using u(2) w(2) t(3,4) by (simp_all add: wrote_def)
  ultimately show ?thesis by blast
qed

lemma recover_writes_apply:
  assumes "header_ok st d"
  shows "b \<noteq> st \<Longrightarrow> apply_writes (recover_writes st d) d b = recovered st d b"
proof -
  let ?n = "nat (hdr_n (d st))" and ?f = "\<lambda>k. hdr_block (d st) k" and ?g = "\<lambda>k. d (st + of_nat k + 1)"
  have "apply_writes (recover_writes st d) d = apply_writes (map (\<lambda>k. (?f k, ?g k)) [0..<?n]) d"
    unfolding recover_writes_def by (rule apply_writes_twice)
  moreover have "apply_writes (map (\<lambda>k. (?f k, ?g k)) [0..<?n]) d b = recovered st d b"
  proof (cases "b \<in> ?f ` {..<?n}")
    case True
    then obtain k where "b = ?f k" "k < ?n" by auto
    then show ?thesis
      using recovered_listed [OF assms] apply_writes_map [of ?f ?n k ?g d] assms
      by (simp add: header_ok_def)
  next
    case False
    then show ?thesis by (auto simp: recovered_other intro!: apply_writes_other)
  qed
  ultimately show ?thesis by simp
qed

section \<open>Crash safety\<close>

text \<open>A machine that starts on disk \<open>d\<close>: zeroed variables, \<open>bio::init\<close> done.\<close>

definition log_zero :: "(u32 \<Rightarrow> bytes) \<Rightarrow> u32 \<Rightarrow> log_state" where
  "log_zero d pid =
     \<lparr>bufs = (\<lambda>_. \<lparr>valid = False, dev = 0, blockno = 0, refcnt = 0,
        lock = \<lparr>slocked = False, spid = 0\<rparr>, data = replicate BSIZE 0\<rparr>),
      bprev = (\<lambda>_. head), bnext = (\<lambda>_. head), disk = d, writes = [], mypid = pid,
      lstart = 0, lsize = 0, outstanding = 0, committing = False, ldev = 0, lh_n = 0,
      lh_block = replicate LOGSIZE 0\<rparr>"

definition log_boot :: "(u32 \<Rightarrow> bytes) \<Rightarrow> u32 \<Rightarrow> log_state" where
  "log_boot d pid = bio_init (log_zero d pid)"

lemma log_boot_fields [simp]:
  "disk (log_boot d pid) = d" "writes (log_boot d pid) = []" "mypid (log_boot d pid) = pid"
  "outstanding (log_boot d pid) = 0" "committing (log_boot d pid) = False"
  "lh_n (log_boot d pid) = 0" "lh_block (log_boot d pid) = replicate LOGSIZE 0"
  using more_eqD [OF bio_init_frame(5) [of "log_zero d pid"]]
  by (simp_all add: log_boot_def log_zero_def)

lemma log_boot_fresh:
  assumes "\<And>b. length (d b) = BSIZE"
  shows "fresh ((log_boot d pid)\<lparr>lstart := st, lsize := sz, ldev := ROOTDEV\<rparr>)"
proof -
  let ?s = "log_boot d pid"
  let ?t = "?s\<lparr>lstart := st, lsize := sz, ldev := ROOTDEV\<rparr>"
  have b: "bio_inv ?s" "refs ?s = (\<lambda>_. 0)" "locked_block ?s = (\<lambda>_. False)" "view ?s = d"
    unfolding log_boot_def using fresh_cache [of "log_zero d pid"] assms by (simp_all add: log_zero_def)
  then show "fresh ?t"
    using blocks_cong [of ?t ?s] bio_inv_cong [of ?t ?s] by (simp add: fresh_def)
qed

definition reboot :: "u32 \<Rightarrow> u32 \<Rightarrow> u32 \<Rightarrow> (u32 \<Rightarrow> bytes) \<Rightarrow> fault + (unit \<times> log_state)" where
  "reboot st sz pid d = log_init ROOTDEV st sz (log_boot d pid)"

lemma reboot_spec:
  assumes "header_ok st d"
  shows "\<exists>t bl. reboot st sz pid d = Inr ((), t) \<and> fresh t
    \<and> writes t = recover_writes st d @ [(st, hdr_put 0 bl (d st))]
    \<and> disk t = (apply_writes (recover_writes st d) d)(st := hdr_put 0 bl (d st))"
proof -
  let ?s = "(log_boot d pid)\<lparr>lstart := st, lsize := sz, ldev := ROOTDEV\<rparr>"
  have len: "length (d b) = BSIZE" for b using assms by (simp add: header_ok_def)
  note b = log_boot_fresh [where d = d and pid = pid and st = st and sz = sz, OF len]
  have "reboot st sz pid d = recover ?s" by (simp add: reboot_def log_init_def)
  then show ?thesis using recover_spec [OF b] assms by simp
qed

text \<open>The part of a disk outside the log area.\<close>

definition data_area :: "u32 \<Rightarrow> (u32 \<Rightarrow> bytes) \<Rightarrow> u32 \<Rightarrow> bytes" where
  "data_area st d b = (if b \<in> area_at st then [] else d b)"

lemma data_area_eqI: "(\<And>b. b \<notin> area_at st \<Longrightarrow> d b = e b) \<Longrightarrow> data_area st d = data_area st e"
  by (auto simp: data_area_def fun_eq_iff)

lemma data_area_reboot:
  assumes "header_ok st d"
  shows "\<exists>t. reboot st sz pid d = Inr ((), t) \<and> data_area st (disk t) = data_area st (recovered st d)
    \<and> hdr_n (disk t st) = 0 \<and> fresh t"
proof -
  obtain t bl where t: "reboot st sz pid d = Inr ((), t)" "fresh t"
    "disk t = (apply_writes (recover_writes st d) d)(st := hdr_put 0 bl (d st))"
    using reboot_spec [OF assms] by blast
  have "data_area st (disk t) = data_area st (recovered st d)"
    using t(3) recover_writes_apply [OF assms] by (intro data_area_eqI) (auto simp: area_at_def)
  moreover have "hdr_n (disk t st) = 0"
    using hdr_put_get(1) [of "d st" 0 bl] assms t(3) by (simp add: header_ok_def)
  ultimately show ?thesis using t by blast
qed

text \<open>
  Every block modified in the cache but not yet on disk is listed in the log header: the
  rule that callers follow by calling \<open>lwrite\<close> on what they modify.
\<close>

definition all_logged :: "'a log_state_scheme \<Rightarrow> bool" where
  "all_logged s \<longleftrightarrow> (\<forall>b. b \<notin> log_area s \<longrightarrow> b \<notin> set (take (nblocks s) (lh_block s)) \<longrightarrow> view s b = disk s b)"

lemma full_header_ok:
  assumes "quiet s" and "log_ok s" and "d (lstart s) = full_header s" and "\<And>b. length (d b) = BSIZE"
  shows "header_ok (lstart s) d" and "nat (hdr_n (d (lstart s))) = nblocks s"
    and "k < nblocks s \<Longrightarrow> hdr_block (d (lstart s)) k = lh_block s ! k"
proof -
  note l = log_okD [OF assms(1,2)]
  have n: "lh_n s = int (nblocks s)" using assms(1) by (simp add: nblocks_def quiet_def)
  have len: "length (disk s (lstart s)) = BSIZE" using assms(1) by (simp add: quiet_def bio_inv_def)
  have h: "hdr_n (d (lstart s)) = int (nblocks s)"
    unfolding assms(3) full_header_def n by (rule hdr_put_get(1) [OF len NCOPY_LOGSIZE(1) [OF l(1)]])
  then show "nat (hdr_n (d (lstart s))) = nblocks s" by simp
  show b: "hdr_block (d (lstart s)) k = lh_block s ! k" if "k < nblocks s" for k
    unfolding assms(3) full_header_def n by (rule hdr_put_get(2) [OF len NCOPY_LOGSIZE(1) [OF l(1)] that])
  have "map (hdr_block (d (lstart s))) [0..<nblocks s] = map (\<lambda>k. lh_block s ! k) [0..<nblocks s]"
    using b by simp
  then have "distinct (map (hdr_block (d (lstart s))) [0..<nblocks s])" using l(4) by metis
  then show "header_ok (lstart s) d"
    using h b l assms(2,4) by (simp add: header_ok_def log_ok_def log_area_at)
qed

lemma length_writes [simp]: "length (copy_writes s) = nblocks s" "length (home_writes s) = nblocks s"
  by (simp_all add: copy_writes_def home_writes_def)

lemma apply_writes_length:
  assumes "\<And>b. length (m b) = BSIZE" and "\<forall>w \<in> set ws. length (snd w) = BSIZE"
  shows "length (apply_writes ws m b) = BSIZE"
  using assms by (induction ws arbitrary: m) (auto simp: apply_writes_def)

lemma commit_writes_length:
  assumes "quiet s"
  shows "\<forall>w \<in> set (commit_writes s). length (snd w) = BSIZE"
proof -
  have inv: "bio_inv s" using assms by (simp add: quiet_def)
  then have "length (disk s b) = BSIZE" for b by (simp add: bio_inv_def)
  then show ?thesis using view_length [OF inv]
    by (auto simp: commit_writes_def copy_writes_def home_writes_def full_header_def)
qed

text \<open>The disk after the first \<open>k\<close> writes of the commit, and what recovery makes of it.\<close>

lemma crash_before_header:
  assumes r: "commit_ready s" and k: "k \<le> nblocks s"
  defines "d \<equiv> apply_writes (take k (commit_writes s)) (disk s)"
  shows "header_ok (lstart s) d \<and> data_area (lstart s) (recovered (lstart s) d) = data_area (lstart s) (disk s)"
proof -
  have q: "quiet s" and ok: "log_ok s" and h0: "hdr_n (disk s (lstart s)) = 0"
    using r by (auto simp: commit_ready_def)
  note l = log_okD [OF q ok]
  have d: "d = apply_writes (take k (copy_writes s)) (disk s)"
    using k by (simp add: d_def commit_writes_def)
  have dom: "fst ` set (take k (copy_writes s)) \<subseteq> log_copy s ` {..<NCOPY}"
    using l(1) by (auto simp: copy_writes_def dest!: in_set_takeD)
  have other: "d b = disk s b" if "b \<notin> log_copy s ` {..<NCOPY}" for b
    unfolding d using dom that by (intro apply_writes_other) auto
  have st: "d (lstart s) = disk s (lstart s)"
    using log_copy_start [of _ s] by (intro other) (metis NCOPY_LOGSIZE(2) imageE lessThan_iff)
  have "\<forall>w \<in> set (take k (commit_writes s)). length (snd w) = BSIZE"
    using commit_writes_length [OF q] by (auto dest: in_set_takeD)
  then have "length (d b) = BSIZE" for b
    unfolding d_def using q by (intro apply_writes_length) (auto simp: quiet_def bio_inv_def)
  then have "header_ok (lstart s) d" using st h0 by (simp add: header_ok_def)
  moreover have "data_area (lstart s) (recovered (lstart s) d) = data_area (lstart s) (disk s)"
    using other st h0
    by (intro data_area_eqI) (auto simp: recovered_other log_area_def simp flip: log_area_at)
  ultimately show ?thesis ..
qed

lemma crash_after_header:
  assumes r: "commit_ready s" and al: "all_logged s" and j: "j \<le> nblocks s"
  defines "d \<equiv> apply_writes (copy_writes s @ [(lstart s, full_header s)] @ take j (home_writes s)) (disk s)"
  shows "header_ok (lstart s) d \<and> data_area (lstart s) (recovered (lstart s) d) = data_area (lstart s) (view s)"
proof -
  have q: "quiet s" and ok: "log_ok s" using r by (auto simp: commit_ready_def)
  note l = log_okD [OF q ok] and ca = copies_apply [OF q ok]
  have d: "d = apply_writes (take j (home_writes s))
      ((apply_writes (copy_writes s) (disk s))(lstart s := full_header s))"
    by (simp add: d_def apply_writes_append)
  have dom: "fst ` set (take j (home_writes s)) \<subseteq> (\<lambda>k. lh_block s ! k) ` {..<nblocks s}"
    by (auto simp: home_writes_def dest!: in_set_takeD)
  have other: "d b = ((apply_writes (copy_writes s) (disk s))(lstart s := full_header s)) b"
    if "b \<notin> (\<lambda>k. lh_block s ! k) ` {..<nblocks s}" for b
    unfolding d using dom that by (intro apply_writes_other) auto
  have area: "b \<notin> (\<lambda>k. lh_block s ! k) ` {..<nblocks s}" if "b \<in> log_area s" for b
    using ok that by (auto simp: log_ok_def)
  have st: "d (lstart s) = full_header s" using other [OF area, of "lstart s"] by (simp add: log_area_def)
  have cp: "d (log_copy s k) = view s (lh_block s ! k)" if "k < nblocks s" for k
    using other [OF area, of "log_copy s k"] ca(1) [OF that] that l(1) log_copy_start [of k s]
    by (simp add: log_area_def)
  have "length (d b) = BSIZE" for b unfolding d_def
    by (rule apply_writes_length)
      (use q commit_writes_length [OF q] in \<open>auto simp: quiet_def bio_inv_def commit_writes_def dest: in_set_takeD\<close>)
  note fh = full_header_ok [where d = d, OF q ok st this]
  have "recovered (lstart s) d b = view s b" if b: "b \<notin> log_area s" for b
  proof (cases "b \<in> (\<lambda>k. lh_block s ! k) ` {..<nblocks s}")
    case True
    then obtain k where "b = lh_block s ! k" "k < nblocks s" by auto
    then show ?thesis
      using recovered_listed [OF fh(1), of k] fh(2,3) cp by (simp add: log_copy_def)
  next
    case False
    then have "b \<notin> hdr_block (d (lstart s)) ` {..<nat (hdr_n (d (lstart s)))}" using fh(2,3) by auto
    moreover have "b \<notin> set (take (nblocks s) (lh_block s))"
      using False l(1) q by (auto simp: in_set_conv_nth quiet_def)
    ultimately show ?thesis
      using other [OF False] ca(2) [OF b] al b by (auto simp: recovered_other all_logged_def log_area_def)
  qed
  then show ?thesis using fh(1) by (auto simp: log_area_at intro!: data_area_eqI)
qed

lemma crash_after_commit:
  assumes r: "commit_ready s" and al: "all_logged s"
  defines "d \<equiv> apply_writes (commit_writes s) (disk s)"
  shows "header_ok (lstart s) d" and "data_area (lstart s) d = data_area (lstart s) (view s)"
    and "data_area (lstart s) (recovered (lstart s) d) = data_area (lstart s) (view s)"
    and "hdr_n (d (lstart s)) = 0"
proof -
  have q: "quiet s" and ok: "log_ok s" using r by (auto simp: commit_ready_def)
  note l = log_okD [OF q ok] and ca = copies_apply [OF q ok] and ha = homes_apply [OF q ok]
  let ?h = "hdr_put 0 (lh_block s) (full_header s)"
  have d: "d = (apply_writes (home_writes s)
      ((apply_writes (copy_writes s) (disk s))(lstart s := full_header s)))(lstart s := ?h)"
    by (simp add: d_def commit_writes_def apply_writes_append)
  have "length (disk s (lstart s)) = BSIZE" using q by (simp add: quiet_def bio_inv_def)
  then have "length (full_header s) = BSIZE" by (simp add: full_header_def)
  then show h0: "hdr_n (d (lstart s)) = 0"
    using hdr_put_get(1) [of "full_header s" 0 "lh_block s"] by (simp add: d)
  have "length (d b) = BSIZE" for b unfolding d_def
    by (rule apply_writes_length)
      (use q commit_writes_length [OF q] in \<open>auto simp: quiet_def bio_inv_def\<close>)
  then show "header_ok (lstart s) d" using h0 by (simp add: header_ok_def)
  have v: "d b = view s b" if b: "b \<notin> log_area s" for b
  proof (cases "b \<in> set (take (nblocks s) (lh_block s))")
    case True
    then obtain k where "k < nblocks s" "b = lh_block s ! k" by (auto simp: in_set_conv_nth)
    then show ?thesis using ha(1) b by (auto simp: d log_area_def)
  next
    case False
    then show ?thesis using ha(2) [OF False] ca(2) [OF b] al b by (auto simp: d all_logged_def log_area_def)
  qed
  then show "data_area (lstart s) d = data_area (lstart s) (view s)"
    by (intro data_area_eqI) (simp add: log_area_at)
  show "data_area (lstart s) (recovered (lstart s) d) = data_area (lstart s) (view s)"
    using v h0 by (intro data_area_eqI) (simp add: log_area_at recovered_other)
qed

lemma crash_prefix:
  fixes k :: nat
  assumes r: "commit_ready s" and al: "all_logged s"
  defines "d \<equiv> apply_writes (take k (commit_writes s)) (disk s)"
  shows "header_ok (lstart s) d
    \<and> (data_area (lstart s) (recovered (lstart s) d) = data_area (lstart s) (disk s)
       \<or> data_area (lstart s) (recovered (lstart s) d) = data_area (lstart s) (view s))"
proof -
  consider "k \<le> nblocks s" | "nblocks s < k" "k \<le> 2 * nblocks s + 1" | "2 * nblocks s + 1 < k" by linarith
  then show ?thesis
  proof cases
    case 1
    then show ?thesis using crash_before_header [OF r] by (simp add: d_def)
  next
    case 2
    then obtain j where "k = Suc (nblocks s + j)" "j \<le> nblocks s"
      by (metis Suc_eq_plus1 add_le_cancel_left less_iff_Suc_add mult_2 Suc_le_mono)
    then show ?thesis using crash_after_header [OF r al, of j] by (simp add: d_def commit_writes_def)
  next
    case 3
    then have "take k (commit_writes s) = commit_writes s" by (simp add: commit_writes_def)
    then show ?thesis using crash_after_commit [OF r al] by (simp add: d_def)
  qed
qed

lemma commit_view:
  assumes "commit_ready s" and "b \<notin> log_area s"
  shows "apply_writes (commit_writes s) (view s) b = view s b"
proof -
  have q: "quiet s" "log_ok s" using assms(1) by (auto simp: commit_ready_def)
  note ca = copies_apply [OF q] and ha = homes_apply [OF q]
  have eq: "apply_writes (commit_writes s) (view s) b
      = apply_writes (home_writes s) ((apply_writes (copy_writes s) (view s))(lstart s := full_header s)) b"
    using assms(2) by (simp add: commit_writes_def apply_writes_append log_area_def)
  show ?thesis
  proof (cases "b \<in> set (take (nblocks s) (lh_block s))")
    case True
    then obtain k where "k < nblocks s" "b = lh_block s ! k" by (auto simp: in_set_conv_nth)
    then show ?thesis unfolding eq using ha(1) by simp
  next
    case False
    then show ?thesis using ha(2) [OF False] ca(2) [OF assms(2)] assms(2) by (auto simp: eq log_area_def)
  qed
qed

text \<open>A crash while recovery itself writes.\<close>

lemma recover_prefix:
  fixes k :: nat
  assumes h: "header_ok st d"
  defines "e \<equiv> apply_writes (take k (recover_writes st d)) d"
  shows "header_ok st e" and "data_area st (recovered st e) = data_area st (recovered st d)"
proof -
  let ?n = "nat (hdr_n (d st))"
  have dom: "fst ` set (take k (recover_writes st d)) \<subseteq> hdr_block (d st) ` {..<?n}"
    by (auto simp: recover_writes_def dest!: in_set_takeD)
  then have other: "e b = d b" if "b \<notin> hdr_block (d st) ` {..<?n}" for b
    unfolding e_def using that by (intro apply_writes_other) auto
  have "b \<notin> hdr_block (d st) ` {..<?n}" if "b \<in> area_at st" for b
    using that h by (auto simp: header_ok_def)
  then have area: "e b = d b" if "b \<in> area_at st" for b using that other by blast
  then have st: "e st = d st" by (simp add: area_at_def)
  have "\<forall>w \<in> set (take k (recover_writes st d)). length (snd w) = BSIZE"
    using h by (auto simp: recover_writes_def header_ok_def dest!: in_set_takeD)
  then have "length (e b) = BSIZE" for b
    unfolding e_def using h by (intro apply_writes_length) (auto simp: header_ok_def)
  then show he: "header_ok st e" using h st by (simp add: header_ok_def)
  have "recovered st e b = recovered st d b" for b
  proof (cases "b \<in> hdr_block (d st) ` {..<?n}")
    case True
    then obtain j where j: "b = hdr_block (d st) j" "j < ?n" by auto
    moreover have "st + of_nat j + 1 \<in> area_at st" using j h by (auto simp: area_at_def header_ok_def)
    ultimately show ?thesis
      using recovered_listed [OF he, of j] recovered_listed [OF h, of j] area st by simp
  next
    case False
    then show ?thesis using other st by (simp add: recovered_other)
  qed
  then show "data_area st (recovered st e) = data_area st (recovered st d)"
    by (intro data_area_eqI) simp
qed

section \<open>The discipline of the callers\<close>

text \<open>
  The invariant between the operations of a transaction: the listed blocks are pinned data
  blocks, the log area on disk is idle, and every modification is listed.
\<close>

definition txn_inv :: "'a log_state_scheme \<Rightarrow> bool" where
  "txn_inv s \<longleftrightarrow> bio_inv s \<and> ldev s = ROOTDEV \<and> length (lh_block s) = LOGSIZE
     \<and> 0 \<le> lh_n s \<and> lh_n s \<le> int NCOPY \<and> log_ok s
     \<and> (\<forall>k < nblocks s. refs s (lh_block s ! k) \<noteq> 0)
     \<and> (\<forall>b \<in> log_area s. view s b = disk s b) \<and> hdr_n (disk s (lstart s)) = 0 \<and> all_logged s"

lemma txn_commit_ready:
  assumes "txn_inv s" and "locked_block s = (\<lambda>_. False)" and "\<And>b. refs s b \<noteq> - 1"
    and "card {b. refs s b \<noteq> 0} + 2 \<le> NBUF"
  shows "commit_ready s" and "all_logged s"
  using assms by (simp_all add: txn_inv_def commit_ready_def quiet_def)

lemma log_slot_spec:
  assumes "n \<le> length bl"
  shows "log_slot bl n b \<le> n"
    and "log_slot bl n b < n \<Longrightarrow> bl ! log_slot bl n b = b"
    and "log_slot bl n b = n \<longleftrightarrow> b \<notin> set (take n bl)"
proof -
  have "log_slot bl n b \<le> n \<and> (log_slot bl n b < n \<longrightarrow> bl ! log_slot bl n b = b)
    \<and> (log_slot bl n b = n \<longrightarrow> (\<forall>k < n. bl ! k \<noteq> b))"
  proof (cases "find (\<lambda>i. bl ! i = b) [0..<n]")
    case None
    then show ?thesis by (simp add: log_slot_def) (simp add: find_None_iff)
  next
    case (Some i)
    then show ?thesis by (simp add: log_slot_def) (auto simp: find_Some_iff)
  qed
  then show "log_slot bl n b \<le> n" "log_slot bl n b < n \<Longrightarrow> bl ! log_slot bl n b = b"
    "log_slot bl n b = n \<longleftrightarrow> b \<notin> set (take n bl)"
    using assms by (auto simp: in_set_conv_nth le_less)
qed

lemma lwrite_spec:
  assumes inv: "bio_inv s" and h: "holds s b i" and len: "length (lh_block s) = LOGSIZE"
    and n: "0 \<le> lh_n s" "lh_n s < int LOGSIZE" "lh_n s < sint (lsize s) - 1"
    and o: "1 \<le> outstanding s" and nm: "refs s b \<noteq> - 1"
  shows "\<exists>t. lwrite i s = Inr ((), t) \<and> bio_inv t \<and> holds t b i \<and> view t = view s \<and> disk t = disk s
    \<and> writes t = writes s \<and> locked_block t = locked_block s \<and> lstart t = lstart s \<and> ldev t = ldev s
    \<and> lsize t = lsize s \<and> outstanding t = outstanding s
    \<and> (if b \<in> set (take (nblocks s) (lh_block s))
       then lh_n t = lh_n s \<and> lh_block t = lh_block s \<and> refs t = refs s
       else lh_n t = lh_n s + 1 \<and> lh_block t = (lh_block s)[nblocks s := b]
         \<and> refs t = (refs s)(b := refs s b + 1))"
proof -
  let ?k = "log_slot (lh_block s) (nblocks s) b"
  have "cached s b = Some i" using h by (simp add: holds_def)
  then have bn: "blockno (bufs s i) = b" by (simp add: bio_inv_cached [OF inv])
  have nb: "nblocks s < LOGSIZE" "int (nblocks s) = lh_n s" using n by (auto simp: nblocks_def)
  note sl = log_slot_spec [of "nblocks s" "lh_block s" b, simplified]
  let ?s1 = "s\<lparr>lh_block := (lh_block s)[?k := b]\<rparr>"
  have lw: "lwrite i s = Inr ((), if ?k = nblocks s then (bpin i ?s1)\<lparr>lh_n := lh_n s + 1\<rparr> else ?s1)"
    using n o nb bn by (auto simp: lwrite_def Let_def nblocks_def dest: leD)
  have s1: "bio_inv ?s1" "holds ?s1 b i" "refs ?s1 = refs s" "view ?s1 = view s"
    "locked_block ?s1 = locked_block s"
    using inv h blocks_cong [of ?s1 s] bio_inv_cong [of ?s1 s] holds_cong [of ?s1 s] by simp_all
  show ?thesis
  proof (cases "?k = nblocks s")
    case True
    let ?p = "bpin i ?s1"
    let ?t = "?p\<lparr>lh_n := lh_n s + 1\<rparr>"
    have p: "bio_inv ?p" "holds ?p b i" "refs ?p = (refs s)(b := refs s b + 1)"
      "locked_block ?p = locked_block s" "view ?p = view s" "same_disk ?s1 ?p"
      using bpin_spec [OF s1(1,2)] nm s1 by simp_all
    note sd = same_diskD [OF p(6)] and m = more_eqD [OF same_diskD(4) [OF p(6)]]
    have "b \<notin> set (take (nblocks s) (lh_block s))" using sl(3) True nb(1) len by simp
    moreover have "bio_inv ?t" "holds ?t b i" "refs ?t = refs ?p" "locked_block ?t = locked_block ?p"
      "view ?t = view ?p"
      using p clear_header [of "lh_n s + 1" ?p] holds_cong [of ?t ?p] by simp_all
    ultimately show ?thesis using lw True p sd m by (intro exI [of _ ?t]) simp
  next
    case False
    then have "lh_block s ! ?k = b" using sl nb(1) len by simp
    then have "(lh_block s)[?k := b] = lh_block s" by (metis list_update_id)
    moreover have "b \<in> set (take (nblocks s) (lh_block s))" using sl(3) False nb(1) len by simp
    ultimately show ?thesis using lw False s1 by (intro exI [of _ ?s1]) simp
  qed
qed

lemma txn_invD:
  assumes "txn_inv s"
  shows "bio_inv s" "log_ok s" "length (lh_block s) = LOGSIZE" "0 \<le> lh_n s" "nblocks s \<le> NCOPY"
    "int (nblocks s) = lh_n s"
  using assms by (auto simp: txn_inv_def nblocks_def)

lemma all_take: "n \<le> length bl \<Longrightarrow> (\<forall>k < n. P (bl ! k)) \<longleftrightarrow> (\<forall>x \<in> set (take n bl). P x)"
  by (auto simp flip: nth_image)

lemma holds_refs:
  assumes "bio_inv s" and "holds s b i"
  shows "refs s b \<noteq> 0"
proof -
  have c: "cached s b = Some i" "slocked (lock (bufs s i))"
    using assms(2) by (simp_all add: holds_def sleep_holding_def)
  then have "i < NBUF" using bio_inv_cached [OF assms(1), of b i] by simp
  then have "buf_ok s i" using assms(1) by (simp add: bio_inv_def)
  then show ?thesis using c by (simp add: refs_def buf_ok_def Let_def)
qed

lemma take_Suc_update:
  "n < length bl \<Longrightarrow> take (Suc n) (bl[n := b]) = take n bl @ [b]"
  by (simp add: take_Suc_conv_app_nth)

lemma lwrite_txn:
  assumes inv: "txn_inv s" and h: "holds s b i" and da: "b \<notin> log_area s"
    and len: "length (f (view s b)) = BSIZE"
    and n: "lh_n s < int NCOPY" "lh_n s < sint (lsize s) - 1" and o: "1 \<le> outstanding s"
    and nm: "refs s b \<noteq> - 1"
  shows "\<exists>t. kthen (bmod i f) (lwrite i) s = Inr ((), t) \<and> txn_inv t \<and> holds t b i
    \<and> view t = (view s)(b := f (view s b)) \<and> disk t = disk s \<and> writes t = writes s
    \<and> b \<in> set (take (nblocks t) (lh_block t)) \<and> locked_block t = locked_block s
    \<and> lstart t = lstart s \<and> lsize t = lsize s \<and> outstanding t = outstanding s
    \<and> (if b \<in> set (take (nblocks s) (lh_block s)) then lh_n t = lh_n s \<and> refs t = refs s
       else lh_n t = lh_n s + 1 \<and> refs t = (refs s)(b := refs s b + 1))"
proof -
  note I = txn_invD [OF inv]
  obtain u where u: "bmod i f s = Inr ((), u)" "bio_inv u" "holds u b i"
    "view u = (view s)(b := f (view s b))" "refs u = refs s" "locked_block u = locked_block s" "same_disk s u"
    using bmod_spec [where f = f, OF I(1) h len] by blast
  note sd = same_diskD [OF u(7)] and m = more_eqD [OF same_diskD(4) [OF u(7)]]
  have nbu: "nblocks u = nblocks s" by (simp add: nblocks_def m)
  let ?L = "b \<in> set (take (nblocks s) (lh_block s))"
  obtain t where t: "lwrite i u = Inr ((), t)" "bio_inv t" "holds t b i" "view t = view u" "disk t = disk u"
    "writes t = writes u" "locked_block t = locked_block u" "lstart t = lstart u" "ldev t = ldev u"
    "lsize t = lsize u" "outstanding t = outstanding u"
    and hdr: "if ?L then lh_n t = lh_n s \<and> lh_block t = lh_block s \<and> refs t = refs s
       else lh_n t = lh_n s + 1 \<and> lh_block t = (lh_block s)[nblocks s := b]
         \<and> refs t = (refs s)(b := refs s b + 1)"
    using lwrite_spec [OF u(2,3)] I(3,4) n o nm m u(5) nbu by auto
  have area: "log_area t = log_area s" by (simp add: log_area_at t(8) m)
  have ln: "nblocks s < NCOPY" using n(1) I(6) by simp
  have nt: "nblocks t = (if ?L then nblocks s else Suc (nblocks s))"
    using hdr I(4) by (auto simp: nblocks_def nat_add_distrib split: if_splits)
  have bl: "set (take (nblocks t) (lh_block t)) = insert b (set (take (nblocks s) (lh_block s)))"
    "length (lh_block t) = LOGSIZE"
    using hdr nt ln I(3) by (auto simp: take_Suc_update split: if_splits)
  have "distinct (take (nblocks t) (lh_block t))"
    using hdr nt ln I(2,3) by (auto simp: take_Suc_update log_ok_def split: if_splits)
  moreover have "\<forall>x \<in> set (take (nblocks t) (lh_block t)). x \<notin> log_area t \<and> refs t x \<noteq> 0"
  proof
    fix x assume "x \<in> set (take (nblocks t) (lh_block t))"
    then have "x = b \<or> x \<in> set (take (nblocks s) (lh_block s))" using bl(1) by auto
    moreover have "y \<notin> log_area s \<and> refs s y \<noteq> 0" if "y \<in> set (take (nblocks s) (lh_block s))" for y
      using that inv I(3,5) all_take [of "nblocks s" "lh_block s" "\<lambda>y. y \<notin> log_area s \<and> refs s y \<noteq> 0"]
      by (auto simp: txn_inv_def log_ok_def)
    moreover have "refs t b \<noteq> 0" using holds_refs [OF t(2,3)] .
    moreover have "x \<noteq> b \<Longrightarrow> refs t x = refs s x" using hdr by (auto split: if_splits)
    ultimately show "x \<notin> log_area t \<and> refs t x \<noteq> 0"
      using da by (cases "x = b") (auto simp: area)
  qed
  moreover have "lh_n t \<le> int NCOPY" "0 \<le> lh_n t" using hdr I(4) n by (auto split: if_splits)
  moreover have "nblocks t \<le> NCOPY" using nt ln by simp
  moreover have "view t x = disk t x" if "x \<notin> set (take (nblocks t) (lh_block t))" "x \<notin> log_area s" for x
    using that bl(1) inv da t(4,5) u(4) sd by (auto simp: txn_inv_def all_logged_def)
  moreover have "\<forall>x \<in> log_area s. view t x = disk t x"
    using inv da t(4,5) u(4) sd by (auto simp: txn_inv_def)
  moreover have "ldev t = ROOTDEV" "disk t = disk s" "lstart t = lstart s" "writes t = writes s"
    using inv m t(5,6,8,9) sd by (simp_all add: txn_inv_def)
  moreover have "hdr_n (disk s (lstart s)) = 0" using inv by (simp add: txn_inv_def)
  ultimately have "txn_inv t"
    using t(2) bl(2) all_take [of "nblocks t" "lh_block t" "\<lambda>y. y \<notin> log_area t \<and> refs t y \<noteq> 0"]
    by (simp add: txn_inv_def log_ok_def all_logged_def area)
  moreover have "kthen (bmod i f) (lwrite i) s = Inr ((), t)" using u(1) t(1) by (simp add: kbind_Inr)
  ultimately show ?thesis using u(4,6) t bl(1) hdr sd m by (intro exI [of _ t]) simp
qed

lemma txn_inv_frame:
  assumes "txn_inv s" and "bio_inv t" and "view t = view s" and "disk t = disk s"
    and "bio_state.more t = bio_state.more s"
    and "\<And>b. b \<in> set (take (nblocks s) (lh_block s)) \<Longrightarrow> refs t b \<noteq> 0"
  shows "txn_inv t"
proof -
  note m = more_eqD [OF assms(5)]
  have n: "nblocks t = nblocks s" "log_area t = log_area s" by (simp_all add: nblocks_def log_area_at m)
  have "\<forall>k < nblocks s. refs t (lh_block s ! k) \<noteq> 0"
    using assms(6) txn_invD(3,5) [OF assms(1)] all_take [of "nblocks s" "lh_block s" "\<lambda>b. refs t b \<noteq> 0"]
    by simp
  then show ?thesis using assms(1-4) by (simp add: txn_inv_def log_ok_def all_logged_def n m)
qed

section \<open>Properties\<close>

text \<open>A transaction that has modified block 100 of an otherwise zero disk, ready to commit.\<close>

definition demo_disk :: "u32 \<Rightarrow> bytes" where
  "demo_disk = (\<lambda>_. replicate BSIZE 0)"

definition demo_start :: log_state where
  "demo_start = (log_boot demo_disk 3)\<lparr>lstart := 2, lsize := 30, ldev := ROOTDEV, outstanding := 1\<rparr>"

lemma demo_start_ok:
  "fresh demo_start" "txn_inv demo_start" "disk demo_start = demo_disk" "lstart demo_start = 2"
  "lh_n demo_start = 0" "100 \<notin> log_area demo_start" "outstanding demo_start = 1" "lsize demo_start = 30"
proof -
  let ?t = "(log_boot demo_disk 3)\<lparr>lstart := 2, lsize := 30, ldev := ROOTDEV\<rparr>"
  have f: "fresh ?t" by (rule log_boot_fresh) (simp add: demo_disk_def)
  then show fs: "fresh demo_start"
    using blocks_cong [of demo_start ?t] bio_inv_cong [of demo_start ?t]
    by (simp add: fresh_def demo_start_def)
  show d: "disk demo_start = demo_disk" "lstart demo_start = 2" "lh_n demo_start = 0"
    "outstanding demo_start = 1" "lsize demo_start = 30"
    by (simp_all add: demo_start_def)
  have "(0 :: u32) = get_u32 (replicate BSIZE 0) 0" by (simp add: get_u32_def BSIZE_def)
  then have "hdr_n (demo_disk 2) = 0" by (simp add: hdr_n_def demo_disk_def)
  then show "txn_inv demo_start"
    using fs d by (simp add: txn_inv_def fresh_def log_ok_def nblocks_def all_logged_def)
  show "100 \<notin> log_area demo_start"
  proof -
    have "log_copy demo_start k \<noteq> 100" if "k < NCOPY" for k
    proof
      assume "log_copy demo_start k = 100"
      then have "unat (of_nat (3 + k) :: u32) = 100" by (simp add: log_copy_def d)
      then show False using that by (subst (asm) unat_of_nat_lt) (simp_all add: NCOPY_def LOGSIZE_def)
    qed
    then show ?thesis by (auto simp: log_area_def d dest: sym)
  qed
qed

text \<open>The state in which block 100 has been filled with ones, logged and released.\<close>

lemma demo_txn:
  "\<exists>s :: log_state. commit_ready s \<and> all_logged s \<and> lh_n s = 1 \<and> lstart s = 2 \<and> lsize s = 30
     \<and> view s = demo_disk(100 := replicate BSIZE 1) \<and> disk s = demo_disk
     \<and> refs s = (\<lambda>_. 0)(100 := 1)"
proof -
  note D = demo_start_ok
  obtain i t where t: "bread ROOTDEV 100 demo_start = Inr (i, t)" "bio_inv t" "holds t 100 i"
    "refs t = (refs demo_start)(100 := refs demo_start 100 + 1)"
    "locked_block t = (locked_block demo_start)(100 := True)" "view t = view demo_start" "same_disk demo_start t"
    using bread_spec [of demo_start 100] D(1) by (auto simp: fresh_def NBUF_def)
  have r: "refs demo_start = (\<lambda>_. 0)" "view demo_start = demo_disk" "locked_block demo_start = (\<lambda>_. False)"
    "nblocks demo_start = 0"
    using D by (simp_all add: fresh_def nblocks_def)
  note sd = same_diskD [OF t(7)] and m = more_eqD [OF same_diskD(4) [OF t(7)]]
  have "txn_inv t" using D(2) t(2,6) sd(1,4) by (rule txn_inv_frame) (simp add: r)
  moreover have "100 \<notin> log_area t" using D(6) by (simp add: log_area_at m)
  ultimately have "\<exists>u :: log_state. txn_inv u \<and> holds u 100 i \<and> view u = demo_disk(100 := replicate BSIZE 1)
    \<and> disk u = demo_disk \<and> lh_n u = 1 \<and> refs u = (\<lambda>_. 0)(100 := 2)
    \<and> locked_block u = (\<lambda>_. False)(100 := True) \<and> lstart u = 2 \<and> lsize u = 30"
    using lwrite_txn [OF _ t(3), of "\<lambda>_. replicate BSIZE 1"] t(4,5,6) r m D sd
    by (auto simp: nblocks_def NCOPY_def LOGSIZE_def)
  then obtain u :: log_state where u: "txn_inv u" "holds u 100 i" "view u = demo_disk(100 := replicate BSIZE 1)"
    "disk u = demo_disk" "lh_n u = 1" "refs u = (\<lambda>_. 0)(100 := 2)" "locked_block u = (\<lambda>_. False)(100 := True)"
    "lstart u = 2" "lsize u = 30" by blast
  obtain v where v: "brelse i u = Inr ((), v)" "bio_inv v" "refs v = (refs u)(100 := refs u 100 - 1)"
    "locked_block v = (locked_block u)(100 := False)" "view v = view u" "same_disk u v"
    using brelse_spec [OF txn_invD(1) [OF u(1)] u(2)] u(6) by auto
  note sd' = same_diskD [OF v(6)] and m' = more_eqD [OF same_diskD(4) [OF v(6)]]
  have rv: "refs v = (\<lambda>_. 0)(100 := 1)" using v(3) u(6) by auto
  have pinned: "refs u b \<noteq> 0" if "b \<in> set (take (nblocks u) (lh_block u))" for b
    using that u(1) all_take [of "nblocks u" "lh_block u" "\<lambda>b. refs u b \<noteq> 0"] txn_invD(3,5) [OF u(1)]
    by (simp add: txn_inv_def)
  have "refs v b \<noteq> 0" if "b \<in> set (take (nblocks u) (lh_block u))" for b
    using pinned [OF that] u(6) rv by (auto split: if_splits)
  then have "txn_inv v" by (rule txn_inv_frame [OF u(1) v(2,5) sd'(1,4)])
  moreover have "locked_block v = (\<lambda>_. False)" using v(4) u(7) by auto
  moreover have "{b. refs v b \<noteq> 0} = {100}" by (auto simp: rv)
  ultimately have "commit_ready v" "all_logged v"
    by (intro txn_commit_ready; simp add: rv NBUF_def)+
  then show ?thesis using u v sd' m' rv by (intro exI [of _ v]) simp
qed

text \<open>
  C1: crash safety of \<open>commit\<close>.  From a state that follows the log discipline, \<open>commit\<close>
  returns after the disk writes \<open>commit_writes\<close>.  If the machine stops after any number \<open>k\<close> of
  these writes and reboots on that disk, recovery returns, empties the log and leaves in the
  data area either the contents before the transaction or all of its modifications.
\<close>

theorem commit_crash_atomic:
  assumes "commit_ready s" and "all_logged s" and "0 < lh_n s"
  shows "\<exists>t u. commit s = Inr ((), t) \<and> writes t = writes s @ commit_writes s
    \<and> reboot (lstart s) (lsize s) pid (apply_writes (take k (commit_writes s)) (disk s)) = Inr ((), u)
    \<and> hdr_n (disk u (lstart s)) = 0
    \<and> (data_area (lstart s) (disk u) = data_area (lstart s) (disk s)
       \<or> data_area (lstart s) (disk u) = data_area (lstart s) (view s))"
proof -
  let ?d = "apply_writes (take k (commit_writes s)) (disk s)"
  have p: "header_ok (lstart s) ?d"
    "data_area (lstart s) (recovered (lstart s) ?d) = data_area (lstart s) (disk s)
     \<or> data_area (lstart s) (recovered (lstart s) ?d) = data_area (lstart s) (view s)"
    using crash_prefix [OF assms(1,2)] by simp_all
  obtain t where "commit s = Inr ((), t)" "writes t = writes s @ commit_writes s"
    using commit_spec [OF assms(1,3)] by blast
  then show ?thesis
    using data_area_reboot [OF p(1), of "lsize s" pid] p(2) by (metis (no_types, lifting))
qed

theorem commit_crash_atomic_witness:
  "\<exists>(s :: log_state) t u. lh_n s = 1 \<and> commit s = Inr ((), t) \<and> length (commit_writes s) = 4
     \<and> reboot 2 30 1 (apply_writes (take 2 (commit_writes s)) (disk s)) = Inr ((), u)
     \<and> (data_area 2 (disk u) = data_area 2 demo_disk
        \<or> data_area 2 (disk u) = data_area 2 (demo_disk(100 := replicate BSIZE 1)))"
proof -
  obtain s :: log_state where s: "commit_ready s" "all_logged s" "lh_n s = 1" "lstart s = 2" "lsize s = 30"
    "view s = demo_disk(100 := replicate BSIZE 1)" "disk s = demo_disk" using demo_txn by blast
  then obtain t u where "commit s = Inr ((), t)"
    "reboot 2 30 1 (apply_writes (take 2 (commit_writes s)) (disk s)) = Inr ((), u)"
    "data_area 2 (disk u) = data_area 2 demo_disk
     \<or> data_area 2 (disk u) = data_area 2 (demo_disk(100 := replicate BSIZE 1))"
    using commit_crash_atomic [of s 1 2] by auto
  then show ?thesis using s(3) by (intro exI [of _ s] exI [of _ t] exI [of _ u]) (simp add: commit_writes_def nblocks_def)
qed

text \<open>
  C3: a committed transaction is on disk.  After \<open>commit\<close> the disk agrees with the cache on
  every block outside the log area, which is the contents the transaction saw, and the log is
  empty in memory and on disk.
\<close>

theorem commit_installs:
  assumes "commit_ready s" and "all_logged s" and "0 < lh_n s"
  shows "\<exists>t. commit s = Inr ((), t) \<and> lh_n t = 0 \<and> hdr_n (disk t (lstart s)) = 0
    \<and> data_area (lstart s) (disk t) = data_area (lstart s) (view s)
    \<and> data_area (lstart s) (view t) = data_area (lstart s) (view s)"
proof -
  obtain t where t: "commit s = Inr ((), t)" "disk t = apply_writes (commit_writes s) (disk s)"
    "view t = apply_writes (commit_writes s) (view s)" "lh_n t = 0"
    using commit_spec [OF assms(1,3)] by blast
  have "data_area (lstart s) (view t) = data_area (lstart s) (view s)"
    using commit_view [OF assms(1)] by (intro data_area_eqI) (simp add: t(3) log_area_at)
  then show ?thesis using t crash_after_commit(2,4) [OF assms(1,2)] by simp
qed

theorem commit_installs_witness:
  "\<exists>(s :: log_state) t. lh_n s = 1 \<and> commit s = Inr ((), t)
     \<and> data_area 2 (disk t) = data_area 2 (demo_disk(100 := replicate BSIZE 1))"
proof -
  obtain s :: log_state where "commit_ready s" "all_logged s" "lh_n s = 1" "lstart s = 2"
    "view s = demo_disk(100 := replicate BSIZE 1)" using demo_txn by blast
  then show ?thesis using commit_installs [of s] by auto
qed

text \<open>
  C2: recovery can itself be interrupted.  Whatever number \<open>k\<close> of its writes reached the disk
  before the machine stopped again, the next reboot returns and leaves in the data area what
  the uninterrupted recovery leaves there.
\<close>

theorem recovery_restartable:
  assumes "header_ok st d"
  shows "\<exists>t u. reboot st sz pid d = Inr ((), t)
    \<and> reboot st sz pid (apply_writes (take k (writes t)) d) = Inr ((), u)
    \<and> data_area st (disk u) = data_area st (disk t)"
proof -
  obtain t bl where t: "reboot st sz pid d = Inr ((), t)"
    "writes t = recover_writes st d @ [(st, hdr_put 0 bl (d st))]"
    "disk t = (apply_writes (recover_writes st d) d)(st := hdr_put 0 bl (d st))"
    using reboot_spec [OF assms] by blast
  let ?e = "apply_writes (take k (writes t)) d"
  have r: "data_area st (disk t) = data_area st (recovered st d)" "hdr_n (disk t st) = 0" "fresh t"
    using data_area_reboot [OF assms, of sz pid] t(1) by auto
  have "header_ok st ?e \<and> data_area st (recovered st ?e) = data_area st (disk t)"
  proof (cases "k \<le> length (recover_writes st d)")
    case True
    then show ?thesis using recover_prefix [OF assms, of k] r(1) t(2) by simp
  next
    case False
    then have e: "?e = disk t" using t(2,3) by (simp add: take_Cons')
    have "length (disk t b) = BSIZE" for b using r(3) by (simp add: fresh_def bio_inv_def)
    then show ?thesis using r(2) by (auto simp: e header_ok_def recovered_other intro!: data_area_eqI)
  qed
  then obtain u where "reboot st sz pid ?e = Inr ((), u)" "data_area st (disk u) = data_area st (disk t)"
    using data_area_reboot [of st ?e sz pid] by auto
  then show ?thesis using t(1) by blast
qed

definition demo_crashed :: "u32 \<Rightarrow> bytes" where
  "demo_crashed = demo_disk(2 := hdr_put 1 [100] (replicate BSIZE 0), 3 := replicate BSIZE 1)"

lemma demo_crashed_ok: "header_ok 2 demo_crashed" "hdr_n (demo_crashed 2) = 1" "hdr_block (demo_crashed 2) 0 = 100"
proof -
  have h: "hdr_n (demo_crashed 2) = 1" "hdr_block (demo_crashed 2) 0 = 100"
    using hdr_put_get [where d = "replicate BSIZE 0" and n = 1 and bl = "[100]"] by (simp_all add: demo_crashed_def LOGSIZE_def)
  then show "hdr_n (demo_crashed 2) = 1" "hdr_block (demo_crashed 2) 0 = 100" by auto
  have "100 \<notin> area_at 2" using demo_start_ok(4,6) by (simp add: log_area_at)
  then show "header_ok 2 demo_crashed"
    using h by (simp add: header_ok_def NCOPY_def LOGSIZE_def) (simp add: demo_crashed_def demo_disk_def)
qed

theorem recovery_restartable_witness:
  "\<exists>t u. reboot 2 30 1 demo_crashed = Inr ((), t)
     \<and> reboot 2 30 1 (apply_writes (take 1 (writes t)) demo_crashed) = Inr ((), u)
     \<and> data_area 2 (disk u) = data_area 2 (disk t)"
  using recovery_restartable [OF demo_crashed_ok(1), of 30 1 1] .

text \<open>
  C34: \<open>commit\<close> never unpins.  Every block that \<open>lwrite\<close> pinned for the transaction keeps its
  reference after the transaction is committed and the log is empty, so its buffer can never
  be recycled again.
\<close>

theorem commit_keeps_pins:
  assumes "commit_ready s" and "0 < lh_n s"
  shows "\<exists>t. commit s = Inr ((), t) \<and> lh_n t = 0 \<and> refs t = refs s
    \<and> (\<forall>b \<in> set (take (nblocks s) (lh_block s)). refs t b \<noteq> 0)"
proof -
  obtain t where "commit s = Inr ((), t)" "lh_n t = 0" "refs t = refs s"
    using commit_spec [OF assms] by blast
  moreover have "nblocks s \<le> length (lh_block s)"
    using assms(1) log_okD(1) [of s] by (auto simp: commit_ready_def quiet_def)
  ultimately show ?thesis
    using assms(1) all_take [of "nblocks s" "lh_block s" "\<lambda>b. refs s b \<noteq> 0"]
    by (auto simp: commit_ready_def)
qed

theorem commit_keeps_pins_witness:
  "\<exists>(s :: log_state) t. lh_n s = 1 \<and> commit s = Inr ((), t) \<and> lh_n t = 0 \<and> refs t 100 = 1"
proof -
  obtain s :: log_state where "commit_ready s" "lh_n s = 1" "refs s = (\<lambda>_. 0)(100 := 1)" using demo_txn by blast
  then show ?thesis using commit_keeps_pins [of s] by fastforce
qed

text \<open>
  C16: a logged write keeps the discipline of the transaction.  A caller inside a transaction
  that holds a data block, modifies it and calls \<open>lwrite\<close> never panics while the header has
  room, changes what readers see of that block only, leaves the disk alone and gets back to a
  state in which every modified block is listed and pinned.  A block that is already listed
  takes no new header entry.
\<close>

theorem lwrite_keeps_discipline:
  assumes "txn_inv s" and "holds s b i" and "b \<notin> log_area s" and "length (f (view s b)) = BSIZE"
    and "lsize s = of_nat LOGSIZE" and "lh_n s < sint (lsize s) - 1" and "1 \<le> outstanding s"
    and "refs s b \<noteq> - 1"
  shows "\<exists>t. kthen (bmod i f) (lwrite i) s = Inr ((), t) \<and> txn_inv t
    \<and> view t = (view s)(b := f (view s b)) \<and> disk t = disk s \<and> writes t = writes s
    \<and> lh_n t = (if b \<in> set (take (nblocks s) (lh_block s)) then lh_n s else lh_n s + 1)"
proof -
  have "lh_n s < int NCOPY" using assms(5,6) by (simp add: NCOPY_def LOGSIZE_def)
  then show ?thesis
    using lwrite_txn [where f = f, OF assms(1-4) _ assms(6-8)] by (auto split: if_splits)
qed

theorem lwrite_keeps_discipline_witness:
  "\<exists>i s t. bread ROOTDEV 100 demo_start = Inr (i, s)
     \<and> kthen (bmod i (\<lambda>_. replicate BSIZE 1)) (lwrite i) s = Inr ((), t)
     \<and> txn_inv t \<and> view t = demo_disk(100 := replicate BSIZE 1) \<and> lh_n t = 1"
proof -
  note D = demo_start_ok
  obtain i s where s: "bread ROOTDEV 100 demo_start = Inr (i, s)" "bio_inv s" "holds s 100 i"
    "refs s = (refs demo_start)(100 := refs demo_start 100 + 1)" "view s = view demo_start" "same_disk demo_start s"
    using bread_spec [of demo_start 100] D(1) by (auto simp: fresh_def NBUF_def)
  note sd = same_diskD [OF s(6)] and m = more_eqD [OF same_diskD(4) [OF s(6)]]
  have "txn_inv s" using D(2) s(2,5) sd(1,4) by (rule txn_inv_frame) (simp add: nblocks_def D(5))
  then have "\<exists>t. kthen (bmod i (\<lambda>_. replicate BSIZE 1)) (lwrite i) s = Inr ((), t)
     \<and> txn_inv t \<and> view t = demo_disk(100 := replicate BSIZE 1) \<and> lh_n t = 1"
    using lwrite_keeps_discipline [of s 100 i "\<lambda>_. replicate BSIZE 1"] s D m
    by (auto simp: fresh_def log_area_at nblocks_def LOGSIZE_def)
  then show ?thesis using s(1) by blast
qed


text \<open>
  What the admitted operations may still log: one budget for each of them, all of which fit
  into the header together with what is logged already.
\<close>

definition room :: "'a log_state_scheme \<Rightarrow> nat list \<Rightarrow> bool" where
  "room s budget \<longleftrightarrow> length budget = unat (outstanding s) \<and> (\<forall>n \<in> set budget. n \<le> unat MAXOPBLOCKS)
     \<and> 0 \<le> lh_n s \<and> nat (lh_n s) + sum_list budget \<le> LOGSIZE"

text \<open>
  C33: admission control.  When \<open>begin_op\<close> lets an operation in, the header has room for its
  ten blocks besides everything the operations already admitted may still log.
\<close>

theorem begin_op_reserves:
  assumes "room s budget" and "unat (outstanding s) < 1000" and "begin_op s = Inr ((), t)"
  shows "\<not> committing t \<and> room t (unat MAXOPBLOCKS # budget)"
proof -
  have n: "0 \<le> lh_n s" "nat (lh_n s) \<le> LOGSIZE" using assms(1) by (auto simp: room_def)
  have sl: "sum_list budget \<le> length budget * unat MAXOPBLOCKS"
    using assms(1) sum_list_mono [of budget id "\<lambda>_. unat MAXOPBLOCKS"] by (simp add: room_def sum_list_triv)
  have t: "t = s\<lparr>outstanding := outstanding s + 1\<rparr>" "\<not> committing s"
    "of_int (lh_n s) + (outstanding s + 1) * MAXOPBLOCKS \<le> (of_nat LOGSIZE :: u32)"
    using assms(3) by (auto simp: begin_op_def split: if_splits)
  have o: "unat (outstanding s + 1) = unat (outstanding s) + 1"
    using assms(2) by (simp add: unat_word_ariths)
  have "unat ((of_int (lh_n s) :: u32) + (outstanding s + 1) * MAXOPBLOCKS)
      = nat (lh_n s) + unat (outstanding s + 1) * 10"
    using n assms(2) o by (simp add: unat_word_ariths MAXOPBLOCKS_def LOGSIZE_def flip: of_nat_nat)
  then have "nat (lh_n s) + (unat (outstanding s) + 1) * 10 \<le> LOGSIZE"
    using t(3) o by (simp add: word_le_nat_alt LOGSIZE_def)
  then show ?thesis using assms(1) sl t(1,2) o by (simp add: room_def MAXOPBLOCKS_def)
qed

theorem begin_op_reserves_witness:
  "\<exists>t. begin_op demo_start = Inr ((), t) \<and> room t [10, 10]"
  using begin_op_reserves [of demo_start "[10]"]
  by (simp add: room_def demo_start_ok begin_op_def demo_start_def MAXOPBLOCKS_def LOGSIZE_def)

end
