(* ===== verification/Riscv.thy ===== *)
theory Riscv
  imports Prelude
begin

text \<open>
  \<open>kernel/arch/riscv.h\<close>: the registers of one hart that the kernel reads and writes, one field
  for each, with the accessors of the header (an \<open>asm volatile\<close> of one \<open>csrr\<close>, \<open>csrw\<close> or \<open>mv\<close>)
  as selection and update; the status and interrupt bits; the page-table entry format and
  the address arithmetic of Sv39.  \<open>PGSIZE\<close> and the \<open>SSTATUS\<close> bits are \<open>uint32_t\<close> in the
  sources, so their complement is taken in 32 bits and then zero-extended.
\<close>

section \<open>Registers\<close>

record hart =
  csr_mie :: u64
  csr_menvcfg :: u64
  csr_mcounteren :: u64
  csr_mstatus :: u64
  csr_satp :: u64
  csr_sie :: u64
  csr_sstatus :: u64
  csr_sepc :: u64
  csr_stimecmp :: u64
  csr_tp :: u64
  csr_mhartid :: u64
  csr_time :: u64
  csr_scause :: u64
  csr_stval :: u64
  csr_mepc :: u64
  csr_medeleg :: u64
  csr_mideleg :: u64
  csr_pmpaddr0 :: u64
  csr_pmpcfg0 :: u64
  csr_stvec :: u64

definition r_mhartid :: "hart \<Rightarrow> u64" where "r_mhartid h = csr_mhartid h"
definition r_mie :: "hart \<Rightarrow> u64" where "r_mie h = csr_mie h"
definition r_menvcfg :: "hart \<Rightarrow> u64" where "r_menvcfg h = csr_menvcfg h"
definition r_mcounteren :: "hart \<Rightarrow> u64" where "r_mcounteren h = csr_mcounteren h"
definition r_mstatus :: "hart \<Rightarrow> u64" where "r_mstatus h = csr_mstatus h"
definition r_satp :: "hart \<Rightarrow> u64" where "r_satp h = csr_satp h"
definition r_time :: "hart \<Rightarrow> u64" where "r_time h = csr_time h"
definition r_sie :: "hart \<Rightarrow> u64" where "r_sie h = csr_sie h"
definition r_sstatus :: "hart \<Rightarrow> u64" where "r_sstatus h = csr_sstatus h"
definition r_scause :: "hart \<Rightarrow> u64" where "r_scause h = csr_scause h"
definition r_sepc :: "hart \<Rightarrow> u64" where "r_sepc h = csr_sepc h"
definition r_stval :: "hart \<Rightarrow> u64" where "r_stval h = csr_stval h"
definition r_stimecmp :: "hart \<Rightarrow> u64" where "r_stimecmp h = csr_stimecmp h"
definition r_tp :: "hart \<Rightarrow> u64" where "r_tp h = csr_tp h"

definition w_mie :: "u64 \<Rightarrow> hart \<Rightarrow> hart" where "w_mie x h = h\<lparr>csr_mie := x\<rparr>"
definition w_menvcfg :: "u64 \<Rightarrow> hart \<Rightarrow> hart" where "w_menvcfg x h = h\<lparr>csr_menvcfg := x\<rparr>"
definition w_mcounteren :: "u64 \<Rightarrow> hart \<Rightarrow> hart" where "w_mcounteren x h = h\<lparr>csr_mcounteren := x\<rparr>"
definition w_mstatus :: "u64 \<Rightarrow> hart \<Rightarrow> hart" where "w_mstatus x h = h\<lparr>csr_mstatus := x\<rparr>"
definition w_mepc :: "u64 \<Rightarrow> hart \<Rightarrow> hart" where "w_mepc x h = h\<lparr>csr_mepc := x\<rparr>"
definition w_satp :: "u64 \<Rightarrow> hart \<Rightarrow> hart" where "w_satp x h = h\<lparr>csr_satp := x\<rparr>"
definition w_medeleg :: "u64 \<Rightarrow> hart \<Rightarrow> hart" where "w_medeleg x h = h\<lparr>csr_medeleg := x\<rparr>"
definition w_mideleg :: "u64 \<Rightarrow> hart \<Rightarrow> hart" where "w_mideleg x h = h\<lparr>csr_mideleg := x\<rparr>"
definition w_pmpaddr0 :: "u64 \<Rightarrow> hart \<Rightarrow> hart" where "w_pmpaddr0 x h = h\<lparr>csr_pmpaddr0 := x\<rparr>"
definition w_pmpcfg0 :: "u64 \<Rightarrow> hart \<Rightarrow> hart" where "w_pmpcfg0 x h = h\<lparr>csr_pmpcfg0 := x\<rparr>"
definition w_sie :: "u64 \<Rightarrow> hart \<Rightarrow> hart" where "w_sie x h = h\<lparr>csr_sie := x\<rparr>"
definition w_stvec :: "u64 \<Rightarrow> hart \<Rightarrow> hart" where "w_stvec x h = h\<lparr>csr_stvec := x\<rparr>"
definition w_sstatus :: "u64 \<Rightarrow> hart \<Rightarrow> hart" where "w_sstatus x h = h\<lparr>csr_sstatus := x\<rparr>"
definition w_sepc :: "u64 \<Rightarrow> hart \<Rightarrow> hart" where "w_sepc x h = h\<lparr>csr_sepc := x\<rparr>"
definition w_stimecmp :: "u64 \<Rightarrow> hart \<Rightarrow> hart" where "w_stimecmp x h = h\<lparr>csr_stimecmp := x\<rparr>"
definition w_tp :: "u64 \<Rightarrow> hart \<Rightarrow> hart" where "w_tp x h = h\<lparr>csr_tp := x\<rparr>"

lemmas csr_defs =
  r_mhartid_def r_mie_def r_menvcfg_def r_mcounteren_def r_mstatus_def r_satp_def
  r_time_def r_sie_def r_sstatus_def r_scause_def r_sepc_def r_stval_def
  r_stimecmp_def r_tp_def w_mie_def w_menvcfg_def w_mcounteren_def w_mstatus_def
  w_mepc_def w_satp_def w_medeleg_def w_mideleg_def w_pmpaddr0_def w_pmpcfg0_def
  w_sie_def w_stvec_def w_sstatus_def w_sepc_def w_stimecmp_def w_tp_def

text \<open>Status and interrupt bits; \<open>MSTATUS_MIE\<close> is written \<open>1ULL < 3U\<close> in the header.\<close>

definition MSTATUS_MIE :: u64 where "MSTATUS_MIE = (if (1 :: u64) < 3 then 1 else 0)"
definition MSTATUS_MPP_MASK :: u64 where "MSTATUS_MPP_MASK = push_bit 11 3"
definition MSTATUS_MPP_M :: u64 where "MSTATUS_MPP_M = push_bit 11 3"
definition MSTATUS_MPP_S :: u64 where "MSTATUS_MPP_S = push_bit 11 1"
definition MSTATUS_MPP_U :: u64 where "MSTATUS_MPP_U = push_bit 11 0"
definition MIE_STIE :: u64 where "MIE_STIE = push_bit 5 1"
definition SIE_SEIE :: u64 where "SIE_SEIE = push_bit 9 1"
definition SIE_STIE :: u64 where "SIE_STIE = push_bit 5 1"
definition SIE_SSIE :: u64 where "SIE_SSIE = push_bit 1 1"
definition SSTATUS_SPP :: u32 where "SSTATUS_SPP = push_bit 8 1"
definition SSTATUS_SPIE :: u32 where "SSTATUS_SPIE = push_bit 5 1"
definition SSTATUS_UPIE :: u32 where "SSTATUS_UPIE = push_bit 4 1"
definition SSTATUS_SIE :: u32 where "SSTATUS_SIE = push_bit 1 1"
definition SSTATUS_UIE :: u32 where "SSTATUS_UIE = push_bit 0 1"

definition intr_on :: "hart \<Rightarrow> hart" where
  "intr_on h = w_sstatus (r_sstatus h OR ucast SSTATUS_SIE) h"

definition intr_off :: "hart \<Rightarrow> hart" where
  "intr_off h = w_sstatus (r_sstatus h AND ucast (NOT SSTATUS_SIE)) h"

definition intr_get :: "hart \<Rightarrow> bool" where
  "intr_get h \<longleftrightarrow> r_sstatus h AND ucast SSTATUS_SIE \<noteq> 0"

section \<open>Page-table entries and addresses\<close>

definition PTE_V :: u64 where "PTE_V = push_bit 0 1"
definition PTE_R :: u64 where "PTE_R = push_bit 1 1"
definition PTE_W :: u64 where "PTE_W = push_bit 2 1"
definition PTE_X :: u64 where "PTE_X = push_bit 3 1"
definition PTE_U :: u64 where "PTE_U = push_bit 4 1"
definition PGSIZE :: u32 where [layout_simps]: "PGSIZE = 4096"

text \<open>\<open>PGSIZE\<close> where the other operand is 64 bits wide.\<close>

abbreviation PG :: u64 where "PG \<equiv> ucast PGSIZE"

definition PG_ROUND_UP :: "u64 \<Rightarrow> u64" where
  "PG_ROUND_UP addr = (addr + PG - 1) AND ucast (NOT (PGSIZE - 1))"

definition PG_ROUND_DOWN :: "u64 \<Rightarrow> u64" where
  "PG_ROUND_DOWN addr = addr AND ucast (NOT (PGSIZE - 1))"

definition PTE2PA :: "u64 \<Rightarrow> u64" where "PTE2PA pte = push_bit 12 (drop_bit 10 pte)"
definition PA2PTE :: "u64 \<Rightarrow> u64" where "PA2PTE pa = push_bit 10 (drop_bit 12 pa)"
definition PTE_FLAGS :: "u64 \<Rightarrow> u64" where "PTE_FLAGS pte = pte AND 1023"
definition PX_MASK :: u32 where "PX_MASK = 0x1FF"
definition PG_SHIFT :: nat where "PG_SHIFT = 12"
definition PX_SHIFT :: "nat \<Rightarrow> nat" where "PX_SHIFT level = PG_SHIFT + 9 * level"
definition PX :: "nat \<Rightarrow> u64 \<Rightarrow> u64" where
  "PX level va = drop_bit (PX_SHIFT level) va AND ucast PX_MASK"
definition VA_MAX :: u64 where [layout_simps]: "VA_MAX = push_bit (9 + 9 + 9 + 12 - 1) 1"
definition SATP_SV39 :: u64 where "SATP_SV39 = push_bit 60 8"
definition MAKE_SATP :: "u64 \<Rightarrow> u64" where "MAKE_SATP pagetable = SATP_SV39 OR drop_bit 12 pagetable"

section \<open>Arithmetic of the macros\<close>

lemma PG_4096 [simp]: "PG = 4096" by (simp add: PGSIZE_def)

lemma page_mask: "(ucast (NOT (PGSIZE - 1)) :: u64) = push_bit 12 (mask 20)"
  by (rule bit_word_eqI) (auto simp: PGSIZE_def bit_simps mask_eq_exp_minus_1)

lemma VA_MAX_eq: "VA_MAX = 0x4000000000" by (simp add: VA_MAX_def push_bit_eq_mult)

lemma not_bit_ge: "unat (w :: u64) < 2 ^ k \<Longrightarrow> k \<le> n \<Longrightarrow> \<not> bit w n"
proof -
  assume "unat w < 2 ^ k" "k \<le> n"
  then have "take_bit k (unat w) = unat w" by (simp add: take_bit_nat_eq_self)
  moreover have "\<not> bit (take_bit k (unat w)) n" using \<open>k \<le> n\<close> by (simp add: bit_take_bit_iff)
  ultimately have "\<not> bit (unat w) n" by simp
  then show ?thesis by (auto simp: bit_unsigned_iff)
qed

lemma not_bit_lt: "unat (w :: u64) mod 2 ^ k = 0 \<Longrightarrow> n < k \<Longrightarrow> k \<le> 64 \<Longrightarrow> \<not> bit w n"
proof -
  assume a: "unat w mod 2 ^ k = 0" "n < k" "k \<le> 64"
  then have "\<not> bit (take_bit k (unat w)) n" by (simp add: take_bit_eq_mod)
  then have "\<not> bit (unat w) n" using a(2) by (simp add: bit_take_bit_iff)
  then show ?thesis using a by (auto simp: bit_unsigned_iff)
qed

lemma PX_mask9: "PX l va = take_bit 9 (drop_bit (PX_SHIFT l) va)"
proof -
  have "(511 :: u32) = mask 9" by (simp add: mask_eq_exp_minus_1)
  then have "(ucast PX_MASK :: u64) = mask 9" by (simp add: PX_MASK_def mask_eq_exp_minus_1)
  then show ?thesis by (simp add: PX_def take_bit_eq_mask)
qed

lemma PX_lt: "unat (PX l va) < 512"
  using take_bit_nat_less_exp [of 9 "unat (drop_bit (PX_SHIFT l) va)"]
  by (simp add: PX_mask9 unsigned_take_bit_eq) 

lemma PG_ROUND_DOWN_unat: "unat (PG_ROUND_DOWN a) = (unat a mod 2 ^ 32) div 4096 * 4096"
proof -
  have "PG_ROUND_DOWN a = push_bit 12 (drop_bit 12 (take_bit 32 a))"
    unfolding PG_ROUND_DOWN_def page_mask
    by (rule bit_word_eqI) (auto simp: bit_simps)
  moreover have "(unat a mod 2 ^ 32) div 4096 * 4096 < 2 ^ 64"
    by (rule order.strict_trans1 [of _ "unat a mod 2 ^ 32"]) (auto intro: order.strict_trans1 [OF mod_less_eq_dividend])
  ultimately show ?thesis
    by (simp add: take_bit_eq_mod push_bit_eq_mult drop_bit_eq_div unat_word_ariths unat_mod_distrib unat_div_distrib)
qed

lemma PTE2PA_mk:
  assumes "unat pa mod 4096 = 0" "unat pa < 2 ^ 56" "unat f < 1024"
  shows "PTE2PA (PA2PTE pa OR f) = pa"
proof -
  have lo: "\<not> bit pa n" if "n < 12" for n using not_bit_lt [of pa 12 n] that assms(1) by simp
  have hi: "\<not> bit pa n" if "56 \<le> n" for n using not_bit_ge [of pa 56 n] that assms(2) by simp
  have f: "\<not> bit f n" if "10 \<le> n" for n using not_bit_ge [of f 10 n] that assms(3) by simp
  show ?thesis
  proof (rule bit_word_eqI)
    fix n
    show "bit (PTE2PA (PA2PTE pa OR f)) n = bit pa n"
      using lo [of n] hi [of n] f [of "n - 2"] by (cases "n < 12"; cases "56 \<le> n") (auto simp: PTE2PA_def PA2PTE_def bit_simps)
  qed
qed
lemma PTE_FLAGS_mk: "unat f < 1024 \<Longrightarrow> PTE_FLAGS (PA2PTE pa OR f) = f"
proof -
  assume "unat f < 1024"
  then have f: "\<not> bit f n" if "10 \<le> n" for n using not_bit_ge [of f 10 n] that by simp
  have "(1023 :: u64) = mask 10" by (simp add: mask_eq_exp_minus_1)
  then have "PTE_FLAGS (PA2PTE pa OR f) = take_bit 10 (PA2PTE pa OR f)"
    by (simp add: PTE_FLAGS_def take_bit_eq_mask)
  also have "\<dots> = f"
  proof (rule bit_word_eqI)
    fix n show "bit (take_bit 10 (PA2PTE pa OR f)) n = bit f n"
      using f [of n] by (cases "n < 10") (auto simp: PA2PTE_def bit_simps)
  qed
  finally show ?thesis .
qed

text \<open>Testing a flag of an entry.\<close>

lemma and_PTE_iff:
  "w AND PTE_V \<noteq> 0 \<longleftrightarrow> bit w 0" "w AND PTE_R \<noteq> 0 \<longleftrightarrow> bit w 1" "w AND PTE_W \<noteq> 0 \<longleftrightarrow> bit w 2"
  "w AND PTE_X \<noteq> 0 \<longleftrightarrow> bit w 3" "w AND PTE_U \<noteq> 0 \<longleftrightarrow> bit w 4"
  by (simp_all only: PTE_V_def PTE_R_def PTE_W_def PTE_X_def PTE_U_def push_bit_of_1 and_exp_eq_0_iff_not_bit not_not)

lemma bit_PA2PTE: "n < 10 \<Longrightarrow> \<not> bit (PA2PTE pa) n" by (simp add: PA2PTE_def bit_simps)

lemma PTE2PA_0: "PTE2PA 0 = 0" by (simp add: PTE2PA_def)

end
