(* ===== verification/Vm.thy ===== *)
theory Vm
  imports Riscv Cstring
begin

text \<open>
  \<open>kernel/vm.cpp\<close> and \<open>kernel/vm.h\<close>: the page allocator and the page tables, over a
  byte-addressed memory.  Page tables, the links of the free list and the pages of the
  processes all lie in this memory, a pointer is an address in it, and a page-table entry is
  the eight bytes at its address.  The addresses \<open>end\<close>, \<open>etext\<close> and \<open>trampoline\<close> come from the
  linker and are parameters.  Reading the value of an empty \<open>std::optional\<close> is an \<open>Oob\<close> fault,
  a recursion of \<open>free_walk\<close> deeper than its fuel is \<open>Diverges\<close>.
\<close>

section \<open>Words in memory\<close>

fun load_le :: "nat \<Rightarrow> memory \<Rightarrow> u64 \<Rightarrow> u64" where
  "load_le 0 m a = 0"
| "load_le (Suc n) m a = ucast (m a) OR push_bit 8 (load_le n m (a + 1))"

fun store_le :: "nat \<Rightarrow> memory \<Rightarrow> u64 \<Rightarrow> u64 \<Rightarrow> memory" where
  "store_le 0 m a v = m"
| "store_le (Suc n) m a v = store_le n (m(a := ucast v)) (a + 1) (drop_bit 8 v)"

definition load64 :: "memory \<Rightarrow> u64 \<Rightarrow> u64" where "load64 = load_le 8"
definition store64 :: "memory \<Rightarrow> u64 \<Rightarrow> u64 \<Rightarrow> memory" where "store64 = store_le 8"

section \<open>The page allocator\<close>

definition UART0 :: u64 where "UART0 = 0x10000000"
definition UART_IRQ :: u64 where "UART_IRQ = 10"
definition VIRTIO0 :: u64 where "VIRTIO0 = 0x10001000"
definition VIRTIO_IRQ :: u64 where "VIRTIO_IRQ = 1"
definition PLIC :: u64 where "PLIC = 0x0c000000"
definition KERNEL_BASE :: u64 where "KERNEL_BASE = 0x80000000"
definition PHY_END :: u64 where "PHY_END = KERNEL_BASE + 128 * 1024 * 1024"
definition TRAMPOLINE :: u64 where "TRAMPOLINE = VA_MAX - PG"
definition TRAPFRAME :: u64 where "TRAPFRAME = TRAMPOLINE - PG"
definition KSTACK :: "int \<Rightarrow> u64" where
  "KSTACK pa = TRAMPOLINE - of_int ((pa + 1) * 2) * PG"

record vm_state =
  mem :: memory
  freelist :: u64
  kernel_pagetable :: u64

definition set_mem :: "(memory \<Rightarrow> memory) \<Rightarrow> (vm_state, unit) kop" where
  "set_mem f = kmodify (\<lambda>s. s\<lparr>mem := f (mem s)\<rparr>)"

definition kfree :: "u64 \<Rightarrow> (vm_state, unit) kop" where
  "kfree addr = (\<lambda>s.
     let m = memset (mem s) addr 1 PGSIZE
     in Inr ((), s\<lparr>mem := store64 m addr (freelist s), freelist := addr\<rparr>))"

definition kalloc :: "(vm_state, u64 option) kop" where
  "kalloc = (\<lambda>s. let tmp = freelist s in
     if tmp \<noteq> 0 then
       Inr (Some tmp, s\<lparr>freelist := load64 (mem s) tmp, mem := memset (mem s) tmp 5 PGSIZE\<rparr>)
     else Inr (None, s))"

text \<open>\<open>kinit\<close>: the loop over the whole pages between \<open>end\<close> and \<open>PHY_END\<close>.\<close>

function kinit_loop :: "u64 \<Rightarrow> (vm_state, unit) kop" where
  "kinit_loop p s =
     (if p + PG \<le> PHY_END \<and> p < p + PG then kthen (kfree p) (kinit_loop (p + PG)) s
      else if p + PG \<le> PHY_END then Inl Diverges else Inr ((), s))"
  by pat_completeness auto
termination
  by (relation "measure (\<lambda>(p, s). 2 ^ 64 - unat p)")
    (auto simp: word_less_nat_alt unat_lt [where 'a = 64, simplified] intro!: diff_less_mono2)

definition kinit :: "u64 \<Rightarrow> (vm_state, unit) kop" where
  "kinit kend = kinit_loop (PG_ROUND_UP kend)"

section \<open>Page tables\<close>

text \<open>One level of \<open>walk\<close>: the next table, or \<open>None\<close> when there is none and none can be made.\<close>

definition walk_level :: "u64 \<Rightarrow> u64 \<Rightarrow> bool \<Rightarrow> nat \<Rightarrow> (vm_state, u64 option) kop" where
  "walk_level pagetable va alloc level = (\<lambda>s.
     let pte = pagetable + 8 * PX level va; e = load64 (mem s) pte in
     if e AND PTE_V \<noteq> 0 then Inr (Some (PTE2PA e), s)
     else if alloc then
       kbind kalloc (\<lambda>r. case r of
           None \<Rightarrow> kreturn None
         | Some p \<Rightarrow> kthen (set_mem (\<lambda>m. memset m p 0 PGSIZE))
             (kthen (set_mem (\<lambda>m. store64 m pte (PA2PTE p OR PTE_V))) (kreturn (Some p)))) s
     else Inr (None, s))"

definition walk :: "u64 \<Rightarrow> u64 \<Rightarrow> bool \<Rightarrow> (vm_state, u64 option) kop" where
  "walk pagetable va alloc =
     (if va > VA_MAX then kfail (Panic ''vm::walk: va > VA_MAX'')
      else kbind (walk_level pagetable va alloc 2) (\<lambda>r. case r of
          None \<Rightarrow> kreturn None
        | Some p \<Rightarrow> kbind (walk_level p va alloc 1) (\<lambda>r. case r of
            None \<Rightarrow> kreturn None
          | Some q \<Rightarrow> kreturn (Some (q + 8 * PX 0 va)))))"

definition walkaddr :: "u64 \<Rightarrow> u64 \<Rightarrow> (vm_state, u64) kop" where
  "walkaddr pagetable va =
     (if va > VA_MAX then kreturn 0
      else kbind (walk pagetable va False) (\<lambda>r s. case r of
          None \<Rightarrow> Inr (0, s)
        | Some pte \<Rightarrow> let e = load64 (mem s) pte in
            Inr (if e AND PTE_V = 0 then 0 else if e AND PTE_U = 0 then 0 else PTE2PA e, s)))"

text \<open>\<open>free_walk\<close> follows the entries that are valid and no leaves; \<open>fuel\<close> bounds its depth.\<close>

fun free_walk :: "nat \<Rightarrow> u64 \<Rightarrow> (vm_state, unit) kop" where
  "free_walk 0 pagetable = kfail Diverges"
| "free_walk (Suc fuel) pagetable =
     kthen (kfor (\<lambda>i s.
         let a = pagetable + 8 * of_nat i; pte = load64 (mem s) a in
         if pte AND PTE_V \<noteq> 0 \<and> pte AND (PTE_R OR PTE_W OR PTE_X) = 0 then
           kthen (free_walk fuel (PTE2PA pte)) (set_mem (\<lambda>m. store64 m a 0)) s
         else if pte AND PTE_V \<noteq> 0 then Inl (Panic ''vm::free_walk: leaf'')
         else Inr ((), s)) [0..<512])
       (kfree pagetable)"

text \<open>The page-table depth of Sv39, which the callers of \<open>free_walk\<close> rely on.\<close>

definition LEVELS :: nat where "LEVELS = 3"

text \<open>One pass of the loop of \<open>map_pages\<close>: \<open>False\<close> when the walk found no memory.\<close>

definition map_one :: "u64 \<Rightarrow> u64 \<Rightarrow> u64 \<Rightarrow> u32 \<Rightarrow> (vm_state, bool) kop" where
  "map_one pagetable a pa flag = kbind (walk pagetable a True) (\<lambda>r s. case r of
       None \<Rightarrow> Inr (False, s)
     | Some pte \<Rightarrow>
         if load64 (mem s) pte AND PTE_V \<noteq> 0 then Inl (Panic ''vm::mappages: remap'')
         else Inr (True, s\<lparr>mem := store64 (mem s) pte (PA2PTE pa OR ucast flag OR PTE_V)\<rparr>))"

lemma walk_Inr: "walk pt va al s = Inr r \<Longrightarrow> va \<le> VA_MAX"
  by (auto simp: walk_def split: if_splits)

lemma map_one_Inr: "map_one pt a pa flag s = Inr r \<Longrightarrow> a \<le> VA_MAX"
  by (auto simp: map_one_def kbind_def split: sum.splits dest: walk_Inr)

lemma next_page: "a \<le> VA_MAX \<Longrightarrow> unat (a + PG) = unat a + 4096"
  by (simp add: VA_MAX_eq word_le_nat_alt unat_add_no_wrap)

function map_loop :: "u64 \<Rightarrow> u64 \<Rightarrow> u64 \<Rightarrow> u64 \<Rightarrow> u32 \<Rightarrow> (vm_state, bool) kop" where
  "map_loop pagetable a lst pa flag s =
     kbind (map_one pagetable a pa flag) (\<lambda>ok.
       if \<not> ok then kreturn False
       else if a = lst then kreturn True
       else map_loop pagetable (a + PG) lst (pa + PG) flag) s"
  by pat_completeness auto
termination
  by (relation "measure (\<lambda>(pt, a, l, pa, f, s). 2 ^ 64 - unat a)")
    (auto dest!: map_one_Inr next_page intro!: diff_less_mono2 simp: unat_lt [where 'a = 64, simplified])

definition map_pages :: "u64 \<Rightarrow> u64 \<Rightarrow> u64 \<Rightarrow> u64 \<Rightarrow> u32 \<Rightarrow> (vm_state, bool) kop" where
  "map_pages pagetable va pa sz flag =
     (if va mod PG \<noteq> 0 then kfail (Panic ''mappages: va not aligned'')
      else if sz mod PG \<noteq> 0 then kfail (Panic ''mappages: size not aligned'')
      else if sz = 0 then kfail (Panic ''mappages: size'')
      else map_loop pagetable va (va + sz - PG) pa flag)"

lemma map_pages_Inr: "map_pages pt va pa sz f s = Inr r \<Longrightarrow> va \<le> VA_MAX"
  by (auto simp: map_pages_def map_loop.simps [of _ va] kbind_def split: if_splits sum.splits dest: map_one_Inr)

declare kinit_loop.simps [simp del] map_loop.simps [simp del]

section \<open>The kernel page table\<close>

definition must_map :: "string \<Rightarrow> (vm_state, bool) kop \<Rightarrow> (vm_state, unit) kop" where
  "must_map msg m = kbind m (\<lambda>ok. if ok then kreturn () else kfail (Panic msg))"

text \<open>
  \<open>proc::map_stack\<close> gives every process of the table a kernel stack; \<open>psize\<close> is
  \<open>sizeof(struct process)\<close>, because the argument of \<open>KSTACK\<close> is a difference in bytes.
\<close>

definition NPROC :: nat where [layout_simps]: "NPROC = 64"

definition map_stack :: "int \<Rightarrow> u64 \<Rightarrow> (vm_state, unit) kop" where
  "map_stack psize kpt = kfor (\<lambda>i. kbind kalloc (\<lambda>r. case r of
       None \<Rightarrow> kfail (Panic ''proc::map_stack: error'')
     | Some pa \<Rightarrow> kbind (map_pages kpt (KSTACK (int i * psize)) pa PG (ucast (PTE_R OR PTE_W)))
         (\<lambda>_. kreturn ()))) [0..<NPROC]"

definition kvm_make :: "u64 \<Rightarrow> u64 \<Rightarrow> int \<Rightarrow> (vm_state, u64 option) kop" where
  "kvm_make etext trampoline psize = kbind kalloc (\<lambda>r. case r of
       None \<Rightarrow> kreturn None
     | Some kpt \<Rightarrow>
         kthen (set_mem (\<lambda>m. memset m kpt 0 PGSIZE))
         (kthen (must_map ''vm::kvm_make: UART0'' (map_pages kpt UART0 UART0 PG (ucast (PTE_R OR PTE_W))))
         (kthen (must_map ''vm::kvm_make: VIRTIO0'' (map_pages kpt VIRTIO0 VIRTIO0 PG (ucast (PTE_R OR PTE_W))))
         (kthen (must_map ''vm::kvm_make: PLIC'' (map_pages kpt PLIC PLIC 0x4000000 (ucast (PTE_R OR PTE_W))))
         (kthen (must_map ''vm::kvm_make: KERNEL_BASE''
           (map_pages kpt KERNEL_BASE KERNEL_BASE (etext - KERNEL_BASE) (ucast (PTE_R OR PTE_X))))
         (kthen (must_map ''vm::kvm_make: etext''
           (map_pages kpt etext etext (PHY_END - etext) (ucast (PTE_R OR PTE_W))))
         (kthen (must_map ''vm::kvm_make: TRAMPOLINE''
           (map_pages kpt TRAMPOLINE trampoline PG (ucast (PTE_R OR PTE_X))))
         (kthen (map_stack psize kpt) (kreturn (Some kpt))))))))))"

definition vm_init :: "u64 \<Rightarrow> u64 \<Rightarrow> int \<Rightarrow> (vm_state, unit) kop" where
  "vm_init etext trampoline psize = kbind (kvm_make etext trampoline psize) (\<lambda>r. case r of
       None \<Rightarrow> kfail (Panic ''vm::init: error'')
     | Some kpt \<Rightarrow> kmodify (\<lambda>s. s\<lparr>kernel_pagetable := kpt\<rparr>))"

text \<open>\<open>inithart\<close> installs the kernel page table; the fences order it with the page-table writes.\<close>

definition inithart :: "vm_state \<Rightarrow> hart \<Rightarrow> hart" where
  "inithart s = w_satp (MAKE_SATP (kernel_pagetable s))"

section \<open>User page tables\<close>

definition uvm_create :: "(vm_state, u64) kop" where
  "uvm_create = kbind kalloc (\<lambda>r. case r of
       None \<Rightarrow> kreturn 0
     | Some rs \<Rightarrow> kthen (set_mem (\<lambda>m. memset m rs 0 PGSIZE)) (kreturn rs))"

definition uvm_first :: "u64 \<Rightarrow> u64 \<Rightarrow> u32 \<Rightarrow> (vm_state, unit) kop" where
  "uvm_first pagetable src sz =
     (if sz > PGSIZE then kfail (Panic ''uvm_first: size > PGSIZE'')
      else kbind kalloc (\<lambda>r. case r of
          None \<Rightarrow> kfail (Oob ''nullptr'')
        | Some p \<Rightarrow> kthen (set_mem (\<lambda>m. memset m p 0 PGSIZE))
            (kbind (map_pages pagetable 0 p PG (ucast (PTE_R OR PTE_W OR PTE_X OR PTE_U))) (\<lambda>_.
             set_mem (\<lambda>m. memmove m p src sz)))))"

definition unmap_one :: "u64 \<Rightarrow> u64 \<Rightarrow> bool \<Rightarrow> (vm_state, unit) kop" where
  "unmap_one pagetable a do_free = kbind (walk pagetable a False) (\<lambda>r s. case r of
       None \<Rightarrow> Inl (Panic ''vm::uvm_unmap: walk'')
     | Some pte \<Rightarrow>
         let e = load64 (mem s) pte in
         if e AND PTE_V = 0 then Inr ((), s)
         else if PTE_FLAGS e = PTE_V then Inl (Panic ''vm::uvm_unmap: not a leaf'')
         else kthen (kwhen do_free (kfree (PTE2PA e))) (set_mem (\<lambda>m. store64 m pte 0)) s)"

lemma unmap_one_Inr: "unmap_one pt a f s = Inr r \<Longrightarrow> a \<le> VA_MAX"
  by (auto simp: unmap_one_def kbind_def split: sum.splits dest: walk_Inr)

lemma page_step: "a \<le> VA_MAX \<Longrightarrow> a < e \<Longrightarrow> unat e - unat (a + PG) < unat e - unat (a :: u64)"
  using next_page [of a] by (simp add: word_less_nat_alt)

function unmap_loop :: "u64 \<Rightarrow> u64 \<Rightarrow> u64 \<Rightarrow> bool \<Rightarrow> (vm_state, unit) kop" where
  "unmap_loop pagetable a e do_free s =
     (if a < e then kthen (unmap_one pagetable a do_free) (unmap_loop pagetable (a + PG) e do_free) s
      else Inr ((), s))"
  by pat_completeness auto
termination
  by (relation "measure (\<lambda>(pt, a, e, f, s). unat e - unat a)") (simp_all add: page_step unmap_one_Inr del: PG_4096)

definition uvm_unmap :: "u64 \<Rightarrow> u64 \<Rightarrow> u64 \<Rightarrow> bool \<Rightarrow> (vm_state, unit) kop" where
  "uvm_unmap pagetable va npages do_free =
     (if va mod PG \<noteq> 0 then kfail (Panic ''vm::uvm_unmap: not aligned'')
      else unmap_loop pagetable va (va + npages * PG) do_free)"

definition uvm_free :: "u64 \<Rightarrow> u64 \<Rightarrow> (vm_state, unit) kop" where
  "uvm_free pagetable sz =
     kthen (kwhen (sz > 0) (uvm_unmap pagetable 0 (PG_ROUND_UP sz div PG) True))
       (free_walk LEVELS pagetable)"

definition uvm_dealloc :: "u64 \<Rightarrow> u64 \<Rightarrow> u64 \<Rightarrow> (vm_state, u64) kop" where
  "uvm_dealloc pagetable oldsz newsz =
     (if newsz \<ge> oldsz then kreturn oldsz
      else kthen (kwhen (PG_ROUND_UP newsz < PG_ROUND_UP oldsz)
          (uvm_unmap pagetable (PG_ROUND_UP newsz) ((PG_ROUND_UP oldsz - PG_ROUND_UP newsz) div PG) True))
        (kreturn newsz))"

text \<open>One pass of the loop of \<open>uvm_alloc\<close>: \<open>False\<close> when the caller has to give up.\<close>

definition alloc_one :: "u64 \<Rightarrow> u64 \<Rightarrow> u32 \<Rightarrow> (vm_state, bool) kop" where
  "alloc_one pagetable a xperm = kbind kalloc (\<lambda>r. case r of
       None \<Rightarrow> kreturn False
     | Some p \<Rightarrow> kthen (set_mem (\<lambda>m. memset m p 0 PGSIZE))
         (kbind (map_pages pagetable a p PG (ucast (PTE_R OR PTE_U) OR xperm)) (\<lambda>ok.
            if ok then kreturn True else kthen (kfree p) (kreturn False))))"

lemma alloc_one_True: "alloc_one pt a x s = Inr (True, t) \<Longrightarrow> a \<le> VA_MAX"
  by (auto simp: alloc_one_def kbind_eq_Inr kfree_def Let_def split: option.splits if_splits dest: map_pages_Inr)

function alloc_loop :: "u64 \<Rightarrow> u64 \<Rightarrow> u64 \<Rightarrow> u64 \<Rightarrow> u32 \<Rightarrow> (vm_state, u64) kop" where
  "alloc_loop pagetable a oldsz newsz xperm s =
     (if a < newsz then
        kbind (alloc_one pagetable a xperm) (\<lambda>ok.
          if \<not> ok then kthen (uvm_dealloc pagetable a oldsz) (kreturn 0)
          else alloc_loop pagetable (a + PG) oldsz newsz xperm) s
      else Inr (newsz, s))"
  by pat_completeness auto
termination
  by (relation "measure (\<lambda>(pt, a, oz, nz, x, s). unat nz - unat a)")
    (simp_all add: page_step alloc_one_True del: PG_4096)

definition uvm_alloc :: "u64 \<Rightarrow> u64 \<Rightarrow> u64 \<Rightarrow> u32 \<Rightarrow> (vm_state, u64) kop" where
  "uvm_alloc pagetable oldsz newsz xperm =
     (if oldsz > newsz then kreturn oldsz
      else let oldsz = PG_ROUND_UP oldsz in alloc_loop pagetable oldsz oldsz newsz xperm)"

text \<open>One pass of the loop of \<open>uvm_copy\<close>; on failure it unmaps from \<open>i\<close> on, as the code does.\<close>

definition copy_one :: "u64 \<Rightarrow> u64 \<Rightarrow> u64 \<Rightarrow> (vm_state, bool) kop" where
  "copy_one old_pt new_pt i = kbind (walk old_pt i False) (\<lambda>r s. case r of
       None \<Rightarrow> Inl (Panic ''vm::uvm_copy: pte not exit'')
     | Some pte \<Rightarrow>
         let e = load64 (mem s) pte in
         if e AND PTE_V = 0 then Inr (True, s)
         else kbind kalloc (\<lambda>r. case r of
             None \<Rightarrow> kthen (uvm_unmap new_pt i (i div PG) True) (kreturn False)
           | Some p \<Rightarrow> kthen (set_mem (\<lambda>m. memmove m p (PTE2PA e) PGSIZE))
               (kbind (map_pages new_pt i p PG (ucast (PTE_FLAGS e))) (\<lambda>ok.
                  if ok then kreturn True
                  else kthen (uvm_unmap new_pt i (i div PG) True) (kreturn False)))) s)"

lemma copy_one_Inr: "copy_one old new a s = Inr r \<Longrightarrow> a \<le> VA_MAX"
  by (auto simp: copy_one_def kbind_def split: sum.splits dest: walk_Inr)

function copy_loop :: "u64 \<Rightarrow> u64 \<Rightarrow> u64 \<Rightarrow> u64 \<Rightarrow> (vm_state, bool) kop" where
  "copy_loop old_pt new_pt i sz s =
     (if i < sz then kbind (copy_one old_pt new_pt i) (\<lambda>ok.
         if ok then copy_loop old_pt new_pt (i + PG) sz else kreturn False) s
      else Inr (True, s))"
  by pat_completeness auto
termination
  by (relation "measure (\<lambda>(old, new, i, sz, s). unat sz - unat i)") (simp_all add: page_step copy_one_Inr del: PG_4096)

definition uvm_copy :: "u64 \<Rightarrow> u64 \<Rightarrow> u64 \<Rightarrow> (vm_state, bool) kop" where
  "uvm_copy old_pt new_pt sz = copy_loop old_pt new_pt 0 sz"

definition uvm_clear :: "u64 \<Rightarrow> u64 \<Rightarrow> (vm_state, unit) kop" where
  "uvm_clear pagetable va = kbind (walk pagetable va False) (\<lambda>r. case r of
       None \<Rightarrow> kfail (Panic ''vm::uvm_clear: pte not exit'')
     | Some pte \<Rightarrow> set_mem (\<lambda>m. store64 m pte (load64 m pte AND NOT PTE_V)))"

section \<open>Copies between kernel and user memory\<close>

text \<open>
  One pass of \<open>copyout\<close>.  \<open>va0\<close> is \<open>PG_ROUND_DOWN(dstva)\<close>; the length that \<open>memmove\<close> gets is
  the 64-bit \<open>n\<close> narrowed to its 32-bit parameter.
\<close>

definition chunk :: "u64 \<Rightarrow> u64 \<Rightarrow> u64" where
  "chunk va len = (let n = PG - (va - PG_ROUND_DOWN va) in if n > len then len else n)"

definition copyout_one :: "u64 \<Rightarrow> u64 \<Rightarrow> u64 \<Rightarrow> u64 \<Rightarrow> (vm_state, bool) kop" where
  "copyout_one pagetable dstva src len =
     (let va0 = PG_ROUND_DOWN dstva in
      if va0 > VA_MAX then kreturn False
      else kbind (walk pagetable va0 False) (\<lambda>r s. case r of
          None \<Rightarrow> Inr (False, s)
        | Some pte \<Rightarrow>
            let e = load64 (mem s) pte in
            if e AND PTE_V = 0 \<or> e AND PTE_U = 0 \<or> e AND PTE_W = 0 then Inr (False, s)
            else Inr (True, s\<lparr>mem := memmove (mem s) (PTE2PA e + (dstva - va0)) src (ucast (chunk dstva len))\<rparr>)))"

lemma page_offset: "unat (va - PG_ROUND_DOWN va) = unat va mod 4096 + unat va div 2 ^ 32 * 2 ^ 32"
proof -
  let ?a = "unat va"
  have a: "?a = ?a div 2 ^ 32 * 2 ^ 32 + ?a mod 2 ^ 32" by (rule div_mult_mod_eq [symmetric])
  have b: "?a mod 2 ^ 32 = ?a mod 2 ^ 32 div 4096 * 4096 + ?a mod 2 ^ 32 mod 4096"
    by (rule div_mult_mod_eq [symmetric])
  have c: "?a mod 2 ^ 32 mod 4096 = ?a mod 4096" by (rule mod_mod_cancel) simp
  have "PG_ROUND_DOWN va \<le> va" unfolding word_le_nat_alt PG_ROUND_DOWN_unat using a b by linarith
  then have "unat (va - PG_ROUND_DOWN va) = ?a - ?a mod 2 ^ 32 div 4096 * 4096"
    by (simp only: unat_sub_no_wrap PG_ROUND_DOWN_unat)
  then show ?thesis using a b c by linarith
qed

lemma chunk_pos:
  assumes "0 < len"
  shows "chunk va len \<noteq> 0" "chunk va len \<le> len"
proof -
  have "va - PG_ROUND_DOWN va \<noteq> 4096"
  proof
    assume "va - PG_ROUND_DOWN va = 4096"
    then have "unat va mod 4096 + unat va div 2 ^ 32 * 2 ^ 32 = 4096" using page_offset [of va] by simp
    moreover have "x + y * 2 ^ 32 \<noteq> 4096" if "x < 4096" for x y :: nat using that by (cases y) simp_all
    ultimately show False by (metis mod_less_divisor zero_less_numeral)
  qed
  then have "PG - (va - PG_ROUND_DOWN va) \<noteq> 0" by (simp only: PG_4096 right_minus_eq)
  then show "chunk va len \<noteq> 0" "chunk va len \<le> len"
    using assms by (auto simp: chunk_def Let_def simp del: PG_4096)
qed

lemma chunk_less: "0 < len \<Longrightarrow> unat (len - chunk va len) < unat len"
  using chunk_pos [of len va] by (simp add: unat_sub_no_wrap word_le_nat_alt unat_gt_0 word_neq_0_conv)

function copyout :: "u64 \<Rightarrow> u64 \<Rightarrow> u64 \<Rightarrow> u64 \<Rightarrow> (vm_state, bool) kop" where
  "copyout pagetable dstva src len s =
     (if len > 0 then kbind (copyout_one pagetable dstva src len) (\<lambda>ok.
         if \<not> ok then kreturn False
         else copyout pagetable (PG_ROUND_DOWN dstva + PG) (src + chunk dstva len) (len - chunk dstva len)) s
      else Inr (True, s))"
  by pat_completeness auto
termination
  by (relation "measure (\<lambda>(pt, d, src, len, s). unat len)") (auto simp: chunk_less)

definition copyin_one :: "u64 \<Rightarrow> u64 \<Rightarrow> u64 \<Rightarrow> u64 \<Rightarrow> (vm_state, bool) kop" where
  "copyin_one pagetable dst srcva len =
     (let va0 = PG_ROUND_DOWN srcva in
      kbind (walkaddr pagetable va0) (\<lambda>pa0.
        if pa0 = 0 then kreturn False
        else kthen (set_mem (\<lambda>m. memmove m dst (pa0 + (srcva - va0)) (ucast (chunk srcva len)))) (kreturn True)))"

function copyin :: "u64 \<Rightarrow> u64 \<Rightarrow> u64 \<Rightarrow> u64 \<Rightarrow> (vm_state, bool) kop" where
  "copyin pagetable dst srcva len s =
     (if len > 0 then kbind (copyin_one pagetable dst srcva len) (\<lambda>ok.
         if \<not> ok then kreturn False
         else copyin pagetable (dst + chunk srcva len) (PG_ROUND_DOWN srcva + PG) (len - chunk srcva len)) s
      else Inr (True, s))"
  by pat_completeness auto
termination
  by (relation "measure (\<lambda>(pt, d, sv, len, s). unat len)") (auto simp: chunk_less)

text \<open>
  The inner loop of \<open>copyinstr\<close> over the \<open>n\<close> bytes left in a page: \<open>True\<close> when it met the
  terminator, with the remaining length and destination otherwise.
\<close>

fun copystr_page :: "nat \<Rightarrow> u64 \<Rightarrow> u64 \<Rightarrow> u64 \<Rightarrow> memory \<Rightarrow> bool \<times> u64 \<times> u64 \<times> memory" where
  "copystr_page 0 dst p len m = (False, dst, len, m)"
| "copystr_page (Suc n) dst p len m =
     (if m p = 0 then (True, dst, len, m(dst := 0))
      else copystr_page n (dst + 1) (p + 1) (len - 1) (m(dst := m p)))"

lemma copystr_page_len:
  "copystr_page n dst p len m = (False, dst', len', m') \<Longrightarrow> len' = len - of_nat n"
  by (induction n arbitrary: dst p len m) (fastforce simp: algebra_simps split: if_splits)+

function copyinstr :: "u64 \<Rightarrow> u64 \<Rightarrow> u64 \<Rightarrow> u64 \<Rightarrow> (vm_state, bool) kop" where
  "copyinstr pagetable dst srcva len s =
     (if len > 0 then kbind (walkaddr pagetable (PG_ROUND_DOWN srcva)) (\<lambda>pa0 s.
         if pa0 = 0 then Inr (False, s)
         else case copystr_page (unat (chunk srcva len)) dst (pa0 + (srcva - PG_ROUND_DOWN srcva)) len (mem s) of
           (True, _, _, m) \<Rightarrow> Inr (True, s\<lparr>mem := m\<rparr>)
         | (False, dst', len', m) \<Rightarrow>
             copyinstr pagetable dst' (PG_ROUND_DOWN srcva + PG) len' (s\<lparr>mem := m\<rparr>)) s
      else Inr (False, s))"
  by pat_completeness auto
termination
proof (relation "measure (\<lambda>(pt, d, sv, len, s). unat len)", simp, goal_cases)
  case (1 pt dst srcva len s pa0 t f y d' z l' m')
  then have "l' = len - chunk srcva len" by (auto dest!: copystr_page_len [OF sym])
  then show ?case using 1(1) chunk_less [of len srcva] by simp
qed

declare unmap_loop.simps [simp del] alloc_loop.simps [simp del] copy_loop.simps [simp del]
  copyout.simps [simp del] copyin.simps [simp del] copyinstr.simps [simp del]

end
