(* ===== verification/Pagetable.thy ===== *)
theory Pagetable
  imports Vm
begin

text \<open>
  Correctness of \<open>Vm\<close>: what \<open>kernel/vm.cpp\<close> does to the byte-addressed memory.  The tables
  below a root form a tree, the entry for an address is found along it, the free pages are a
  linked list, and both stay disjoint.  On top of this: \<open>map_pages\<close> adds exactly the entries it
  is asked for, \<open>copyin\<close> and \<open>copyout\<close> move exactly the bytes of a user range, and the page
  allocator meets the interface \<open>page_pool\<close>.
\<close>

lemma store_le_apply:
  "n \<le> 8 \<Longrightarrow> store_le n m a v b = (if unat (b - a) < n then ucast (drop_bit (8 * unat (b - a)) v) else m b)"
proof (induction n arbitrary: m a v)
  case 0
  then show ?case by simp
next
  case (Suc n)
  have "unat (b - a) = (if b = a then 0 else Suc (unat (b - (a + 1))))"
    by (simp add: diff_diff_eq [symmetric] unat_minus_one) (metis Suc_pred diff_diff_eq eq_iff_diff_eq_0 unat_minus_one unat_gt_0 word_neq_0_conv)
  moreover have "unat (- 1 :: u64) = 18446744073709551615" by (simp add: unsigned_minus_1_eq_mask mask_eq_exp_minus_1)
  ultimately show ?case using Suc by (auto simp: drop_bit_drop_bit add.commute)
qed

lemma store64_apply:
  "store64 m a v b = (if unat (b - a) < 8 then ucast (drop_bit (8 * unat (b - a)) v) else m b)"
  by (simp add: store64_def store_le_apply)

lemma load_le_cong:
  "(\<And>i. i < n \<Longrightarrow> m (a + of_nat i) = m' (a + of_nat i)) \<Longrightarrow> load_le n m a = load_le n m' a"
proof (induction n arbitrary: a)
  case 0
  then show ?case by simp
next
  case (Suc n)
  have "load_le n m (a + 1) = load_le n m' (a + 1)"
    using Suc.prems [of "Suc _"] by (intro Suc.IH) (simp add: algebra_simps)
  then show ?case using Suc.prems [of 0] by simp
qed

lemma load_le_bytes:
  "n \<le> 8 \<Longrightarrow> (\<And>i. i < n \<Longrightarrow> m (a + of_nat i) = ucast (drop_bit (8 * i) v)) \<Longrightarrow> load_le n m a = take_bit (8 * n) v"
proof (induction n arbitrary: a v)
  case 0
  then show ?case by simp
next
  case (Suc n)
  have "load_le n m (a + 1) = take_bit (8 * n) (drop_bit 8 v)"
    using Suc.prems(1) Suc.prems(2) [of "Suc _"]
    by (intro Suc.IH) (simp_all add: algebra_simps drop_bit_drop_bit)
  moreover have "m a = ucast v" using Suc.prems(2) [of 0] by simp
  ultimately have "load_le (Suc n) m a = ucast (ucast v :: u8) OR push_bit 8 (take_bit (8 * n) (drop_bit 8 v))"
    by simp
  also have "\<dots> = take_bit (8 * Suc n) v"
    using Suc.prems(1) by (intro bit_word_eqI) (auto simp: bit_simps)
  finally show ?case .
qed

lemma load_store64 [simp]: "load64 (store64 m a v) a = v"
proof -
  have "load_le 8 (store64 m a v) a = take_bit (8 * 8) v"
    by (rule load_le_bytes) (simp_all add: store64_apply)
  then show ?thesis by (simp add: load64_def take_bit_word_eq_self)
qed

lemma load64_cong: "(\<And>i. i < 8 \<Longrightarrow> m (a + of_nat i) = m' (a + of_nat i)) \<Longrightarrow> load64 m a = load64 m' a"
  unfolding load64_def by (rule load_le_cong)

section \<open>Pages\<close>

definition aligned :: "u64 \<Rightarrow> bool" where "aligned p \<longleftrightarrow> unat p mod 4096 = 0"
definition page :: "u64 \<Rightarrow> nat" where "page a = unat a div 4096"

lemma aligned_page_eq: "aligned p \<Longrightarrow> aligned q \<Longrightarrow> page p = page q \<longleftrightarrow> p = q"
  unfolding aligned_def page_def by (metis div_mult_mod_eq word_unat_eq_iff)

lemma aligned_room: "aligned p \<Longrightarrow> k < 4096 \<Longrightarrow> unat (p + of_nat k) = unat p + k"
proof -
  assume a: "aligned p" "k < 4096"
  have "unat p < 4096 * 4503599627370496" using unat_lt [of p] by simp
  then have "unat p div 4096 < 4503599627370496" by (simp add: less_mult_imp_div_less mult.commute)
  moreover have "unat p = unat p div 4096 * 4096" using a(1) by (auto simp: aligned_def)
  ultimately have "unat p + k < 2 ^ 64" using a(2) by simp
  then show ?thesis using a(2) by (subst unat_add_no_wrap) simp_all
qed

lemma page_at: "aligned p \<Longrightarrow> k < 4096 \<Longrightarrow> page (p + of_nat k) = page p"
  using aligned_room [of p k] by (auto simp: page_def aligned_def)

lemma in_page: "aligned p \<Longrightarrow> unat (a - p) < 4096 \<longleftrightarrow> page a = page p"
proof
  assume p: "aligned p"
  show "page a = page p" if "unat (a - p) < 4096"
    using page_at [OF p that] by simp
  show "unat (a - p) < 4096" if "page a = page p"
  proof -
    have "unat p = page p * 4096" using p by (auto simp: page_def aligned_def)
    moreover have "unat a = page a * 4096 + unat a mod 4096" by (simp add: page_def)
    ultimately have "unat a = unat p + unat a mod 4096" using that by simp
    then show ?thesis by (simp add: unat_sub_if_size)
  qed
qed

lemma memset_page: "aligned p \<Longrightarrow> memset m p c PGSIZE = (\<lambda>a. if page a = page p then ucast c else m a)"
  by (simp add: memset_spec in_page PGSIZE_def)

lemma PTE2PA_aligned [simp]: "aligned (PTE2PA e)"
proof -
  have "take_bit 12 (PTE2PA e) = 0" by (rule bit_word_eqI) (simp add: PTE2PA_def bit_simps)
  then have "take_bit 12 (unat (PTE2PA e)) = 0" by (metis unsigned_take_bit_eq unsigned_0)
  then show ?thesis by (simp add: aligned_def take_bit_eq_mod)
qed

section \<open>Tables\<close>

definition table :: "memory \<Rightarrow> u64 \<Rightarrow> nat \<Rightarrow> u64" where
  "table m p i = load64 m (p + 8 * of_nat i)"

lemma entry_byte:
  assumes "aligned p" and "i < 512" and "k < 8"
  shows "p + 8 * of_nat i + of_nat k = p + of_nat (8 * i + k)" "8 * i + k < 4096"
  using assms(2,3) by simp_all

lemma page_entry:
  assumes "aligned p" and "i < 512" and "k < 8"
  shows "page (p + 8 * of_nat i + of_nat k) = page p"
  unfolding entry_byte(1) [OF assms] by (rule page_at [OF assms(1) entry_byte(2) [OF assms]])

lemma table_store:
  assumes "aligned p" and "aligned q" and "i < 512" and "j < 512"
  shows "table (store64 m (p + 8 * of_nat i) v) q j = (if q = p \<and> j = i then v else table m q j)"
proof (cases "q = p \<and> j = i")
  case True
  then show ?thesis by (simp add: table_def)
next
  case False
  have "8 \<le> unat (q + of_nat (8 * j + k) - (p + of_nat (8 * i)))" if k: "k < 8" for k
  proof (rule ccontr)
    assume "\<not> ?thesis"
    then have "unat (q + of_nat (8 * j + k) - (p + of_nat (8 * i))) < 8" by simp
    moreover define l where "l = unat (q + of_nat (8 * j + k) - (p + of_nat (8 * i)))"
    ultimately have l: "l < 8" "q + of_nat (8 * j + k) = p + of_nat (8 * i + l)" by simp_all
    then have "unat q + (8 * j + k) = unat p + (8 * i + l)"
      using assms k aligned_room [of q "8 * j + k"] aligned_room [of p "8 * i + l"] by simp
    moreover have "page q = page p"
      using l assms k page_at [of q "8 * j + k"] page_at [of p "8 * i + l"] by simp
    then have "q = p" using assms aligned_page_eq by blast
    ultimately have "j = i" using l(1) k by simp
    then show False using False \<open>q = p\<close> by simp
  qed
  then have "\<not> unat (q + 8 * of_nat j + of_nat k - (p + 8 * of_nat i)) < 8" if "k < 8" for k
    using that by (simp add: add.assoc not_less)
  then have "table (store64 m (p + 8 * of_nat i) v) q j = table m q j"
    unfolding table_def by (intro load64_cong) (simp add: store64_apply)
  then show ?thesis using False by auto
qed

lemma table_fill:
  assumes "aligned p" and "aligned q" and "j < 512"
  shows "table (memset m p 0 PGSIZE) q j = (if q = p then 0 else table m q j)"
proof -
  have b: "memset m p 0 PGSIZE (q + 8 * of_nat j + of_nat k) = (if q = p then 0 else m (q + 8 * of_nat j + of_nat k))"
    if "k < 8" for k
    using page_entry [OF assms(2,3) that] aligned_page_eq [OF assms(2,1)] assms(1) by (simp add: memset_page)
  show ?thesis
  proof (cases "q = p")
    case True
    have "load_le 8 (memset m p 0 PGSIZE) (q + 8 * of_nat j) = take_bit (8 * 8) 0"
      by (rule load_le_bytes) (use b True in simp_all)
    then show ?thesis using True by (simp add: table_def load64_def)
  next
    case False
    then show ?thesis unfolding table_def using b by (auto intro!: load64_cong)
  qed
qed

lemma table_other:
  assumes "aligned q" and "j < 512" and "\<And>a. page a = page q \<Longrightarrow> m' a = m a"
  shows "table m' q j = table m q j"
  unfolding table_def
proof (rule load64_cong)
  fix k :: nat assume "k < 8"
  then show "m' (q + 8 * of_nat j + of_nat k) = m (q + 8 * of_nat j + of_nat k)"
    using page_entry [OF assms(1,2)] assms(3) by blast
qed

section \<open>The tree of tables\<close>

definition px :: "nat \<Rightarrow> u64 \<Rightarrow> nat" where "px l va = unat (PX l va)"

lemma px_lt [simp]: "px l va < 512" by (simp add: px_def PX_lt)

lemma of_nat_px: "of_nat (px l va) = PX l va" by (simp add: px_def)

abbreviation valid_pte :: "u64 \<Rightarrow> bool" where "valid_pte e \<equiv> bit e 0"

text \<open>
  The tables below a root: one of level 1 for every valid entry of the root, one of level 0
  for every valid entry of those.  They form a tree when no page occurs twice.
\<close>

definition slots :: "memory \<Rightarrow> u64 \<Rightarrow> nat set" where
  "slots m p = {i. i < 512 \<and> valid_pte (table m p i)}"

definition child :: "memory \<Rightarrow> u64 \<Rightarrow> nat \<Rightarrow> u64" where
  "child m p i = PTE2PA (table m p i)"

definition paths :: "memory \<Rightarrow> u64 \<Rightarrow> (nat \<times> nat) set" where
  "paths m pt = (SIGMA i : slots m pt. slots m (child m pt i))"

definition node0 :: "memory \<Rightarrow> u64 \<Rightarrow> nat \<times> nat \<Rightarrow> u64" where
  "node0 m pt ij = child m (child m pt (fst ij)) (snd ij)"

definition nodes :: "memory \<Rightarrow> u64 \<Rightarrow> u64 set" where
  "nodes m pt = insert pt (child m pt ` slots m pt \<union> node0 m pt ` paths m pt)"

definition tree :: "memory \<Rightarrow> u64 \<Rightarrow> bool" where
  "tree m pt \<longleftrightarrow> aligned pt \<and> pt \<notin> child m pt ` slots m pt \<and> pt \<notin> node0 m pt ` paths m pt
     \<and> child m pt ` slots m pt \<inter> node0 m pt ` paths m pt = {}
     \<and> inj_on (child m pt) (slots m pt) \<and> inj_on (node0 m pt) (paths m pt)"

text \<open>The level-0 table that serves \<open>va\<close>, and the entry for \<open>va\<close> (0 where there is none).\<close>

definition reach :: "memory \<Rightarrow> u64 \<Rightarrow> u64 \<Rightarrow> u64 option" where
  "reach m pt va = (if (px 2 va, px 1 va) \<in> paths m pt then Some (node0 m pt (px 2 va, px 1 va)) else None)"

definition leaf :: "memory \<Rightarrow> u64 \<Rightarrow> u64 \<Rightarrow> u64" where
  "leaf m pt va = (case reach m pt va of None \<Rightarrow> 0 | Some q \<Rightarrow> table m q (px 0 va))"

lemma child_aligned [simp]: "aligned (child m p i)" by (simp add: child_def)
lemma node0_aligned [simp]: "aligned (node0 m p ij)" by (simp add: node0_def)

lemma walk_level_valid:
  "px l va \<in> slots (mem s) p \<Longrightarrow> walk_level p va al l s = Inr (Some (child (mem s) p (px l va)), s)"
  by (simp add: slots_def walk_level_def table_def of_nat_px child_def and_PTE_iff)

lemma not_slot: "px l va \<notin> slots m p \<longleftrightarrow> load64 m (p + 8 * PX l va) AND PTE_V = 0"
  using and_PTE_iff(1) [of "table m p (px l va)"] by (auto simp: slots_def table_def of_nat_px)

lemma walk_level_none:
  "px l va \<notin> slots (mem s) p \<Longrightarrow> walk_level p va False l s = Inr (None, s)"
  by (simp add: not_slot walk_level_def)

lemma walk_noalloc:
  "va \<le> VA_MAX \<Longrightarrow> walk pt va False s = Inr (map_option (\<lambda>q. q + 8 * PX 0 va) (reach (mem s) pt va), s)"
  by (cases "px 2 va \<in> slots (mem s) pt"; cases "px 1 va \<in> slots (mem s) (child (mem s) pt (px 2 va))")
    (auto simp: walk_def reach_def paths_def node0_def kbind_def walk_level_valid walk_level_none not_less)

lemma load_leaf: "reach m pt va = Some q \<Longrightarrow> load64 m (q + 8 * PX 0 va) = leaf m pt va"
  by (simp add: leaf_def table_def of_nat_px)

lemma reach_in_nodes: "reach m pt va = Some q \<Longrightarrow> q \<in> nodes m pt"
  by (auto simp: reach_def nodes_def split: if_splits)

lemma reach_aligned: "reach m pt va = Some q \<Longrightarrow> aligned q"
  by (auto simp: reach_def split: if_splits)

lemma nodes_aligned: "aligned pt \<Longrightarrow> q \<in> nodes m pt \<Longrightarrow> aligned q"
  by (auto simp: nodes_def)

text \<open>Memories that agree on the root and the tables of level 1 have the same tables.\<close>

lemma tables_cong:
  assumes "\<And>i. i < 512 \<Longrightarrow> table m' pt i = table m pt i"
    and "\<And>a i. a \<in> slots m pt \<Longrightarrow> i < 512 \<Longrightarrow> table m' (child m pt a) i = table m (child m pt a) i"
  shows "slots m' pt = slots m pt" "i < 512 \<Longrightarrow> child m' pt i = child m pt i" "paths m' pt = paths m pt"
    "ij \<in> paths m pt \<Longrightarrow> node0 m' pt ij = node0 m pt ij"
    "nodes m' pt = nodes m pt" "tree m' pt = tree m pt" "reach m' pt = reach m pt"
proof -
  show s: "slots m' pt = slots m pt" using assms(1) by (auto simp: slots_def)
  show c: "child m' pt i = child m pt i" if "i < 512" for i using assms(1) that by (simp add: child_def)
  have sl: "a \<in> slots m pt \<Longrightarrow> a < 512" for a by (simp add: slots_def)
  have s1: "slots m' (child m pt a) = slots m (child m pt a)" if "a \<in> slots m pt" for a
    using assms(2) [OF that] by (auto simp: slots_def)
  show p: "paths m' pt = paths m pt" by (auto simp: paths_def s c sl s1)
  show n: "node0 m' pt ij = node0 m pt ij" if "ij \<in> paths m pt" for ij
  proof -
    have "fst ij \<in> slots m pt" "snd ij < 512" using that by (auto simp: paths_def slots_def)
    then have "table m' (child m pt (fst ij)) (snd ij) = table m (child m pt (fst ij)) (snd ij)" "fst ij < 512"
      using assms(2) sl by auto
    then show ?thesis by (simp add: node0_def c) (simp add: child_def [of _ "child m pt (fst ij)"])
  qed
  have im: "child m' pt ` slots m pt = child m pt ` slots m pt" using c sl by (auto intro!: image_cong)
  have im2: "node0 m' pt ` paths m pt = node0 m pt ` paths m pt" using n by (auto intro!: image_cong)
  show "nodes m' pt = nodes m pt" by (simp add: nodes_def s p im im2)
  have "inj_on (child m' pt) (slots m pt) = inj_on (child m pt) (slots m pt)"
    using c sl by (auto simp: inj_on_def)
  moreover have "inj_on (node0 m' pt) (paths m pt) = inj_on (node0 m pt) (paths m pt)"
    using n by (auto simp: inj_on_def)
  ultimately show "tree m' pt = tree m pt" by (simp add: tree_def s p im im2)
  show "reach m' pt = reach m pt" using n by (auto simp: reach_def p)
qed

lemma tree_reach:
  assumes "tree m pt" and "reach m pt va = Some q"
  shows "q \<noteq> pt" and "a \<in> slots m pt \<Longrightarrow> q \<noteq> child m pt a"
    and "reach m pt va' = Some q \<longleftrightarrow> px 2 va' = px 2 va \<and> px 1 va' = px 1 va"
proof -
  have q: "q = node0 m pt (px 2 va, px 1 va)" "(px 2 va, px 1 va) \<in> paths m pt"
    using assms(2) by (auto simp: reach_def split: if_splits)
  then have "q \<in> node0 m pt ` paths m pt" by blast
  then show "q \<noteq> pt" "a \<in> slots m pt \<Longrightarrow> q \<noteq> child m pt a" using assms(1) unfolding tree_def by blast+
  have "inj_on (node0 m pt) (paths m pt)" using assms(1) by (simp add: tree_def)
  then show "reach m pt va' = Some q \<longleftrightarrow> px 2 va' = px 2 va \<and> px 1 va' = px 1 va"
    using q by (auto simp: reach_def dest: inj_onD)
qed

text \<open>Writing an entry of a level-0 table changes the entry of its page only.\<close>

definition same_page :: "u64 \<Rightarrow> u64 \<Rightarrow> bool" where
  "same_page va va' \<longleftrightarrow> px 2 va' = px 2 va \<and> px 1 va' = px 1 va \<and> px 0 va' = px 0 va"

lemma store_leaf:
  fixes v :: u64
  assumes t: "tree m pt" and r: "reach m pt va = Some q"
  defines "m' \<equiv> store64 m (q + 8 * PX 0 va) v"
  shows "tree m' pt" and "nodes m' pt = nodes m pt" and "reach m' pt = reach m pt"
    and "leaf m' pt va' = (if same_page va va' then v else leaf m pt va')"
    and "page a \<notin> page ` nodes m pt \<Longrightarrow> m' a = m a"
proof -
  have m': "m' = store64 m (q + 8 * of_nat (px 0 va)) v" by (simp add: m'_def of_nat_px)
  have al: "aligned q" "aligned pt" using reach_aligned [OF r] t by (simp_all add: tree_def)
  have tab: "table m' p i = (if p = q \<and> i = px 0 va then v else table m p i)" if "aligned p" "i < 512" for p i
    unfolding m' using table_store [OF al(1) that(1) px_lt that(2)] .
  have root: "table m' pt i = table m pt i" if "i < 512" for i
    using tab [OF al(2) that] tree_reach(1) [OF t r] by auto
  have lev1: "table m' (child m pt a) i = table m (child m pt a) i" if "a \<in> slots m pt" "i < 512" for a i
    using tab [OF child_aligned that(2)] tree_reach(2) [OF t r that(1)] by auto
  note c = tables_cong [OF root lev1]
  show "tree m' pt" "nodes m' pt = nodes m pt" and re: "reach m' pt = reach m pt" using c t by auto
  show "leaf m' pt va' = (if same_page va va' then v else leaf m pt va')"
  proof (cases "reach m pt va'")
    case None
    then have "\<not> same_page va va'" using r by (auto simp: same_page_def reach_def split: if_splits)
    then show ?thesis using None by (simp add: leaf_def re)
  next
    case (Some q')
    then show ?thesis
      using tab [OF reach_aligned [OF Some] px_lt] tree_reach(3) [OF t r, of va']
      by (auto simp: leaf_def re same_page_def)
  qed
  assume "page a \<notin> page ` nodes m pt"
  then have "page a \<noteq> page q" using reach_in_nodes [OF r] by auto
  then have "\<not> unat (a - (q + 8 * PX 0 va)) < 8"
  proof -
    have "page a = page q" if u: "unat (a - (q + 8 * PX 0 va)) < 8"
      using page_entry [OF al(1) px_lt u, of 0 va] by (simp add: of_nat_px)
    then show ?thesis using \<open>page a \<noteq> page q\<close> by blast
  qed
  then show "m' a = m a" by (simp add: m'_def store64_apply)
qed

section \<open>The free list\<close>

fun flist :: "memory \<Rightarrow> u64 \<Rightarrow> u64 list \<Rightarrow> bool" where
  "flist m p [] \<longleftrightarrow> p = 0"
| "flist m p (x # xs) \<longleftrightarrow> p = x \<and> x \<noteq> 0 \<and> aligned x \<and> unat x < 2 ^ 56 \<and> flist m (load64 m x) xs"

lemma flist_mem: "flist m p xs \<Longrightarrow> x \<in> set xs \<Longrightarrow> x \<noteq> 0 \<and> aligned x \<and> unat x < 2 ^ 56"
  by (induction xs arbitrary: p) auto

lemma flist_cong:
  "(\<And>x a. x \<in> set xs \<Longrightarrow> page a = page x \<Longrightarrow> m' a = m a) \<Longrightarrow> flist m' p xs = flist m p xs"
proof (induction xs arbitrary: p)
  case Nil
  then show ?case by simp
next
  case (Cons x xs)
  have IH: "flist m' q xs = flist m q xs" for q by (rule Cons.IH) (rule Cons.prems, simp_all)
  have "load64 m' x = load64 m x" if "aligned x"
    using table_other [OF that, of 0 m' m] Cons.prems [of x] by (simp add: table_def)
  then show ?case using IH by (cases "aligned x") simp_all
qed

lemma kalloc_empty: "flist (mem s) (freelist s) [] \<Longrightarrow> kalloc s = Inr (None, s)"
  by (simp add: kalloc_def)

lemma kalloc_page:
  assumes "flist (mem s) (freelist s) (x # xs)" and "distinct (x # xs)"
  shows "\<exists>t. kalloc s = Inr (Some x, t) \<and> flist (mem t) (freelist t) xs
    \<and> mem t = memset (mem s) x 5 PGSIZE \<and> kernel_pagetable t = kernel_pagetable s"
proof -
  have x: "aligned x" "freelist s = x" "x \<noteq> 0" using assms by auto
  let ?m = "memset (mem s) x 5 PGSIZE"
  have "flist ?m (load64 (mem s) x) xs = flist (mem s) (load64 (mem s) x) xs"
  proof (rule flist_cong)
    fix y a assume "y \<in> set xs" "page a = page y"
    then have "page a \<noteq> page x"
      using assms flist_mem [OF assms(1), of y] aligned_page_eq [of x y] by auto
    then show "?m a = mem s a" using x by (simp add: memset_page)
  qed
  then show ?thesis using assms x by (simp add: kalloc_def Let_def)
qed

lemma kfree_page:
  assumes "flist (mem s) (freelist s) xs" and "p \<noteq> 0" "aligned p" "unat p < 2 ^ 56" and "p \<notin> set xs"
  shows "\<exists>t. kfree p s = Inr ((), t) \<and> flist (mem t) (freelist t) (p # xs)
    \<and> (\<forall>a. page a \<noteq> page p \<longrightarrow> mem t a = mem s a) \<and> kernel_pagetable t = kernel_pagetable s"
proof -
  let ?m = "store64 (memset (mem s) p 1 PGSIZE) p (freelist s)"
  have fr: "?m a = mem s a" if "page a \<noteq> page p" for a
  proof -
    have "\<not> unat (a - p) < 8" using in_page [OF assms(3), of a] that by auto
    then show ?thesis using that assms(3) by (simp add: store64_apply memset_page)
  qed
  have "flist ?m (freelist s) xs = flist (mem s) (freelist s) xs"
  proof (rule flist_cong)
    fix y a assume "y \<in> set xs" "page a = page y"
    then have "page a \<noteq> page p"
      using assms flist_mem [OF assms(1), of y] aligned_page_eq [of p y] by auto
    then show "?m a = mem s a" by (rule fr)
  qed
  then show ?thesis using assms fr by (simp add: kfree_def Let_def)
qed

section \<open>Adding a table\<close>

definition entry :: "u64 \<Rightarrow> u64" where "entry f = PA2PTE f OR PTE_V"

lemma entry_valid: "valid_pte (entry f)" by (simp add: entry_def PTE_V_def bit_simps)

lemma entry_pa: "aligned f \<Longrightarrow> unat f < 2 ^ 56 \<Longrightarrow> PTE2PA (entry f) = f"
  unfolding entry_def by (rule PTE2PA_mk) (simp_all add: aligned_def PTE_V_def)

definition add_table :: "memory \<Rightarrow> u64 \<Rightarrow> u64 \<Rightarrow> nat \<Rightarrow> memory" where
  "add_table m f p i = store64 (memset m f 0 PGSIZE) (p + 8 * of_nat i) (entry f)"

lemma add_table_table:
  assumes "aligned f" "aligned p" "aligned q" "i < 512" "j < 512" "p \<noteq> f"
  shows "table (add_table m f p i) q j = (if q = p \<and> j = i then entry f else if q = f then 0 else table m q j)"
  unfolding add_table_def by (simp only: table_store [OF assms(2,3,4,5)] table_fill [OF assms(1,3,5)])

lemma add_table_frame:
  assumes "aligned f" "aligned p" "i < 512" and "page a \<noteq> page f" "page a \<noteq> page p"
  shows "add_table m f p i a = m a"
proof -
  have "\<not> unat (a - (p + 8 * of_nat i)) < 8"
  proof
    assume u: "unat (a - (p + 8 * of_nat i)) < 8"
    show False using page_entry [OF assms(2,3) u] assms(5) by simp
  qed
  then show ?thesis using assms by (simp add: add_table_def store64_apply memset_page)
qed

lemma tree_nodes:
  assumes "tree m pt"
  shows "a \<in> slots m pt \<Longrightarrow> child m pt a \<noteq> pt" "ij \<in> paths m pt \<Longrightarrow> node0 m pt ij \<noteq> pt"
    "a \<in> slots m pt \<Longrightarrow> ij \<in> paths m pt \<Longrightarrow> node0 m pt ij \<noteq> child m pt a"
    "a \<in> slots m pt \<Longrightarrow> b \<in> slots m pt \<Longrightarrow> child m pt a = child m pt b \<longleftrightarrow> a = b"
proof -
  note t = assms [unfolded tree_def]
  show "a \<in> slots m pt \<Longrightarrow> child m pt a \<noteq> pt" using t by (metis imageI)
  show "ij \<in> paths m pt \<Longrightarrow> node0 m pt ij \<noteq> pt" using t by (metis imageI)
  show "a \<in> slots m pt \<Longrightarrow> ij \<in> paths m pt \<Longrightarrow> node0 m pt ij \<noteq> child m pt a" using t by (metis disjoint_iff imageI)
  have "inj_on (child m pt) (slots m pt)" using t by simp
  then show "a \<in> slots m pt \<Longrightarrow> b \<in> slots m pt \<Longrightarrow> child m pt a = child m pt b \<longleftrightarrow> a = b" by (auto dest: inj_onD)
qed

lemma in_nodes:
  "pt \<in> nodes m pt" "a \<in> slots m pt \<Longrightarrow> child m pt a \<in> nodes m pt" "ij \<in> paths m pt \<Longrightarrow> node0 m pt ij \<in> nodes m pt"
  by (auto simp: nodes_def)

lemma add_root:
  assumes t: "tree m pt" and i: "i < 512" "i \<notin> slots m pt"
    and f: "aligned f" "unat f < 2 ^ 56" "f \<notin> nodes m pt"
  defines "m' \<equiv> add_table m f pt i"
  shows "tree m' pt" and "nodes m' pt = insert f (nodes m pt)" and "leaf m' pt va = leaf m pt va"
    and "i \<in> slots m' pt" and "child m' pt i = f"
proof -
  have al: "aligned pt" "pt \<noteq> f" using t f(3) by (auto simp: tree_def nodes_def)
  have tab: "table m' q j = (if q = pt \<and> j = i then entry f else if q = f then 0 else table m q j)"
    if "aligned q" "j < 512" for q j
    unfolding m'_def by (rule add_table_table [OF f(1) al(1) that(1) i(1) that(2) al(2)])
  have S: "slots m' pt = insert i (slots m pt)"
    using i al tab [OF al(1)] by (auto simp: slots_def entry_valid)
  have C: "child m' pt j = (if j = i then f else child m pt j)" if "j < 512" for j
    using tab [OF al(1) that] al f by (simp add: child_def entry_pa)
  have Sf: "slots m' f = {}" using tab [OF f(1)] al by (auto simp: slots_def)
  have S1: "slots m' (child m pt j) = slots m (child m pt j)" if "j \<in> slots m pt" for j
  proof -
    have "child m pt j \<noteq> pt" "child m pt j \<noteq> f"
      using tree_nodes(1) [OF t that] in_nodes(2) [OF that] f(3) by auto
    then show ?thesis using tab [OF child_aligned] by (auto simp: slots_def)
  qed
  have lt: "j \<in> slots m pt \<Longrightarrow> j < 512" for j by (simp add: slots_def)
  have P: "paths m' pt = paths m pt"
    using S C Sf S1 lt i by (auto simp: paths_def split: if_splits)
  have N: "node0 m' pt ij = node0 m pt ij" if "ij \<in> paths m pt" for ij
  proof -
    have j: "fst ij \<in> slots m pt" "snd ij < 512" "fst ij \<noteq> i" "fst ij < 512"
      using that i by (auto simp: paths_def slots_def)
    then have "child m pt (fst ij) \<noteq> pt" "child m pt (fst ij) \<noteq> f"
      using tree_nodes(1) [OF t] in_nodes(2) f(3) by auto
    then have "table m' (child m pt (fst ij)) (snd ij) = table m (child m pt (fst ij)) (snd ij)"
      using tab [OF child_aligned j(2)] by simp
    then show ?thesis using j by (simp add: node0_def C) (simp add: child_def [of _ "child m pt (fst ij)"])
  qed
  have im: "child m' pt ` slots m' pt = insert f (child m pt ` slots m pt)"
    using S C i lt by (auto simp: image_iff) 
  have im2: "node0 m' pt ` paths m pt = node0 m pt ` paths m pt" using N by (auto intro!: image_cong)
  show "i \<in> slots m' pt" "child m' pt i = f" using S C i by auto
  show "nodes m' pt = insert f (nodes m pt)" by (auto simp: nodes_def P im im2)
  have nf: "f \<notin> child m pt ` slots m pt" "f \<notin> node0 m pt ` paths m pt" using f(3) by (auto simp: nodes_def)
  have "inj_on (child m' pt) (slots m' pt)"
    using t nf(1) i lt by (auto simp: S C inj_on_def tree_def)
  moreover have "inj_on (node0 m' pt) (paths m pt)" using t N by (auto simp: tree_def inj_on_def)
  ultimately show "tree m' pt" using t nf(2) al by (auto simp: tree_def P im im2)
  show "leaf m' pt va = leaf m pt va"
  proof (cases "(px 2 va, px 1 va) \<in> paths m pt")
    case True
    let ?q = "node0 m pt (px 2 va, px 1 va)"
    have "?q \<noteq> pt" "?q \<noteq> f" using tree_nodes(2) [OF t True] in_nodes(3) [OF True] f(3) by auto
    then show ?thesis using True tab [OF node0_aligned px_lt] by (simp add: leaf_def reach_def P N)
  next
    case False
    then show ?thesis by (simp add: leaf_def reach_def P)
  qed
qed

lemma add_level1:
  assumes t: "tree m pt" and a: "a \<in> slots m pt" and b: "b < 512" "b \<notin> slots m (child m pt a)"
    and f: "aligned f" "unat f < 2 ^ 56" "f \<notin> nodes m pt"
  defines "m' \<equiv> add_table m f (child m pt a) b"
  shows "tree m' pt" and "nodes m' pt = insert f (nodes m pt)" and "leaf m' pt va = leaf m pt va"
    and "(a, b) \<in> paths m' pt" and "node0 m' pt (a, b) = f"
proof -
  let ?p = "child m pt a"
  have pf: "?p \<noteq> f" "?p \<noteq> pt" "pt \<noteq> f" "aligned pt" and a512: "a < 512"
    using tree_nodes(1) [OF t a] in_nodes(1) [of pt m] in_nodes(2) [OF a] f(3) t a by (auto simp: tree_def slots_def)
  have tab: "table m' q j = (if q = ?p \<and> j = b then entry f else if q = f then 0 else table m q j)"
    if "aligned q" "j < 512" for q j
    unfolding m'_def by (rule add_table_table [OF f(1) child_aligned that(1) b(1) that(2) pf(1)])
  have lt: "j \<in> slots m p \<Longrightarrow> j < 512" for j p by (simp add: slots_def)
  have S: "slots m' pt = slots m pt" using tab [OF pf(4)] pf by (auto simp: slots_def)
  have C: "child m' pt j = child m pt j" if "j < 512" for j using tab [OF pf(4) that] pf by (simp add: child_def)
  have nf: "child m pt j \<noteq> f" if "j \<in> slots m pt" for j using in_nodes(2) [OF that] f(3) by auto
  have S1: "slots m' (child m pt j) = (if j = a then insert b (slots m ?p) else slots m (child m pt j))"
    if "j \<in> slots m pt" for j
    using tab [OF child_aligned, of _ m pt j] tree_nodes(4) [OF t that a] nf [OF that] b
    by (auto simp: slots_def entry_valid)
  have C1: "child m' (child m pt j) k = (if j = a \<and> k = b then f else child m (child m pt j) k)"
    if "j \<in> slots m pt" "k < 512" for j k
    using tab [OF child_aligned that(2), of m pt j] tree_nodes(4) [OF t that(1) a] nf [OF that(1)] f
    by (auto simp: child_def [of _ "child m pt j"] entry_pa)
  have P: "paths m' pt = insert (a, b) (paths m pt)"
    using S C S1 lt a by (auto simp: paths_def split: if_splits)
  have N: "node0 m' pt (j, k) = (if (j, k) = (a, b) then f else node0 m pt (j, k))"
    if "(j, k) \<in> paths m' pt" for j k
    using that C1 C lt a b unfolding P by (auto simp: node0_def paths_def)
  have nab: "(a, b) \<notin> paths m pt" using b by (auto simp: paths_def)
  show "(a, b) \<in> paths m' pt" "node0 m' pt (a, b) = f" using P N by auto
  have im: "child m' pt ` slots m pt = child m pt ` slots m pt" using C lt by (auto intro!: image_cong)
  have N': "node0 m' pt ij = node0 m pt ij" if "ij \<in> paths m pt" for ij
    using that nab N [of "fst ij" "snd ij"] P by auto
  have im2: "node0 m' pt ` paths m' pt = insert f (node0 m pt ` paths m pt)"
    unfolding P using N' N [of a b] P by (auto intro!: image_cong)
  show "nodes m' pt = insert f (nodes m pt)" by (auto simp: nodes_def S im im2)
  have ff: "f \<notin> child m pt ` slots m pt" "f \<notin> node0 m pt ` paths m pt" using f(3) by (auto simp: nodes_def)
  have "inj_on (node0 m' pt) (paths m' pt)"
  proof -
    have "inj_on (node0 m' pt) (paths m pt)" using t N' by (auto simp: tree_def inj_on_def)
    moreover have "node0 m' pt ` paths m pt = node0 m pt ` paths m pt" using N' by (auto intro!: image_cong)
    ultimately show ?thesis unfolding P using ff nab N [of a b] P by (auto simp: inj_on_insert)
  qed
  moreover have "inj_on (child m' pt) (slots m pt)" using t C lt by (auto simp: tree_def inj_on_def)
  ultimately show "tree m' pt" using t ff pf by (auto simp: tree_def S im im2)
  show "leaf m' pt va = leaf m pt va"
  proof (cases "(px 2 va, px 1 va) \<in> paths m pt")
    case True
    let ?q = "node0 m pt (px 2 va, px 1 va)"
    have "?q \<noteq> ?p" "?q \<noteq> f" using tree_nodes(3) [OF t a True] in_nodes(3) [OF True] f(3) by auto
    then show ?thesis using True tab [OF node0_aligned px_lt] N' [OF True] by (simp add: leaf_def reach_def P)
  next
    case False
    show ?thesis
    proof (cases "(px 2 va, px 1 va) = (a, b)")
      case True
      then have "reach m' pt va = Some f" using P N [of a b] by (simp add: reach_def)
      then show ?thesis using False tab [OF f(1) px_lt] pf(1) by (auto simp: leaf_def reach_def)
    next
      case 2: False
      then have "reach m' pt va = None" "reach m pt va = None" using False by (auto simp: reach_def P)
      then show ?thesis by (simp add: leaf_def)
    qed
  qed
qed

section \<open>Walking with allocation\<close>

text \<open>A page table and the pages of the free list: the tables form a tree that no free page belongs to.\<close>

definition vm_ok :: "vm_state \<Rightarrow> u64 \<Rightarrow> u64 list \<Rightarrow> bool" where
  "vm_ok s pt xs \<longleftrightarrow> tree (mem s) pt \<and> flist (mem s) (freelist s) xs \<and> distinct xs \<and> set xs \<inter> nodes (mem s) pt = {}"

text \<open>
  \<open>t\<close> has the same mappings as \<open>s\<close>, the free pages \<open>ys\<close> are what is left of \<open>xs\<close>, and memory
  has changed in tables and in the pages taken from the free list only.
\<close>

definition grown :: "u64 \<Rightarrow> vm_state \<Rightarrow> u64 list \<Rightarrow> vm_state \<Rightarrow> u64 list \<Rightarrow> bool" where
  "grown pt s xs t ys \<longleftrightarrow> vm_ok t pt ys \<and> (\<exists>us. xs = us @ ys) \<and> leaf (mem t) pt = leaf (mem s) pt
     \<and> nodes (mem s) pt \<subseteq> nodes (mem t) pt \<and> nodes (mem t) pt \<subseteq> nodes (mem s) pt \<union> set xs
     \<and> (\<forall>a. page a \<notin> page ` (nodes (mem s) pt \<union> set xs) \<longrightarrow> mem t a = mem s a)
     \<and> kernel_pagetable t = kernel_pagetable s"

lemma grown_refl: "vm_ok s pt xs \<Longrightarrow> grown pt s xs s xs" by (auto simp: grown_def)

lemma grown_trans:
  assumes g: "grown pt s xs t ys" and h: "grown pt t ys u zs"
  shows "grown pt s xs u zs"
proof -
  obtain us vs where xs: "xs = us @ ys" "ys = vs @ zs" using g h by (auto simp: grown_def)
  then have sub: "nodes (mem t) pt \<union> set ys \<subseteq> nodes (mem s) pt \<union> set xs" using g by (auto simp: grown_def)
  have "mem u a = mem s a" if "page a \<notin> page ` (nodes (mem s) pt \<union> set xs)" for a
  proof -
    have "page a \<notin> page ` (nodes (mem t) pt \<union> set ys)" using that sub by blast
    then show ?thesis using g h that by (simp add: grown_def)
  qed
  moreover have "\<exists>ws. xs = ws @ zs" using xs by auto
  moreover have "nodes (mem u) pt \<subseteq> nodes (mem s) pt \<union> set xs" using h sub by (auto simp: grown_def)
  moreover have "nodes (mem s) pt \<subseteq> nodes (mem u) pt" using g h by (auto simp: grown_def)
  ultimately show ?thesis using g h by (simp add: grown_def)
qed

text \<open>Memories that agree on all tables.\<close>

lemma frame_nodes:
  assumes "aligned pt" and e: "\<And>a. page a \<in> page ` nodes m pt \<Longrightarrow> m' a = m a"
  shows "tree m' pt = tree m pt" "nodes m' pt = nodes m pt" "reach m' pt = reach m pt" "leaf m' pt = leaf m pt"
    "slots m' pt = slots m pt" "paths m' pt = paths m pt" "i < 512 \<Longrightarrow> child m' pt i = child m pt i"
    "ij \<in> paths m pt \<Longrightarrow> node0 m' pt ij = node0 m pt ij"
    "a \<in> slots m pt \<Longrightarrow> slots m' (child m pt a) = slots m (child m pt a)"
proof -
  have tab: "table m' q i = table m q i" if "q \<in> nodes m pt" "i < 512" for q i
    using that e nodes_aligned [OF assms(1) that(1)] by (intro table_other) auto
  have root: "\<And>i. i < 512 \<Longrightarrow> table m' pt i = table m pt i" using tab in_nodes(1) by simp
  have lev: "\<And>a i. a \<in> slots m pt \<Longrightarrow> i < 512 \<Longrightarrow> table m' (child m pt a) i = table m (child m pt a) i"
    using tab in_nodes(2) by simp
  note c = tables_cong [OF root lev]
  show "tree m' pt = tree m pt" "nodes m' pt = nodes m pt" "slots m' pt = slots m pt" "paths m' pt = paths m pt"
    "i < 512 \<Longrightarrow> child m' pt i = child m pt i" "ij \<in> paths m pt \<Longrightarrow> node0 m' pt ij = node0 m pt ij"
    using c by auto
  show "slots m' (child m pt a) = slots m (child m pt a)" if "a \<in> slots m pt"
    using lev [OF that] by (auto simp: slots_def)
  show re: "reach m' pt = reach m pt" using c by auto
  have "leaf m' pt va = leaf m pt va" for va
    using tab reach_in_nodes by (auto simp: leaf_def re split: option.splits)
  then show "leaf m' pt = leaf m pt" by auto
qed

text \<open>What an allocation of a table does, at the root and at level 1.\<close>

lemma page_notin: "aligned x \<Longrightarrow> \<forall>q \<in> Q. aligned q \<Longrightarrow> x \<notin> Q \<Longrightarrow> page x \<notin> page ` Q"
  by (auto simp: aligned_page_eq)

lemma alloc_table:
  assumes ok: "vm_ok s pt (x # xs)" and p: "p \<in> nodes (mem s) pt" and l: "px l va \<notin> slots (mem s) p"
  defines "m5 \<equiv> memset (mem s) x 5 PGSIZE"
  shows "\<exists>t. walk_level p va True l s = Inr (Some x, t) \<and> mem t = add_table m5 x p (px l va)
    \<and> flist (mem t) (freelist t) xs \<and> kernel_pagetable t = kernel_pagetable s"
    and "tree m5 pt" and "nodes m5 pt = nodes (mem s) pt" "leaf m5 pt = leaf (mem s) pt"
    "aligned x" "unat x < 2 ^ 56" "x \<notin> nodes (mem s) pt"
    "slots m5 pt = slots (mem s) pt" "i < 512 \<Longrightarrow> child m5 pt i = child (mem s) pt i"
    "a \<in> slots (mem s) pt \<Longrightarrow> slots m5 (child (mem s) pt a) = slots (mem s) (child (mem s) pt a)"
    "\<forall>a. page a \<notin> page ` (nodes (mem s) pt \<union> set (x # xs)) \<longrightarrow> add_table m5 x p (px l va) a = mem s a"
proof -
  have o: "tree (mem s) pt" "flist (mem s) (freelist s) (x # xs)" "distinct (x # xs)" "aligned pt"
    and xn: "x \<notin> nodes (mem s) pt" and xs: "set xs \<inter> nodes (mem s) pt = {}"
    using ok by (auto simp: vm_ok_def tree_def)
  have x: "aligned x" "unat x < 2 ^ 56" using o(2) by auto
  have na: "\<forall>q \<in> nodes (mem s) pt. aligned q" using nodes_aligned [OF o(4)] by blast
  have px: "page x \<notin> page ` nodes (mem s) pt" by (rule page_notin [OF x(1) na xn])
  have m5: "m5 = (\<lambda>a. if page a = page x then ucast (5 :: u32) else mem s a)" using x(1) by (simp add: m5_def memset_page)
  have ag: "m5 a = mem s a" if "page a \<in> page ` nodes (mem s) pt" for a using that px by (auto simp: m5)
  note f = frame_nodes [OF o(4) ag]
  show "tree m5 pt" "nodes m5 pt = nodes (mem s) pt" "leaf m5 pt = leaf (mem s) pt" using f o by auto
  show "slots m5 pt = slots (mem s) pt" "i < 512 \<Longrightarrow> child m5 pt i = child (mem s) pt i"
    "a \<in> slots (mem s) pt \<Longrightarrow> slots m5 (child (mem s) pt a) = slots (mem s) (child (mem s) pt a)"
    using f by auto
  show "aligned x" "unat x < 2 ^ 56" "x \<notin> nodes (mem s) pt" by fact+
  have pa: "aligned p" using na p by blast
  have fr: "add_table m5 x p (px l va) a = mem s a" if "page a \<noteq> page x" "page a \<noteq> page p" for a
    using add_table_frame [OF x(1) pa px_lt that] that(1) by (simp add: m5)
  then show "\<forall>a. page a \<notin> page ` (nodes (mem s) pt \<union> set (x # xs)) \<longrightarrow> add_table m5 x p (px l va) a = mem s a"
    using p by auto
  obtain t where t: "kalloc s = Inr (Some x, t)" "flist (mem t) (freelist t) xs" "mem t = m5"
    "kernel_pagetable t = kernel_pagetable s"
    using kalloc_page [OF o(2,3)] by (auto simp: m5_def)
  let ?t = "t\<lparr>mem := add_table m5 x p (px l va)\<rparr>"
  have "walk_level p va True l s = Inr (Some x, ?t)"
    using l t by (simp add: walk_level_def not_slot kbind_def set_mem_def add_table_def entry_def of_nat_px)
  moreover have "flist (add_table m5 x p (px l va)) (freelist t) xs = flist m5 (freelist t) xs"
  proof (rule flist_cong)
    fix y a assume y: "y \<in> set xs" "page a = page y"
    then have "aligned y" "y \<noteq> x" "y \<noteq> p" using flist_mem [OF o(2), of y] o(3) xs p by auto
    then have "page a \<noteq> page x" "page a \<noteq> page p" using y x pa by (auto simp: aligned_page_eq)
    then show "add_table m5 x p (px l va) a = m5 a" using fr by (simp add: m5)
  qed
  ultimately show "\<exists>t. walk_level p va True l s = Inr (Some x, t) \<and> mem t = add_table m5 x p (px l va)
    \<and> flist (mem t) (freelist t) xs \<and> kernel_pagetable t = kernel_pagetable s" using t by auto
qed

lemma walk_root:
  assumes ok: "vm_ok s pt xs"
  shows "(\<exists>t ys. walk_level pt va True 2 s = Inr (Some (child (mem t) pt (px 2 va)), t) \<and> grown pt s xs t ys
      \<and> px 2 va \<in> slots (mem t) pt \<and> length xs \<le> Suc (length ys))
    \<or> walk_level pt va True 2 s = Inr (None, s) \<and> xs = []"
proof (cases "px 2 va \<in> slots (mem s) pt")
  case True
  then show ?thesis using grown_refl [OF ok] by (intro disjI1 exI [of _ s] exI [of _ xs]) (auto simp: walk_level_valid)
next
  case no: False
  show ?thesis
  proof (cases xs)
    case Nil
    then have "kalloc s = Inr (None, s)" using ok by (intro kalloc_empty) (simp add: vm_ok_def)
    then show ?thesis using no Nil by (simp add: walk_level_def not_slot kbind_def)
  next
    case (Cons x zs)
    note a = alloc_table [OF ok [unfolded Cons] in_nodes(1) no]
    obtain t where t: "walk_level pt va True 2 s = Inr (Some x, t)"
      "mem t = add_table (memset (mem s) x 5 PGSIZE) x pt (px 2 va)" "flist (mem t) (freelist t) zs"
      "kernel_pagetable t = kernel_pagetable s" using a(1) by blast
    have r: "tree (mem t) pt" "nodes (mem t) pt = insert x (nodes (mem s) pt)" "leaf (mem t) pt = leaf (mem s) pt"
      "px 2 va \<in> slots (mem t) pt" "child (mem t) pt (px 2 va) = x"
      unfolding t(2) using add_root [OF a(2) px_lt _ a(5,6)] a(3,4,7,8) no by auto
    have "vm_ok t pt zs" using ok r t(3) by (auto simp: vm_ok_def Cons)
    moreover have "\<forall>a. page a \<notin> page ` (nodes (mem s) pt \<union> set xs) \<longrightarrow> mem t a = mem s a"
      using a(11) by (simp add: t(2) Cons)
    ultimately have "grown pt s xs t zs" using r t(4) by (auto simp: grown_def Cons)
    then show ?thesis using t(1) r by (intro disjI1 exI [of _ t] exI [of _ zs]) (auto simp: Cons)
  qed
qed

lemma walk_level1:
  assumes ok: "vm_ok s pt xs" and i: "px 2 va \<in> slots (mem s) pt"
  shows "(\<exists>t ys q. walk_level (child (mem s) pt (px 2 va)) va True 1 s = Inr (Some q, t) \<and> grown pt s xs t ys
      \<and> reach (mem t) pt va = Some q \<and> length xs \<le> Suc (length ys))
    \<or> walk_level (child (mem s) pt (px 2 va)) va True 1 s = Inr (None, s) \<and> xs = []"
proof (cases "px 1 va \<in> slots (mem s) (child (mem s) pt (px 2 va))")
  case True
  then have "reach (mem s) pt va = Some (child (mem s) (child (mem s) pt (px 2 va)) (px 1 va))"
    using i by (simp add: reach_def paths_def node0_def)
  then show ?thesis using grown_refl [OF ok] True
    by (intro disjI1 exI [of _ s] exI [of _ xs]) (auto simp: walk_level_valid)
next
  case no: False
  let ?p = "child (mem s) pt (px 2 va)"
  show ?thesis
  proof (cases xs)
    case Nil
    then have "kalloc s = Inr (None, s)" using ok by (intro kalloc_empty) (simp add: vm_ok_def)
    then show ?thesis using no Nil by (simp add: walk_level_def not_slot kbind_def)
  next
    case (Cons x zs)
    note a = alloc_table [OF ok [unfolded Cons] in_nodes(2) [OF i] no]
    let ?m5 = "memset (mem s) x 5 PGSIZE"
    obtain t where t: "walk_level ?p va True 1 s = Inr (Some x, t)"
      "mem t = add_table ?m5 x ?p (px 1 va)" "flist (mem t) (freelist t) zs"
      "kernel_pagetable t = kernel_pagetable s" using a(1) by blast
    have c: "child ?m5 pt (px 2 va) = ?p" using a(9) by simp
    have r: "tree (mem t) pt" "nodes (mem t) pt = insert x (nodes (mem s) pt)" "leaf (mem t) pt = leaf (mem s) pt"
      "(px 2 va, px 1 va) \<in> paths (mem t) pt" "node0 (mem t) pt (px 2 va, px 1 va) = x"
      unfolding t(2) using add_level1 [OF a(2) _ px_lt _ a(5,6), of "px 2 va" 1 va] a(3,4,7,8,10) no i
      by (auto simp: c)
    have "vm_ok t pt zs" using ok r t(3) by (auto simp: vm_ok_def Cons)
    moreover have "\<forall>a. page a \<notin> page ` (nodes (mem s) pt \<union> set xs) \<longrightarrow> mem t a = mem s a"
      using a(11) by (simp add: t(2) Cons)
    ultimately have "grown pt s xs t zs" using r t(4) by (auto simp: grown_def Cons)
    moreover have "reach (mem t) pt va = Some x" using r by (simp add: reach_def)
    ultimately show ?thesis using t(1) by (intro disjI1 exI [of _ t] exI [of _ zs] exI [of _ x]) (auto simp: Cons)
  qed
qed

lemma walk_alloc:
  assumes ok: "vm_ok s pt xs" and va: "va \<le> VA_MAX"
  shows "\<exists>r t ys. walk pt va True s = Inr (r, t) \<and> grown pt s xs t ys \<and> length xs \<le> length ys + 2
    \<and> (case r of None \<Rightarrow> length xs < 2 | Some e \<Rightarrow> \<exists>q. reach (mem t) pt va = Some q \<and> e = q + 8 * PX 0 va)"
proof -
  have "\<not> VA_MAX < va" using va by simp
  then have w: "walk pt va True s = kbind (walk_level pt va True 2) (\<lambda>r. case r of
          None \<Rightarrow> kreturn None
        | Some p \<Rightarrow> kbind (walk_level p va True 1) (\<lambda>r. case r of
            None \<Rightarrow> kreturn None
          | Some q \<Rightarrow> kreturn (Some (q + 8 * PX 0 va)))) s"
    by (simp only: walk_def if_False)
  consider (none) "walk_level pt va True 2 s = Inr (None, s)" "xs = []"
    | (some) t ys where "walk_level pt va True 2 s = Inr (Some (child (mem t) pt (px 2 va)), t)" "grown pt s xs t ys"
      "px 2 va \<in> slots (mem t) pt" "length xs \<le> Suc (length ys)"
    using walk_root [OF ok, of va] by blast
  then show ?thesis
  proof cases
    case none
    then have "walk pt va True s = Inr (None, s)" unfolding w by (simp add: kbind_def)
    then show ?thesis using grown_refl [OF ok] none(2) by auto
  next
    case some
    then have "vm_ok t pt ys" by (simp add: grown_def)
    from walk_level1 [OF this some(3)] consider
      "walk_level (child (mem t) pt (px 2 va)) va True 1 t = Inr (None, t)" "ys = []"
      | u zs q where "walk_level (child (mem t) pt (px 2 va)) va True 1 t = Inr (Some q, u)" "grown pt t ys u zs"
        "reach (mem u) pt va = Some q" "length ys \<le> Suc (length zs)" by blast
    then show ?thesis
    proof cases
      case 1
      then have "walk pt va True s = Inr (None, t)" unfolding w using some(1) by (simp add: kbind_def)
      then show ?thesis using some(2,4) 1(2) by (intro exI [of _ None] exI [of _ t] exI [of _ ys]) auto
    next
      case 2
      then have "walk pt va True s = Inr (Some (q + 8 * PX 0 va), u)" unfolding w using some(1) by (simp add: kbind_def)
      then show ?thesis using grown_trans [OF some(2) 2(2)] 2(3,4) some(4)
        by (intro exI [of _ "Some (q + 8 * PX 0 va)"] exI [of _ u] exI [of _ zs]) auto
    qed
  qed
qed

section \<open>Mapping pages\<close>

lemma map_one_spec:
  assumes ok: "vm_ok s pt xs" and va: "va \<le> VA_MAX" and free: "\<not> valid_pte (leaf (mem s) pt va)"
  shows "\<exists>r t ys. map_one pt va pa flag s = Inr (r, t) \<and> vm_ok t pt ys \<and> (\<exists>us. xs = us @ ys)
    \<and> nodes (mem t) pt \<subseteq> nodes (mem s) pt \<union> set xs
    \<and> (\<forall>a. page a \<notin> page ` (nodes (mem s) pt \<union> set xs) \<longrightarrow> mem t a = mem s a)
    \<and> (\<forall>va'. leaf (mem t) pt va' = (if r \<and> same_page va va' then PA2PTE pa OR ucast flag OR PTE_V else leaf (mem s) pt va'))
    \<and> length xs \<le> length ys + 2 \<and> (\<not> r \<longrightarrow> length xs < 2)"
proof -
  obtain r t ys where w: "walk pt va True s = Inr (r, t)" and g: "grown pt s xs t ys" and n: "length xs \<le> length ys + 2"
    and r: "case r of None \<Rightarrow> length xs < 2 | Some e \<Rightarrow> \<exists>q. reach (mem t) pt va = Some q \<and> e = q + 8 * PX 0 va"
    using walk_alloc [OF ok va] by blast
  show ?thesis
  proof (cases r)
    case None
    then have "map_one pt va pa flag s = Inr (False, t)" using w by (simp add: map_one_def kbind_def)
    then show ?thesis using g r None n by (intro exI [of _ False] exI [of _ t] exI [of _ ys]) (auto simp: grown_def)
  next
    case (Some e)
    then obtain q where q: "reach (mem t) pt va = Some q" "e = q + 8 * PX 0 va" using r by auto
    let ?e = "PA2PTE pa OR ucast flag OR PTE_V"
    let ?t = "t\<lparr>mem := store64 (mem t) (q + 8 * PX 0 va) ?e\<rparr>"
    have tr: "tree (mem t) pt" "vm_ok t pt ys" "leaf (mem t) pt = leaf (mem s) pt" using g by (auto simp: grown_def vm_ok_def)
    have "load64 (mem t) e AND PTE_V = 0"
      using free load_leaf [OF q(1)] tr(3) and_PTE_iff(1) [of "leaf (mem s) pt va"] by (simp add: q(2))
    then have m: "map_one pt va pa flag s = Inr (True, ?t)"
      using w Some q by (simp add: map_one_def kbind_def)
    note st = store_leaf [OF tr(1) q(1), where v = ?e]
    have al: "aligned pt" using tr(1) by (simp add: tree_def)
    have "flist (mem ?t) (freelist ?t) ys = flist (mem t) (freelist t) ys"
    proof (simp, rule flist_cong)
      fix y a assume y: "y \<in> set ys" "page a = page y"
      then have "page y \<notin> page ` nodes (mem t) pt"
        using tr(2) flist_mem [of "mem t" "freelist t" ys y] nodes_aligned [OF al]
        by (intro page_notin) (auto simp: vm_ok_def)
      then show "store64 (mem t) (q + 8 * PX 0 va) ?e a = mem t a" using st(5) y by simp
    qed
    then have "vm_ok ?t pt ys" using tr(2) st by (simp add: vm_ok_def)
    moreover have "mem ?t a = mem s a" if "page a \<notin> page ` (nodes (mem s) pt \<union> set xs)" for a
    proof -
      have "page a \<notin> page ` nodes (mem t) pt" using that g by (auto simp: grown_def)
      then show ?thesis using st(5) that g by (simp add: grown_def)
    qed
    ultimately show ?thesis
      using m g st tr n by (intro exI [of _ True] exI [of _ ?t] exI [of _ ys]) (auto simp: grown_def)
  qed
qed

lemma map_page_spec:
  assumes "va mod PG = 0"
  shows "map_pages pt va pa PG flag s = map_one pt va pa flag s"
proof -
  have "(PG :: u64) mod PG = 0" "PG \<noteq> 0" by simp_all
  then have "map_pages pt va pa PG flag s = map_loop pt va va pa flag s" using assms by (simp add: map_pages_def)
  also have "\<dots> = map_one pt va pa flag s"
    by (subst map_loop.simps) (auto simp: kbind_def split: sum.splits)
  finally show ?thesis .
qed

lemma px_page: "px l va = page va div 512 ^ l mod 512"
proof -
  have "take_bit 64 (unat va) = unat va" using unat_lt [of va] by (simp add: take_bit_nat_eq_self_iff)
  then have "px l va = take_bit 9 (drop_bit (12 + 9 * l) (unat va))"
    by (simp add: px_def PX_mask9 PX_SHIFT_def PG_SHIFT_def unsigned_take_bit_eq unsigned_drop_bit_eq)
  also have "\<dots> = unat va div 2 ^ (12 + 9 * l) mod 512" by (simp add: take_bit_eq_mod drop_bit_eq_div)
  also have "\<dots> = page va div 512 ^ l mod 512"
    by (simp add: page_def div_mult2_eq power_add power_mult)
  finally show ?thesis .
qed

lemma digits:
  fixes x y :: nat
  assumes "x < 512 ^ 3" "y < 512 ^ 3" "x mod 512 = y mod 512" "x div 512 mod 512 = y div 512 mod 512"
    "x div 512 ^ 2 mod 512 = y div 512 ^ 2 mod 512"
  shows "x = y"
proof -
  have d: "z = z mod 512 + 512 * (z div 512 mod 512) + 262144 * (z div 262144 mod 512)" if "z < 512 ^ 3" for z :: nat
  proof -
    have "z div 262144 mod 512 = z div 262144" using that by (simp add: less_mult_imp_div_less)
    moreover have "z div 512 = 512 * (z div 512 div 512) + z div 512 mod 512" by simp
    moreover have "z div 512 div 512 = z div 262144" by (simp add: div_mult2_eq [symmetric])
    moreover have "z = 512 * (z div 512) + z mod 512" by simp
    ultimately show ?thesis by linarith
  qed
  have "(512 :: nat) ^ 2 = 262144" by simp
  then show ?thesis using d [OF assms(1)] d [OF assms(2)] assms(3-5) by metis
qed

lemma same_page_iff:
  assumes "va \<le> VA_MAX" "va' \<le> VA_MAX"
  shows "same_page va va' \<longleftrightarrow> page va = page va'"
proof -
  have b: "page w < 512 ^ 3" if "w \<le> VA_MAX" for w
  proof -
    have "unat w \<le> 0x4000000000" using that by (simp add: VA_MAX_eq word_le_nat_alt)
    then show ?thesis by (simp add: page_def)
  qed
  show ?thesis
    unfolding same_page_def px_page using digits [OF b [OF assms(1)] b [OF assms(2)]] by auto
qed

lemma leaf_same_page: "same_page va va' \<Longrightarrow> leaf m pt va' = leaf m pt va"
  by (simp add: same_page_def leaf_def reach_def)

definition nth_page :: "u64 \<Rightarrow> nat \<Rightarrow> u64" where "nth_page a i = a + of_nat i * PG"

lemma nth_page_0 [simp]: "nth_page a 0 = a" by (simp add: nth_page_def)
lemma nth_page_Suc: "nth_page a (Suc i) = nth_page (a + PG) i" by (simp add: nth_page_def algebra_simps)

lemma unat_nth_page:
  assumes "unat a + n * 4096 \<le> 0x4000000000" "i \<le> n"
  shows "unat (nth_page a i) = unat a + i * 4096"
proof -
  have "i * 4096 < 2 ^ 64" using assms mult_le_mono1 [OF assms(2), of 4096] by simp
  then have "unat (of_nat i * PG :: u64) = i * 4096" by (simp add: unat_word_ariths)
  then show ?thesis using assms mult_le_mono1 [OF assms(2), of 4096] unfolding nth_page_def by (subst unat_add_no_wrap) simp_all
qed

lemma map_loop_spec:
  assumes "vm_ok s pt xs" and "unat a + n * 4096 \<le> 0x4000000000"
    and "\<And>i. i \<le> n \<Longrightarrow> \<not> valid_pte (leaf (mem s) pt (nth_page a i))"
  shows "\<exists>r t ys. map_loop pt a (nth_page a n) pa flag s = Inr (r, t) \<and> vm_ok t pt ys \<and> (\<exists>us. xs = us @ ys)
    \<and> nodes (mem t) pt \<subseteq> nodes (mem s) pt \<union> set xs
    \<and> (\<forall>b. page b \<notin> page ` (nodes (mem s) pt \<union> set xs) \<longrightarrow> mem t b = mem s b)
    \<and> (\<forall>va. (\<forall>i \<le> n. \<not> same_page (nth_page a i) va) \<longrightarrow> leaf (mem t) pt va = leaf (mem s) pt va)
    \<and> (r \<longrightarrow> (\<forall>i \<le> n. leaf (mem t) pt (nth_page a i) = PA2PTE (nth_page pa i) OR ucast flag OR PTE_V))
    \<and> length xs \<le> length ys + 2 * Suc n \<and> (\<not> r \<longrightarrow> length xs < 2 * Suc n)"
  using assms
proof (induction n arbitrary: a pa s xs)
  case 0
  then have "a \<le> VA_MAX" by (simp add: VA_MAX_eq word_le_nat_alt)
  from map_one_spec [OF 0(1) this, of pa flag] 0(3) [of 0]
  obtain r t ys where m: "map_one pt a pa flag s = Inr (r, t)" and R: "vm_ok t pt ys" "\<exists>us. xs = us @ ys"
    "nodes (mem t) pt \<subseteq> nodes (mem s) pt \<union> set xs"
    "\<forall>b. page b \<notin> page ` (nodes (mem s) pt \<union> set xs) \<longrightarrow> mem t b = mem s b"
    "\<forall>va'. leaf (mem t) pt va' = (if r \<and> same_page a va' then PA2PTE pa OR ucast flag OR PTE_V else leaf (mem s) pt va')"
    "length xs \<le> length ys + 2" "\<not> r \<longrightarrow> length xs < 2" by auto
  then have "map_loop pt a (nth_page a 0) pa flag s = Inr (r, t)"
    by (subst map_loop.simps) (simp add: kbind_def)
  then show ?case using R by (intro exI [of _ r] exI [of _ t] exI [of _ ys]) (simp add: same_page_def)
next
  case (Suc n)
  have av: "a \<le> VA_MAX" using Suc.prems(2) by (simp add: VA_MAX_eq word_le_nat_alt)
  have ua: "unat (a + PG) = unat a + 4096" using next_page [OF av] .
  have sm: "\<not> same_page a (nth_page (a + PG) i)" if "i \<le> n" for i
  proof -
    have u: "unat (nth_page (a + PG) i) = unat a + 4096 + i * 4096"
      using unat_nth_page [of "a + PG" n i] that Suc.prems(2) ua by simp
    then have "nth_page (a + PG) i \<le> VA_MAX"
      using Suc.prems(2) that mult_le_mono1 [OF that, of 4096] by (simp add: VA_MAX_eq word_le_nat_alt)
    moreover have "page (nth_page (a + PG) i) = page a + 1 + i" using u by (simp add: page_def)
    ultimately show ?thesis using same_page_iff [OF av] by simp
  qed
  from map_one_spec [OF Suc.prems(1) av, of pa flag] Suc.prems(3) [of 0]
  obtain r t ys where m: "map_one pt a pa flag s = Inr (r, t)" and R: "vm_ok t pt ys" "\<exists>us. xs = us @ ys"
    "nodes (mem t) pt \<subseteq> nodes (mem s) pt \<union> set xs"
    "\<forall>b. page b \<notin> page ` (nodes (mem s) pt \<union> set xs) \<longrightarrow> mem t b = mem s b"
    "\<forall>va'. leaf (mem t) pt va' = (if r \<and> same_page a va' then PA2PTE pa OR ucast flag OR PTE_V else leaf (mem s) pt va')"
    "length xs \<le> length ys + 2" "\<not> r \<longrightarrow> length xs < 2" by auto
  have ne: "a \<noteq> nth_page a (Suc n)" using unat_nth_page [of a "Suc n" "Suc n"] Suc.prems(2) by auto
  show ?case
  proof (cases r)
    case False
    then have "map_loop pt a (nth_page a (Suc n)) pa flag s = Inr (False, t)"
      using m by (subst map_loop.simps) (simp add: kbind_def)
    then show ?thesis using R False by (intro exI [of _ False] exI [of _ t] exI [of _ ys]) simp
  next
    case True
    then have step: "map_loop pt a (nth_page a (Suc n)) pa flag s = map_loop pt (a + PG) (nth_page (a + PG) n) (pa + PG) flag t"
      using m ne by (subst map_loop.simps) (simp add: kbind_def nth_page_Suc)
    have free: "\<not> valid_pte (leaf (mem t) pt (nth_page (a + PG) i))" if "i \<le> n" for i
      using R(5) sm [OF that] Suc.prems(3) [of "Suc i"] that by (simp add: nth_page_Suc)
    from Suc.IH [OF R(1) _ free, of "pa + PG"] Suc.prems(2) ua
    obtain r' u zs where u: "map_loop pt (a + PG) (nth_page (a + PG) n) (pa + PG) flag t = Inr (r', u)"
      and S: "vm_ok u pt zs" "\<exists>us. ys = us @ zs" "nodes (mem u) pt \<subseteq> nodes (mem t) pt \<union> set ys"
      "\<forall>b. page b \<notin> page ` (nodes (mem t) pt \<union> set ys) \<longrightarrow> mem u b = mem t b"
      "\<forall>va. (\<forall>i \<le> n. \<not> same_page (nth_page (a + PG) i) va) \<longrightarrow> leaf (mem u) pt va = leaf (mem t) pt va"
      "r' \<longrightarrow> (\<forall>i \<le> n. leaf (mem u) pt (nth_page (a + PG) i) = PA2PTE (nth_page (pa + PG) i) OR ucast flag OR PTE_V)"
      "length ys \<le> length zs + 2 * Suc n" "\<not> r' \<longrightarrow> length ys < 2 * Suc n" by auto
    have sub: "nodes (mem t) pt \<union> set ys \<subseteq> nodes (mem s) pt \<union> set xs" using R(2,3) by auto
    have "mem u b = mem s b" if "page b \<notin> page ` (nodes (mem s) pt \<union> set xs)" for b
    proof -
      have "page b \<notin> page ` (nodes (mem t) pt \<union> set ys)" using that sub by blast
      then show ?thesis using S(4) R(4) that by simp
    qed
    moreover have "leaf (mem u) pt va = leaf (mem s) pt va" if "\<forall>i \<le> Suc n. \<not> same_page (nth_page a i) va" for va
      using that S(5) R(5) that [rule_format, of 0] that [rule_format, of "Suc _"] by (simp add: nth_page_Suc)
    moreover have "leaf (mem u) pt (nth_page a i) = PA2PTE (nth_page pa i) OR ucast flag OR PTE_V" if "r'" "i \<le> Suc n" for i
    proof (cases i)
      case 0
      have "leaf (mem u) pt a = leaf (mem t) pt a" using S(5) sm by (simp add: same_page_def) metis
      then show ?thesis using 0 R(5) True by (simp add: same_page_def)
    next
      case (Suc j)
      then show ?thesis using S(6) that by (simp add: nth_page_Suc)
    qed
    ultimately show ?thesis
      using u step S(1,2,3,7,8) R(2,6) sub by (intro exI [of _ r'] exI [of _ u] exI [of _ zs]) auto
  qed
qed

section \<open>User addresses\<close>

text \<open>
  Where the byte at user address \<open>va\<close> lies, for \<open>copyin\<close> (which needs a user page, and
  takes physical address 0 for a missing one) and for \<open>copyout\<close> (which needs a writable one).
\<close>

definition uread :: "memory \<Rightarrow> u64 \<Rightarrow> u64 \<Rightarrow> u64 option" where
  "uread m pt va = (let e = leaf m pt va in
     if bit e 0 \<and> bit e 4 \<and> PTE2PA e \<noteq> 0 then Some (PTE2PA e + of_nat (unat va mod 4096)) else None)"

definition uwrite :: "memory \<Rightarrow> u64 \<Rightarrow> u64 \<Rightarrow> u64 option" where
  "uwrite m pt va = (let e = leaf m pt va in
     if bit e 0 \<and> bit e 4 \<and> bit e 2 then Some (PTE2PA e + of_nat (unat va mod 4096)) else None)"

lemma low_address:
  assumes "unat va < 2 ^ 32"
  shows "unat (PG_ROUND_DOWN va) = unat va div 4096 * 4096" "PG_ROUND_DOWN va \<le> VA_MAX" "va \<le> VA_MAX"
    "va - PG_ROUND_DOWN va = of_nat (unat va mod 4096)" "same_page (PG_ROUND_DOWN va) va"
proof -
  show u: "unat (PG_ROUND_DOWN va) = unat va div 4096 * 4096" using assms by (simp add: PG_ROUND_DOWN_unat)
  show m: "PG_ROUND_DOWN va \<le> VA_MAX" "va \<le> VA_MAX"
    using assms u by (auto simp: VA_MAX_eq word_le_nat_alt intro: order_trans [OF div_times_less_eq_dividend])
  have "unat (va - PG_ROUND_DOWN va) = unat va mod 4096" using page_offset [of va] assms by simp
  then show "va - PG_ROUND_DOWN va = of_nat (unat va mod 4096)" by (metis of_nat_unat ucast_id)
  have "page (PG_ROUND_DOWN va) = page va" using u by (simp add: page_def)
  then show "same_page (PG_ROUND_DOWN va) va" using same_page_iff [OF m] by simp
qed

lemma low_chunk:
  assumes "unat va < 2 ^ 32"
  shows "unat (chunk va len) = min (4096 - unat va mod 4096) (unat len)"
proof -
  have l: "unat va mod 4096 < 4096" by simp
  have "unat (of_nat (unat va mod 4096) :: u64) = unat va mod 4096" by (rule unat_of_nat_lt) (rule order.strict_trans [OF l], simp)
  then have "unat (4096 - of_nat (unat va mod 4096) :: u64) = 4096 - unat va mod 4096"
    using l by (subst unat_sub_no_wrap) (simp_all add: word_le_nat_alt)
  then show ?thesis
    using low_address(4) [OF assms] by (auto simp: chunk_def Let_def word_less_nat_alt min_def)
qed

lemma walkaddr_low:
  assumes "unat va < 2 ^ 32"
  shows "walkaddr pt (PG_ROUND_DOWN va) s
    = Inr (let e = leaf (mem s) pt va in if bit e 0 \<and> bit e 4 then PTE2PA e else 0, s)"
proof -
  note l = low_address [OF assms]
  have "leaf (mem s) pt (PG_ROUND_DOWN va) = leaf (mem s) pt va" using leaf_same_page [OF l(5)] by simp
  moreover have "bit (leaf (mem s) pt (PG_ROUND_DOWN va)) 0 = False" if "reach (mem s) pt (PG_ROUND_DOWN va) = None"
    using that by (simp add: leaf_def)
  ultimately show ?thesis
    using l(2) and_PTE_iff(1,5) [of "leaf (mem s) pt va"] load_leaf [of "mem s" pt "PG_ROUND_DOWN va"]
    by (cases "reach (mem s) pt (PG_ROUND_DOWN va)")
      (auto simp: walkaddr_def walk_noalloc kbind_def leD Let_def)
qed

lemma unat64: "unat (x :: u64) < 2 ^ 64"
  using unat_lt [of x] by simp

lemma unat_below: "i < unat (x :: u64) \<Longrightarrow> unat (of_nat i :: u64) = i"
  by (rule unat_of_nat_lt) (rule order.strict_trans [OF _ unat_lt])

lemma region_split:
  fixes a d :: u64
  assumes "n \<le> L" "L < 2 ^ 64"
  shows "unat (a - d) < L \<longleftrightarrow> unat (a - d) < n \<or> unat (a - (d + of_nat n)) < L - n"
    and "unat (a - (d + of_nat n)) < L - n \<Longrightarrow> \<not> unat (a - d) < n"
proof -
  have n: "unat (of_nat n :: u64) = n" using assms by simp
  have e: "a - (d + of_nat n) = (a - d) - of_nat n" by simp
  have "unat (a - (d + of_nat n)) = (if n \<le> unat (a - d) then unat (a - d) - n else 2 ^ 64 + unat (a - d) - n)"
    unfolding e using n by (auto simp: unat_sub_if_size word_size)
  then show "unat (a - d) < L \<longleftrightarrow> unat (a - d) < n \<or> unat (a - (d + of_nat n)) < L - n"
    "unat (a - (d + of_nat n)) < L - n \<Longrightarrow> \<not> unat (a - d) < n"
    using assms by (auto split: if_splits)
qed

lemma aligned_top: "aligned p \<Longrightarrow> unat p + 4096 \<le> 2 ^ 64"
  using aligned_room [of p 4095] unat_lt [of "p + of_nat 4095"] by simp

lemma low_add:
  fixes va :: u64
  assumes "unat va + n \<le> 2 ^ 32" "k < n"
  shows "unat (va + of_nat k) = unat va + k"
  using assms by (subst unat_add_no_wrap) simp_all

lemma page_run:
  assumes "unat va + n \<le> 2 ^ 32" "unat va mod 4096 + n \<le> 4096" "k < n"
  shows "unat (va + of_nat k) mod 4096 = unat va mod 4096 + k" "same_page va (va + of_nat k)"
proof -
  have u: "unat (va + of_nat k) = unat va + k" by (rule low_add [OF assms(1,3)])
  have lt: "unat va mod 4096 + k < 4096" "k < 4096" using assms(2,3) by linarith+
  have "(unat va + k) mod 4096 = (unat va mod 4096 + k) mod 4096" by (rule mod_add_left_eq [symmetric])
  also have "\<dots> = unat va mod 4096 + k" using lt(1) by (rule mod_less)
  finally have "(unat va + k) mod 4096 = unat va mod 4096 + k" .
  then show "unat (va + of_nat k) mod 4096 = unat va mod 4096 + k" by (simp add: u)
  have "(unat va + k) div 4096 = unat va div 4096" using lt by (subst div_add1_eq) simp
  then have "page (va + of_nat k) = page va" by (simp add: page_def u)
  moreover have "va \<le> VA_MAX" "va + of_nat k \<le> VA_MAX"
    using assms(1,3) by (simp_all add: VA_MAX_eq word_le_nat_alt u)
  ultimately show "same_page va (va + of_nat k)" by (simp add: same_page_iff)
qed

lemma uread_run:
  assumes "unat va + n \<le> 2 ^ 32" "unat va mod 4096 + n \<le> 4096" "k < n"
  shows "uread m pt (va + of_nat k) = map_option (\<lambda>p. p + of_nat k) (uread m pt va)"
    "uwrite m pt (va + of_nat k) = map_option (\<lambda>p. p + of_nat k) (uwrite m pt va)"
  using page_run [OF assms] leaf_same_page [of va "va + of_nat k" m pt]
  by (auto simp: uread_def uwrite_def Let_def)

lemma u_room:
  assumes "uread m pt va = Some p \<or> uwrite m pt va = Some p" and "unat va mod 4096 + n \<le> 4096"
  shows "unat p + n \<le> 2 ^ 64"
proof -
  obtain e where p: "p = PTE2PA e + of_nat (unat va mod 4096)"
    using assms(1) by (auto simp: uread_def uwrite_def Let_def split: if_splits)
  have "unat p = unat (PTE2PA e) + unat va mod 4096" unfolding p by (rule aligned_room) simp_all
  then show ?thesis using aligned_top [OF PTE2PA_aligned, of e] assms(2) by linarith
qed

lemma u_frame:
  assumes "aligned pt" "\<And>a. page a \<in> page ` nodes m pt \<Longrightarrow> m' a = m a"
  shows "uread m' pt = uread m pt" "uwrite m' pt = uwrite m pt" "nodes m' pt = nodes m pt"
  using frame_nodes [OF assms] by (auto simp: uread_def uwrite_def fun_eq_iff)

text \<open>One pass of \<open>copyin\<close>.\<close>

lemma copyin_one_low:
  assumes "unat va < 2 ^ 32" and "len \<noteq> 0" and "unat dst + unat len \<le> 2 ^ 64"
  shows "copyin_one pt dst va len s = (case uread (mem s) pt va of
      None \<Rightarrow> Inr (False, s)
    | Some p \<Rightarrow> Inr (True, s\<lparr>mem := moved (mem s) dst p (unat (chunk va len))\<rparr>))"
proof -
  have c: "unat (chunk va len) \<le> 4096" "unat (chunk va len) \<le> unat len" "unat va mod 4096 + unat (chunk va len) \<le> 4096"
    using low_chunk [OF assms(1)] mod_less_divisor [of 4096 "unat va"] by auto
  have u: "unat (ucast (chunk va len) :: u32) = unat (chunk va len)"
    using c(1) by (simp add: unsigned_ucast_eq take_bit_nat_eq_self_iff)
  have "memmove (mem s) dst p (ucast (chunk va len)) = moved (mem s) dst p (unat (chunk va len))"
    if "uread (mem s) pt va = Some p" for p
    using memmove_moved [of dst "ucast (chunk va len)" p "mem s"] u_room [of "mem s" pt va p, OF _ c(3)] that c(2) assms(3)
    by (simp add: u)
  then show ?thesis
    using low_address(4) [OF assms(1)] walkaddr_low [OF assms(1), of pt s]
    by (auto simp: copyin_one_def Let_def kbind_def set_mem_def uread_def)
qed

text \<open>The arithmetic of one pass: \<open>n\<close> bytes up to the end of the page or of the request.\<close>

lemma low_pass:
  fixes va len :: u64
  assumes "unat va + unat len \<le> 2 ^ 32" and "len \<noteq> 0"
  defines "n \<equiv> unat (chunk va len)"
  shows "unat va < 2 ^ 32" "0 < n" "n \<le> unat len" "unat va mod 4096 + n \<le> 4096"
    "unat (len - chunk va len) = unat len - n" "chunk va len = of_nat n"
    "n < unat len \<Longrightarrow> PG_ROUND_DOWN va + PG = va + chunk va len"
    "n < unat len \<Longrightarrow> unat (va + chunk va len) = unat va + n"
proof -
  have pos: "0 < unat len" using assms(2) unat_gt_0 [of len] by blast
  then show va: "unat va < 2 ^ 32" using assms(1) by linarith
  have n: "n = min (4096 - unat va mod 4096) (unat len)" unfolding n_def by (rule low_chunk [OF va])
  show "0 < n" "n \<le> unat len" and off: "unat va mod 4096 + n \<le> 4096"
    using n pos mod_less_divisor [of 4096 "unat va"] by auto
  then show "unat (len - chunk va len) = unat len - n" "chunk va len = of_nat n"
    by (simp_all add: unat_sub_no_wrap word_le_nat_alt n_def)
  show "unat (va + chunk va len) = unat va + n" if "n < unat len"
    using low_add [OF assms(1) that] by (simp add: n_def)
  assume lt: "n < unat len"
  have "n = 4096 - unat va mod 4096" using n lt by simp
  then have "va + of_nat n = PG_ROUND_DOWN va + of_nat (unat va mod 4096 + (4096 - unat va mod 4096))"
    using low_address(4) [OF va] by (simp add: algebra_simps)
  then show "PG_ROUND_DOWN va + PG = va + chunk va len"
    using off by (simp add: n_def mod_less_divisor less_imp_le)
qed

lemma split_all:
  fixes n L :: nat
  assumes "n \<le> L"
  shows "(\<forall>i < L. P i) \<longleftrightarrow> (\<forall>i < n. P i) \<and> (\<forall>i < L - n. P (n + i))"
proof (intro iffI conjI allI impI)
  fix i assume "(\<forall>i < n. P i) \<and> (\<forall>i < L - n. P (n + i))" "i < L"
  then show "P i" by (cases "i < n") (auto dest!: spec [of _ "i - n"])
qed (use assms in auto)

lemma copyin_step:
  assumes "unat va + unat len \<le> 2 ^ 32" and "len \<noteq> 0" and "unat dst + unat len \<le> 2 ^ 64"
    and "uread (mem s) pt va = Some p"
  defines "n \<equiv> unat (chunk va len)"
  defines "s1 \<equiv> s\<lparr>mem := moved (mem s) dst p n\<rparr>"
  shows "copyin pt dst va len s =
      (if n < unat len then copyin pt (dst + of_nat n) (va + of_nat n) (len - of_nat n) s1 else Inr (True, s1))"
    and "k < n \<Longrightarrow> uread (mem s) pt (va + of_nat k) = Some (p + of_nat k)"
    and "k < n \<Longrightarrow> mem s1 (dst + of_nat k) = mem s (the (uread (mem s) pt (va + of_nat k)))"
proof -
  note l = low_pass [OF assms(1,2), folded n_def]
  have "copyin_one pt dst va len s = Inr (True, s1)"
    using copyin_one_low [OF l(1) assms(2,3), of pt s] assms(4) by (simp add: s1_def n_def)
  then have "copyin pt dst va len s = copyin pt (dst + chunk va len) (PG_ROUND_DOWN va + PG) (len - chunk va len) s1"
    using assms(2) by (subst copyin.simps) (simp add: kbind_def word_neq_0_conv)
  moreover have "len - chunk va len = 0" if "\<not> n < unat len"
    using l(3,5) that by (metis diff_is_0_eq' not_less unat_eq_zero)
  ultimately show "copyin pt dst va len s =
      (if n < unat len then copyin pt (dst + of_nat n) (va + of_nat n) (len - of_nat n) s1 else Inr (True, s1))"
    using l(6,7) by (simp add: copyin.simps [of _ _ _ 0])
  show src: "uread (mem s) pt (va + of_nat k) = Some (p + of_nat k)" if "k < n" for k
    using uread_run(1) [OF _ l(4) that, of "mem s" pt] assms(1,4) l(3) by simp
  have "unat (of_nat k :: u64) = k" if "k < n" using that unfolding n_def by (rule unat_below)
  then show "mem s1 (dst + of_nat k) = mem s (the (uread (mem s) pt (va + of_nat k)))" if "k < n"
    using that src by (simp add: s1_def moved_def)
qed

lemma copyin_spec:
  assumes "aligned pt" and "unat va + unat len \<le> 2 ^ 32" and "unat dst + unat len \<le> 2 ^ 64"
    and "\<And>a. unat (a - dst) < unat len \<Longrightarrow> page a \<notin> page ` nodes (mem s) pt"
    and "\<And>i p. i < unat len \<Longrightarrow> uread (mem s) pt (va + of_nat i) = Some p \<Longrightarrow> \<not> unat (p - dst) < unat len"
  shows "\<exists>t. copyin pt dst va len s = Inr ((\<forall>i < unat len. uread (mem s) pt (va + of_nat i) \<noteq> None), t)
    \<and> (\<forall>a. \<not> unat (a - dst) < unat len \<longrightarrow> mem t a = mem s a)
    \<and> ((\<forall>i < unat len. uread (mem s) pt (va + of_nat i) \<noteq> None) \<longrightarrow>
        (\<forall>i < unat len. mem t (dst + of_nat i) = mem s (the (uread (mem s) pt (va + of_nat i)))))"
    (is "\<exists>t. ?R dst va len s t")
  using assms
proof (induction "unat len" arbitrary: len va dst s rule: less_induct)
  case less
  consider "len = 0" | "len \<noteq> 0" "uread (mem s) pt va = None"
    | p where "len \<noteq> 0" "uread (mem s) pt va = Some p" by blast
  then show ?case
  proof cases
    case 1
    then show ?thesis by (subst copyin.simps) simp
  next
    case 2
    note l = low_pass [OF less.prems(2) 2(1)]
    have "copyin pt dst va len s = Inr (False, s)"
      using copyin_one_low [OF l(1) 2(1) less.prems(3), of pt s] 2
      by (subst copyin.simps) (simp add: kbind_def word_neq_0_conv)
    moreover have "\<exists>i < unat len. uread (mem s) pt (va + of_nat i) = None"
      using 2 l(2,3) by (intro exI [of _ 0]) simp
    ultimately show ?thesis by (intro exI [of _ s]) auto
  next
    case 3
    define n where "n = unat (chunk va len)"
    define s1 where "s1 = s\<lparr>mem := moved (mem s) dst p n\<rparr>"
    note l = low_pass [OF less.prems(2) 3(1), folded n_def]
    note st = copyin_step [OF less.prems(2) 3(1) less.prems(3) 3(2), folded n_def, folded s1_def]
    have out: "mem s1 a = mem s a" if "\<not> unat (a - dst) < unat len" for a
      using that l(3) by (simp add: s1_def moved_def)
    have fr: "uread (mem s1) pt = uread (mem s) pt" "nodes (mem s1) pt = nodes (mem s) pt"
      using u_frame [OF less.prems(1), of "mem s" "mem s1"] out less.prems(4) by auto
    show ?thesis
    proof (cases "n < unat len")
      case False
      then show ?thesis using st out l(3) by (intro exI [of _ s1]) auto
    next
      case True
      have len: "unat (len - of_nat n) = unat len - n" using l(5,6) by simp
      note rs = region_split [OF l(3) unat64 [of len], of _ dst]
      have "\<exists>t. ?R (dst + of_nat n) (va + of_nat n) (len - of_nat n) s1 t"
      proof (rule less.hyps [OF _ less.prems(1)])
        show "unat (len - of_nat n) < unat len" using len l(2) True by simp
        show "unat (va + of_nat n) + unat (len - of_nat n) \<le> 2 ^ 32" using l(6,8) True len less.prems(2) by simp
        have "unat (dst + of_nat n) = unat dst + n"
          using less.prems(3) True by (subst unat_add_no_wrap) (simp_all add: n_def)
        then show "unat (dst + of_nat n) + unat (len - of_nat n) \<le> 2 ^ 64" using len less.prems(3) True by simp
        show "page a \<notin> page ` nodes (mem s1) pt" if "unat (a - (dst + of_nat n)) < unat (len - of_nat n)" for a
          unfolding fr using that rs(1) [of a] less.prems(4) len by simp
        show "\<not> unat (q - (dst + of_nat n)) < unat (len - of_nat n)"
          if "i < unat (len - of_nat n)" "uread (mem s1) pt (va + of_nat n + of_nat i) = Some q" for i q
          using less.prems(5) [of "n + i" q] that rs(1) [of q] len unfolding fr by (simp add: add.assoc)
      qed
      then obtain t where t: "?R (dst + of_nat n) (va + of_nat n) (len - of_nat n) s1 t" by blast
      have sh: "w + of_nat n + of_nat i = w + of_nat (n + i)" for w :: u64 and i by (simp add: add.assoc)
      have ok: "(\<forall>i < unat len. uread (mem s) pt (va + of_nat i) \<noteq> None) \<longleftrightarrow>
          (\<forall>i < unat (len - of_nat n). uread (mem s1) pt (va + of_nat n + of_nat i) \<noteq> None)"
        unfolding split_all [OF l(3)] sh fr len using st(2) by auto
      have "mem t a = mem s a" if "\<not> unat (a - dst) < unat len" for a
        using t rs(1) [of a] that out len by simp
      moreover have "mem t (dst + of_nat i) = mem s (the (uread (mem s) pt (va + of_nat i)))"
        if i: "i < unat len" and ok1: "\<forall>i < unat len. uread (mem s) pt (va + of_nat i) \<noteq> None" for i
      proof (cases "i < n")
        case True
        then have "unat (dst + of_nat i - dst) < n" by (simp add: n_def unat_below)
        then have "mem t (dst + of_nat i) = mem s1 (dst + of_nat i)" using t rs(2) len by metis
        then show ?thesis using st(3) [OF True] by simp
      next
        case False
        then obtain j where j: "i = n + j" "j < unat (len - of_nat n)"
          using i len by (metis add_diff_inverse_nat diff_less_mono not_less)
        obtain q where q: "uread (mem s) pt (va + of_nat i) = Some q" using ok1 i by blast
        then have "\<not> unat (q - dst) < unat len" using less.prems(5) i by blast
        then show ?thesis using t ok ok1 j q out by (simp add: sh fr)
      qed
      ultimately show ?thesis using t st(1) True unfolding ok by (intro exI [of _ t]) auto
    qed
  qed
qed

lemma copyout_one_low:
  assumes "unat va < 2 ^ 32" and "len \<noteq> 0" and "unat src + unat len \<le> 2 ^ 64"
  shows "copyout_one pt va src len s = (case uwrite (mem s) pt va of
      None \<Rightarrow> Inr (False, s)
    | Some p \<Rightarrow> Inr (True, s\<lparr>mem := moved (mem s) p src (unat (chunk va len))\<rparr>))"
proof -
  note l = low_address [OF assms(1)]
  have c: "unat (chunk va len) \<le> 4096" "unat (chunk va len) \<le> unat len" "unat va mod 4096 + unat (chunk va len) \<le> 4096"
    using low_chunk [OF assms(1)] mod_less_divisor [of 4096 "unat va"] by auto
  have u: "unat (ucast (chunk va len) :: u32) = unat (chunk va len)"
    using c(1) by (simp add: unsigned_ucast_eq take_bit_nat_eq_self_iff)
  have mv: "memmove (mem s) p src (ucast (chunk va len)) = moved (mem s) p src (unat (chunk va len))"
    if "uwrite (mem s) pt va = Some p" for p
    using memmove_moved [of p "ucast (chunk va len)" src "mem s"] u_room [of "mem s" pt va p, OF _ c(3)] that c(2) assms(3)
    by (simp add: u)
  have lf: "leaf (mem s) pt (PG_ROUND_DOWN va) = leaf (mem s) pt va" using leaf_same_page [OF l(5)] by simp
  show ?thesis
  proof (cases "reach (mem s) pt (PG_ROUND_DOWN va)")
    case None
    then have "leaf (mem s) pt va = 0" using lf by (simp add: leaf_def)
    then show ?thesis using None l(2) by (simp add: copyout_one_def walk_noalloc kbind_def leD Let_def uwrite_def)
  next
    case (Some q)
    then have "load64 (mem s) (q + 8 * PX 0 (PG_ROUND_DOWN va)) = leaf (mem s) pt va" using load_leaf lf by simp
    then show ?thesis
      using Some l(2,4) mv and_PTE_iff(1,3,5) [of "leaf (mem s) pt va"]
      by (auto simp: copyout_one_def walk_noalloc kbind_def leD Let_def uwrite_def)
  qed
qed

lemma copyout_step:
  assumes "unat va + unat len \<le> 2 ^ 32" and "len \<noteq> 0" and "unat src + unat len \<le> 2 ^ 64"
    and "uwrite (mem s) pt va = Some p"
  defines "n \<equiv> unat (chunk va len)"
  defines "s1 \<equiv> s\<lparr>mem := moved (mem s) p src n\<rparr>"
  shows "copyout pt va src len s =
      (if n < unat len then copyout pt (va + of_nat n) (src + of_nat n) (len - of_nat n) s1 else Inr (True, s1))"
    and "k < n \<Longrightarrow> uwrite (mem s) pt (va + of_nat k) = Some (p + of_nat k)"
    and "k < n \<Longrightarrow> mem s1 (the (uwrite (mem s) pt (va + of_nat k))) = mem s (src + of_nat k)"
    and "\<forall>i < unat len. uwrite (mem s) pt (va + of_nat i) \<noteq> Some a \<Longrightarrow> mem s1 a = mem s a"
proof -
  note l = low_pass [OF assms(1,2), folded n_def]
  have "copyout_one pt va src len s = Inr (True, s1)"
    using copyout_one_low [OF l(1) assms(2,3), of pt s] assms(4) by (simp add: s1_def n_def)
  then have "copyout pt va src len s = copyout pt (PG_ROUND_DOWN va + PG) (src + chunk va len) (len - chunk va len) s1"
    using assms(2) by (subst copyout.simps) (simp add: kbind_def word_neq_0_conv)
  moreover have "len - chunk va len = 0" if "\<not> n < unat len"
    using l(3,5) that by (metis diff_is_0_eq' not_less unat_eq_zero)
  ultimately show "copyout pt va src len s =
      (if n < unat len then copyout pt (va + of_nat n) (src + of_nat n) (len - of_nat n) s1 else Inr (True, s1))"
    using l(6,7) by (simp add: copyout.simps [of _ _ _ 0])
  show dst: "uwrite (mem s) pt (va + of_nat k) = Some (p + of_nat k)" if "k < n" for k
    using uread_run(2) [OF _ l(4) that, of "mem s" pt] assms(1,4) l(3) by simp
  have "unat (of_nat k :: u64) = k" if "k < n" using that unfolding n_def by (rule unat_below)
  then show "mem s1 (the (uwrite (mem s) pt (va + of_nat k))) = mem s (src + of_nat k)" if "k < n"
    using that dst by (simp add: s1_def moved_def)
  assume a: "\<forall>i < unat len. uwrite (mem s) pt (va + of_nat i) \<noteq> Some a"
  have "\<not> unat (a - p) < n"
  proof
    assume u: "unat (a - p) < n"
    then show False using dst [OF u] a [rule_format, of "unat (a - p)"] l(3) by simp
  qed
  then show "mem s1 a = mem s a" by (simp add: s1_def moved_def)
qed

lemma copyout_spec:
  assumes "aligned pt" and "unat va + unat len \<le> 2 ^ 32" and "unat src + unat len \<le> 2 ^ 64"
    and "\<And>i p. i < unat len \<Longrightarrow> uwrite (mem s) pt (va + of_nat i) = Some p \<Longrightarrow>
      page p \<notin> page ` nodes (mem s) pt \<and> \<not> unat (p - src) < unat len"
    and "\<And>i j p. i < unat len \<Longrightarrow> j < unat len \<Longrightarrow> uwrite (mem s) pt (va + of_nat i) = Some p \<Longrightarrow>
      uwrite (mem s) pt (va + of_nat j) = Some p \<Longrightarrow> i = j"
  shows "\<exists>t. copyout pt va src len s = Inr ((\<forall>i < unat len. uwrite (mem s) pt (va + of_nat i) \<noteq> None), t)
    \<and> (\<forall>a. (\<forall>i < unat len. uwrite (mem s) pt (va + of_nat i) \<noteq> Some a) \<longrightarrow> mem t a = mem s a)
    \<and> ((\<forall>i < unat len. uwrite (mem s) pt (va + of_nat i) \<noteq> None) \<longrightarrow>
        (\<forall>i < unat len. mem t (the (uwrite (mem s) pt (va + of_nat i))) = mem s (src + of_nat i)))"
    (is "\<exists>t. ?R va src len s t")
  using assms
proof (induction "unat len" arbitrary: len va src s rule: less_induct)
  case less
  consider "len = 0" | "len \<noteq> 0" "uwrite (mem s) pt va = None"
    | p where "len \<noteq> 0" "uwrite (mem s) pt va = Some p" by blast
  then show ?case
  proof cases
    case 1
    then show ?thesis by (subst copyout.simps) simp
  next
    case 2
    note l = low_pass [OF less.prems(2) 2(1)]
    have "copyout pt va src len s = Inr (False, s)"
      using copyout_one_low [OF l(1) 2(1) less.prems(3), of pt s] 2
      by (subst copyout.simps) (simp add: kbind_def word_neq_0_conv)
    moreover have "\<exists>i < unat len. uwrite (mem s) pt (va + of_nat i) = None"
      using 2 l(2,3) by (intro exI [of _ 0]) simp
    ultimately show ?thesis by (intro exI [of _ s]) auto
  next
    case 3
    define n where "n = unat (chunk va len)"
    define s1 where "s1 = s\<lparr>mem := moved (mem s) p src n\<rparr>"
    note l = low_pass [OF less.prems(2) 3(1), folded n_def]
    note st = copyout_step [OF less.prems(2) 3(1) less.prems(3) 3(2), folded n_def, folded s1_def]
    have fr: "uwrite (mem s1) pt = uwrite (mem s) pt" "nodes (mem s1) pt = nodes (mem s) pt"
      using u_frame [OF less.prems(1), of "mem s" "mem s1"] st(4) less.prems(4) by blast+
    show ?thesis
    proof (cases "n < unat len")
      case False
      then show ?thesis using st l(3) by (intro exI [of _ s1]) auto
    next
      case True
      have len: "unat (len - of_nat n) = unat len - n" using l(5,6) by simp
      have sh: "w + of_nat n + of_nat i = w + of_nat (n + i)" for w :: u64 and i by (simp add: add.assoc)
      note rs = region_split(1) [OF l(3) unat64 [of len], of _ src]
      have "\<exists>t. ?R (va + of_nat n) (src + of_nat n) (len - of_nat n) s1 t"
      proof (rule less.hyps [OF _ less.prems(1)])
        show "unat (len - of_nat n) < unat len" using len l(2) True by simp
        show "unat (va + of_nat n) + unat (len - of_nat n) \<le> 2 ^ 32" using l(6,8) True len less.prems(2) by simp
        have "unat (src + of_nat n) = unat src + n"
          using less.prems(3) True by (subst unat_add_no_wrap) (simp_all add: n_def)
        then show "unat (src + of_nat n) + unat (len - of_nat n) \<le> 2 ^ 64" using len less.prems(3) True by simp
        show "page q \<notin> page ` nodes (mem s1) pt \<and> \<not> unat (q - (src + of_nat n)) < unat (len - of_nat n)"
          if "i < unat (len - of_nat n)" "uwrite (mem s1) pt (va + of_nat n + of_nat i) = Some q" for i q
          using less.prems(4) [of "n + i" q] that rs [of q] len unfolding fr sh by auto
        show "i = j" if "i < unat (len - of_nat n)" "j < unat (len - of_nat n)"
          "uwrite (mem s1) pt (va + of_nat n + of_nat i) = Some q" "uwrite (mem s1) pt (va + of_nat n + of_nat j) = Some q" for i j q
          using less.prems(5) [of "n + i" "n + j" q] that len unfolding fr sh by auto
      qed
      then obtain t where t: "?R (va + of_nat n) (src + of_nat n) (len - of_nat n) s1 t" by blast
      have ok: "(\<forall>i < unat len. uwrite (mem s) pt (va + of_nat i) \<noteq> None) \<longleftrightarrow>
          (\<forall>i < unat (len - of_nat n). uwrite (mem s1) pt (va + of_nat n + of_nat i) \<noteq> None)"
        unfolding split_all [OF l(3)] sh fr len using st(2) by auto
      have "mem t a = mem s a" if "\<forall>i < unat len. uwrite (mem s) pt (va + of_nat i) \<noteq> Some a" for a
      proof -
        note na = that
        have "uwrite (mem s1) pt (va + of_nat n + of_nat i) \<noteq> Some a" if "i < unat (len - of_nat n)" for i
        proof -
          have "n + i < unat len" using that len by simp
          then show ?thesis unfolding sh fr by (rule na [rule_format])
        qed
        then have "mem t a = mem s1 a" using t [THEN conjunct2, THEN conjunct1] by blast
        then show ?thesis using st(4) [OF na] by simp
      qed
      moreover have "mem t (the (uwrite (mem s) pt (va + of_nat i))) = mem s (src + of_nat i)"
        if i: "i < unat len" and ok1: "\<forall>i < unat len. uwrite (mem s) pt (va + of_nat i) \<noteq> None" for i
      proof (cases "i < n")
        case True
        have "uwrite (mem s) pt (va + of_nat (n + j)) \<noteq> Some (p + of_nat i)" if "j < unat (len - of_nat n)" for j
        proof
          assume "uwrite (mem s) pt (va + of_nat (n + j)) = Some (p + of_nat i)"
          moreover have "n + j < unat len" using that len by simp
          ultimately show False using less.prems(5) [of "n + j" i] st(2) [OF True] i True by auto
        qed
        then have "mem t (p + of_nat i) = mem s1 (p + of_nat i)" using t by (simp add: sh fr)
        then show ?thesis using st(2,3) [OF True] by simp
      next
        case False
        then obtain j where j: "i = n + j" "j < unat (len - of_nat n)"
          using i len by (metis add_diff_inverse_nat diff_less_mono not_less)
        have "uwrite (mem s) pt (va + of_nat k) \<noteq> Some (src + of_nat i)" if "k < unat len" for k
          using less.prems(4) [OF that, of "src + of_nat i"] i by (auto simp: unat_below)
        then have "mem s1 (src + of_nat i) = mem s (src + of_nat i)" by (intro st(4)) blast
        then show ?thesis using t ok ok1 j by (simp add: sh fr)
      qed
      ultimately show ?thesis using t st(1) True unfolding ok by (intro exI [of _ t]) auto
    qed
  qed
qed

section \<open>Initialisation\<close>

lemma PHY_END_eq: "PHY_END = 0x88000000" by (simp add: PHY_END_def KERNEL_BASE_def)

lemma kinit_loop_spec:
  assumes "aligned p" and "p \<noteq> 0" and "unat p + n * 4096 \<le> 0x88000000" and "0x88000000 < unat p + Suc n * 4096"
    and "flist (mem s) (freelist s) xs" and "\<forall>x \<in> set xs. unat x < unat p"
  shows "\<exists>t. kinit_loop p s = Inr ((), t) \<and> flist (mem t) (freelist t) (rev (map (nth_page p) [0..<n]) @ xs)
    \<and> (\<forall>a. unat a < unat p \<longrightarrow> mem t a = mem s a)"
  using assms
proof (induction n arbitrary: p s xs)
  case 0
  then have u: "unat (p + PG) = unat p + 4096" by (subst unat_add_no_wrap) simp_all
  then have "\<not> p + PG \<le> PHY_END" using 0 by (simp only: word_le_nat_alt PHY_END_eq) simp
  then show ?case using 0 by (subst kinit_loop.simps) simp
next
  case (Suc n)
  have u: "unat (p + PG) = unat p + 4096" using Suc.prems(3) by (subst unat_add_no_wrap) simp_all
  have le: "p + PG \<le> PHY_END" using u Suc.prems(3) by (simp only: word_le_nat_alt PHY_END_eq) simp
  have lt: "p < p + PG" using u by (simp add: word_less_nat_alt)
  have al: "aligned (p + PG)" using Suc.prems(1) u by (simp only: aligned_def) simp
  have "p \<notin> set xs" "unat p < 2 ^ 56" using Suc.prems(3,6) by auto
  then obtain t where t: "kfree p s = Inr ((), t)" "flist (mem t) (freelist t) (p # xs)"
    "\<forall>a. page a \<noteq> page p \<longrightarrow> mem t a = mem s a"
    using kfree_page [OF Suc.prems(5,2,1)] by blast
  have below: "mem t a = mem s a" if "unat a < unat p" for a
  proof -
    have "page a \<noteq> page p" using that Suc.prems(1) by (auto simp: page_def aligned_def)
    then show ?thesis using t(3) by blast
  qed
  have "\<forall>x \<in> set (p # xs). unat x < unat (p + PG)" using Suc.prems(6) u by auto
  moreover have "p + PG \<noteq> 0" using u by (metis add_is_0 unat_0 zero_neq_numeral)
  moreover have "unat (p + PG) + n * 4096 \<le> 0x88000000" "0x88000000 < unat (p + PG) + Suc n * 4096"
    using u Suc.prems(3,4) by simp_all
  ultimately obtain w where w: "kinit_loop (p + PG) t = Inr ((), w)"
    "flist (mem w) (freelist w) (rev (map (nth_page (p + PG)) [0..<n]) @ p # xs)"
    "\<forall>a. unat a < unat (p + PG) \<longrightarrow> mem w a = mem t a"
    using Suc.IH [OF al _ _ _ t(2)] by blast
  have "map (nth_page p) [0..<Suc n] = p # map (nth_page (p + PG)) [0..<n]"
    by (simp add: upt_conv_Cons map_Suc_upt [symmetric] nth_page_Suc del: upt_Suc)
  moreover have "kinit_loop p s = Inr ((), w)"
    using le lt t(1) w(1) by (subst kinit_loop.simps) (simp add: kbind_def)
  ultimately show ?case using w(2,3) below u by (intro exI [of _ w]) (simp del: upt_Suc)
qed

lemma uvm_create_spec:
  assumes "flist (mem s) (freelist s) (x # xs)" and "distinct (x # xs)"
  shows "\<exists>t. uvm_create s = Inr (x, t) \<and> vm_ok t x xs \<and> nodes (mem t) x = {x} \<and> leaf (mem t) x = (\<lambda>_. 0)
    \<and> (\<forall>a. page a \<noteq> page x \<longrightarrow> mem t a = mem s a)"
proof -
  obtain t where t: "kalloc s = Inr (Some x, t)" "flist (mem t) (freelist t) xs" "mem t = memset (mem s) x 5 PGSIZE"
    using kalloc_page [OF assms] by blast
  have al: "aligned x" using assms(1) by simp
  let ?m = "memset (mem t) x 0 PGSIZE"
  have fr: "?m a = mem t a" "mem t a = mem s a" if "page a \<noteq> page x" for a
    using that al t(3) by (simp_all add: memset_page)
  have "flist ?m (freelist t) xs = flist (mem t) (freelist t) xs"
  proof (rule flist_cong)
    fix y a assume y: "y \<in> set xs" "page a = page y"
    then have "y \<noteq> x" "aligned y" using assms flist_mem [OF t(2)] by auto
    then show "?m a = mem t a" using fr y al by (simp add: aligned_page_eq)
  qed
  moreover have sl: "slots ?m x = {}" using table_fill [OF al al] by (auto simp: slots_def)
  then have "paths ?m x = {}" by (simp add: paths_def)
  then have "tree ?m x" "nodes ?m x = {x}" "leaf ?m x = (\<lambda>_. 0)"
    using al sl by (auto simp: tree_def nodes_def leaf_def reach_def)
  ultimately have "vm_ok (t\<lparr>mem := ?m\<rparr>) x xs \<and> nodes ?m x = {x} \<and> leaf ?m x = (\<lambda>_. 0)"
    using t(2) assms(2) by (auto simp: vm_ok_def)
  moreover have "uvm_create s = Inr (x, t\<lparr>mem := ?m\<rparr>)"
    using t(1) by (simp add: uvm_create_def kbind_def set_mem_def)
  ultimately show ?thesis using fr by (intro exI [of _ "t\<lparr>mem := ?m\<rparr>"]) simp
qed

lemma map_pages_loop:
  assumes "va mod PG = 0" and "n < 2 ^ 32"
  shows "map_pages pt va pa (of_nat (Suc n) * PG) flag s = map_loop pt va (nth_page va n) pa flag s"
proof -
  have "unat (of_nat (Suc n) * PG :: u64) = Suc n * 4096" using assms(2) by (simp add: unat_word_ariths)
  then have u: "unat ((of_nat (Suc n) * PG :: u64) mod PG) = 0" "unat (of_nat (Suc n) * PG :: u64) \<noteq> 0"
    by (simp_all add: unat_mod_distrib del: of_nat_Suc)
  have "(of_nat (Suc n) * PG :: u64) mod PG = 0" "(of_nat (Suc n) * PG :: u64) \<noteq> 0"
    using u by (simp_all only: unat_eq_zero) auto
  then show ?thesis using assms(1) by (simp add: map_pages_def nth_page_def algebra_simps)
qed

section \<open>The interface of the allocator\<close>

text \<open>
  What the rest of the kernel relies on: the free pages are a list, an allocation takes one
  of them, a page given back becomes available, and neither touches any other page.
\<close>

definition good_page :: "u64 \<Rightarrow> bool" where
  "good_page p \<longleftrightarrow> p \<noteq> 0 \<and> aligned p \<and> unat p < 2 ^ 56"

locale page_pool =
  fixes alloc :: "('s, u64 option) kop" and free :: "u64 \<Rightarrow> ('s, unit) kop"
    and pool :: "'s \<Rightarrow> u64 list \<Rightarrow> bool" and byte :: "'s \<Rightarrow> u64 \<Rightarrow> u8"
  assumes alloc_none: "pool s [] \<Longrightarrow> alloc s = Inr (None, s)"
    and alloc_some: "pool s (x # xs) \<Longrightarrow> \<exists>t. alloc s = Inr (Some x, t) \<and> pool t xs
      \<and> (\<forall>a. page a \<noteq> page x \<longrightarrow> byte t a = byte s a)"
    and free_page: "pool s xs \<Longrightarrow> good_page p \<Longrightarrow> p \<notin> set xs \<Longrightarrow> \<exists>t. free p s = Inr ((), t) \<and> pool t (p # xs)
      \<and> (\<forall>a. page a \<noteq> page p \<longrightarrow> byte t a = byte s a)"
begin

lemma free_then_alloc:
  assumes "pool s xs" and "good_page p" and "p \<notin> set xs"
  shows "\<exists>t u. free p s = Inr ((), t) \<and> alloc t = Inr (Some p, u) \<and> pool u xs
    \<and> (\<forall>a. page a \<noteq> page p \<longrightarrow> byte u a = byte s a)"
proof -
  obtain t where t: "free p s = Inr ((), t)" "pool t (p # xs)" "\<forall>a. page a \<noteq> page p \<longrightarrow> byte t a = byte s a"
    using free_page [OF assms] by blast
  then obtain u where "alloc t = Inr (Some p, u)" "pool u xs" "\<forall>a. page a \<noteq> page p \<longrightarrow> byte u a = byte t a"
    using alloc_some by blast
  then show ?thesis using t by auto
qed

lemma alloc_until_empty:
  assumes "pool s xs"
  shows "\<exists>t. (fold (\<lambda>_ (s, ys). case alloc s of Inr (Some y, s') \<Rightarrow> (s', ys @ [y]) | _ \<Rightarrow> (s, ys)) xs (s, zs)) = (t, zs @ xs)
    \<and> pool t []"
  using assms
proof (induction xs arbitrary: s zs)
  case Nil
  then show ?case by simp
next
  case (Cons x xs)
  then obtain t where t: "alloc s = Inr (Some x, t)" "pool t xs" using alloc_some by blast
  then show ?case using Cons.IH [OF t(2), of "zs @ [x]"] by simp
qed

end

definition free_pages :: "vm_state \<Rightarrow> u64 list \<Rightarrow> bool" where
  "free_pages s xs \<longleftrightarrow> flist (mem s) (freelist s) xs \<and> distinct xs"

interpretation pages: page_pool kalloc kfree free_pages mem
proof
  fix s x xs p
  show "free_pages s [] \<Longrightarrow> kalloc s = Inr (None, s)" by (simp add: free_pages_def kalloc_empty)
  assume "free_pages s (x # xs)"
  then obtain t where t: "kalloc s = Inr (Some x, t)" "flist (mem t) (freelist t) xs"
    "mem t = memset (mem s) x 5 PGSIZE" "distinct xs" "aligned x"
    using kalloc_page [of s x xs] by (auto simp: free_pages_def)
  then show "\<exists>t. kalloc s = Inr (Some x, t) \<and> free_pages t xs \<and> (\<forall>a. page a \<noteq> page x \<longrightarrow> mem t a = mem s a)"
    by (intro exI [of _ t]) (simp add: free_pages_def memset_page)
next
  fix s xs p
  assume "free_pages s xs" "good_page p" "p \<notin> set xs"
  then show "\<exists>t. kfree p s = Inr ((), t) \<and> free_pages t (p # xs) \<and> (\<forall>a. page a \<noteq> page p \<longrightarrow> mem t a = mem s a)"
    using kfree_page [of s xs p] by (auto simp: free_pages_def good_page_def)
qed

section \<open>Properties\<close>

text \<open>A pool of four pages, and a root table with one user page, for the witnesses.\<close>

definition vm_zero :: vm_state where "vm_zero = \<lparr>mem = (\<lambda>_. 0), freelist = 0, kernel_pagetable = 0\<rparr>"

lemma demo_pool: "\<exists>s. free_pages s [0x80001000, 0x80002000, 0x80003000]"
proof -
  have "free_pages vm_zero []" by (simp add: free_pages_def vm_zero_def)
  then obtain s where "free_pages s [0x80003000]"
    using pages.free_page [of vm_zero "[]" "0x80003000"] by (auto simp: good_page_def aligned_def)
  then obtain t where "free_pages t [0x80002000, 0x80003000]"
    using pages.free_page [of s "[0x80003000]" "0x80002000"] by (auto simp: good_page_def aligned_def)
  then obtain u where "free_pages u [0x80001000, 0x80002000, 0x80003000]"
    using pages.free_page [of t "[0x80002000, 0x80003000]" "0x80001000"] by (auto simp: good_page_def aligned_def)
  then show ?thesis by blast
qed

lemma demo_root: "\<exists>s. vm_ok s 0x80001000 [0x80002000, 0x80003000] \<and> nodes (mem s) 0x80001000 = {0x80001000}
    \<and> leaf (mem s) 0x80001000 = (\<lambda>_. 0)"
proof -
  obtain s where "free_pages s [0x80001000, 0x80002000, 0x80003000]" using demo_pool by blast
  then show ?thesis using uvm_create_spec [of s "0x80001000" "[0x80002000, 0x80003000]"] by (auto simp: free_pages_def)
qed

definition user_flags :: u32 where "user_flags = ucast (PTE_R OR PTE_W OR PTE_U)"

lemma user_entry:
  "PTE2PA (PA2PTE 0x80009000 OR ucast user_flags OR PTE_V) = 0x80009000"
  "bit (PA2PTE 0x80009000 OR ucast user_flags OR PTE_V) 0" "bit (PA2PTE 0x80009000 OR ucast user_flags OR PTE_V) 2"
  "bit (PA2PTE 0x80009000 OR ucast user_flags OR PTE_V) 4"
proof -
  have f: "(ucast user_flags OR PTE_V :: u64) = 23"
    by (simp add: user_flags_def PTE_V_def PTE_R_def PTE_W_def PTE_U_def)
  then show "PTE2PA (PA2PTE 0x80009000 OR ucast user_flags OR PTE_V) = 0x80009000"
    using PTE2PA_mk [of "0x80009000" 23] by (simp add: or.assoc)
  show "bit (PA2PTE 0x80009000 OR ucast user_flags OR PTE_V) 0" "bit (PA2PTE 0x80009000 OR ucast user_flags OR PTE_V) 2"
    "bit (PA2PTE 0x80009000 OR ucast user_flags OR PTE_V) 4"
    unfolding or.assoc f by (simp_all add: bit_or_iff)
qed

text \<open>
  C4: \<open>map_pages\<close>.  On a page table whose tables form a tree disjoint from the free pages, and
  for a run of pages none of which is mapped, \<open>map_pages\<close> returns; with two free pages for
  every page of the run it returns true, and then each page of the run has exactly the entry
  for its physical page and the given flags.  Every other mapping is what it was, the
  tables are again a tree disjoint from the free pages, and no memory changes outside the
  tables and the pages taken from the free list.
\<close>

theorem map_pages_correct:
  assumes "vm_ok s pt xs" and "va mod PG = 0" and "unat va + n * 4096 \<le> 0x4000000000"
    and "\<forall>i \<le> n. \<not> bit (leaf (mem s) pt (nth_page va i)) 0"
  shows "\<exists>r t ys. map_pages pt va pa (of_nat (Suc n) * PG) flag s = Inr (r, t) \<and> vm_ok t pt ys
    \<and> (\<exists>us. xs = us @ ys) \<and> (2 * Suc n \<le> length xs \<longrightarrow> r)
    \<and> (r \<longrightarrow> (\<forall>i \<le> n. leaf (mem t) pt (nth_page va i) = PA2PTE (nth_page pa i) OR ucast flag OR PTE_V))
    \<and> (\<forall>v. (\<forall>i \<le> n. \<not> same_page (nth_page va i) v) \<longrightarrow> leaf (mem t) pt v = leaf (mem s) pt v)
    \<and> (\<forall>b. page b \<notin> page ` (nodes (mem s) pt \<union> set xs) \<longrightarrow> mem t b = mem s b)"
proof -
  have "n < 2 ^ 32" using assms(3) by simp
  then have e: "map_pages pt va pa (of_nat (Suc n) * PG) flag s = map_loop pt va (nth_page va n) pa flag s"
    by (rule map_pages_loop [OF assms(2)])
  have free: "\<And>i. i \<le> n \<Longrightarrow> \<not> valid_pte (leaf (mem s) pt (nth_page va i))" using assms(4) by blast
  obtain r t ys where "map_loop pt va (nth_page va n) pa flag s = Inr (r, t)" "vm_ok t pt ys" "\<exists>us. xs = us @ ys"
    "\<forall>b. page b \<notin> page ` (nodes (mem s) pt \<union> set xs) \<longrightarrow> mem t b = mem s b"
    "\<forall>v. (\<forall>i \<le> n. \<not> same_page (nth_page va i) v) \<longrightarrow> leaf (mem t) pt v = leaf (mem s) pt v"
    "r \<longrightarrow> (\<forall>i \<le> n. leaf (mem t) pt (nth_page va i) = PA2PTE (nth_page pa i) OR ucast flag OR PTE_V)"
    "\<not> r \<longrightarrow> length xs < 2 * Suc n"
    using map_loop_spec [OF assms(1,3) free, of pa flag] by blast
  then show ?thesis unfolding e by (intro exI [of _ r] exI [of _ t] exI [of _ ys]) auto
qed

theorem map_pages_correct_witness:
  "\<exists>(s :: vm_state) t. leaf (mem s) 0x80001000 0 = 0 \<and> map_pages 0x80001000 0 0x80009000 4096 user_flags s = Inr (True, t)
     \<and> PTE2PA (leaf (mem t) 0x80001000 0) = 0x80009000"
proof -
  obtain s where s: "vm_ok s 0x80001000 [0x80002000, 0x80003000]" "leaf (mem s) 0x80001000 = (\<lambda>_. 0)"
    using demo_root by blast
  then have "\<exists>t :: vm_state. map_pages 0x80001000 0 0x80009000 4096 user_flags s = Inr (True, t)
      \<and> leaf (mem t) 0x80001000 0 = PA2PTE 0x80009000 OR ucast user_flags OR PTE_V"
    using map_pages_correct [of s "0x80001000" "[0x80002000, 0x80003000]" 0 0 "0x80009000" user_flags] by auto
  then obtain t where "map_pages 0x80001000 0 0x80009000 4096 user_flags s = Inr (True, t)"
    "PTE2PA (leaf (mem t) 0x80001000 0) = 0x80009000" using user_entry(1) by auto
  moreover have "leaf (mem s) 0x80001000 0 = 0" using s(2) by simp
  ultimately show ?thesis by blast
qed

text \<open>A table with one writable user page at virtual address 0.\<close>

lemma demo_user:
  "\<exists>s :: vm_state. nodes (mem s) 0x80001000 \<subseteq> {0x80001000, 0x80002000, 0x80003000}
     \<and> (\<forall>va. unat va < 4096 \<longrightarrow> uread (mem s) 0x80001000 va = Some (0x80009000 + va)
          \<and> uwrite (mem s) 0x80001000 va = Some (0x80009000 + va))"
proof -
  obtain s where s: "vm_ok s 0x80001000 [0x80002000, 0x80003000]" "nodes (mem s) 0x80001000 = {0x80001000}"
    "leaf (mem s) 0x80001000 = (\<lambda>_. 0)" using demo_root by blast
  let ?e = "PA2PTE 0x80009000 OR ucast user_flags OR PTE_V"
  have "\<exists>t :: vm_state. nodes (mem t) 0x80001000 \<subseteq> nodes (mem s) 0x80001000 \<union> {0x80002000, 0x80003000}
      \<and> (\<forall>va'. leaf (mem t) 0x80001000 va' = (if same_page 0 va' then ?e else 0))"
    using map_one_spec [OF s(1), of 0 "0x80009000" user_flags] s(3) by (auto split: if_splits)
  then obtain t :: vm_state where t: "nodes (mem t) 0x80001000 \<subseteq> nodes (mem s) 0x80001000 \<union> {0x80002000, 0x80003000}"
    "\<forall>va'. leaf (mem t) 0x80001000 va' = (if same_page 0 va' then ?e else 0)" by blast
  have "leaf (mem t) 0x80001000 va = ?e" if "unat va < 4096" for va
  proof -
    have "same_page 0 va" using that by (subst same_page_iff) (auto simp: VA_MAX_eq word_le_nat_alt page_def)
    then show ?thesis using t(2) by simp
  qed
  then have "uread (mem t) 0x80001000 va = Some (0x80009000 + va) \<and> uwrite (mem t) 0x80001000 va = Some (0x80009000 + va)"
    if "unat va < 4096" for va
    using that user_entry by (simp add: uread_def uwrite_def)
  then show ?thesis using t(1) s(2) by (intro exI [of _ t]) auto
qed

text \<open>
  C6: \<open>copyin\<close>.  For a user range below 4 GiB, \<open>copyin\<close> returns true exactly when every byte of
  the range lies on a valid user page, and then the kernel buffer holds the bytes of the
  user range, across page boundaries.  In every case nothing outside the buffer changes.  The
  buffer must not overlap the page tables or the user pages read.
\<close>

theorem copyin_correct:
  assumes "aligned pt" and "unat va + unat len \<le> 2 ^ 32" and "unat dst + unat len \<le> 2 ^ 64"
    and "\<And>a. unat (a - dst) < unat len \<Longrightarrow> page a \<notin> page ` nodes (mem s) pt"
    and "\<And>i p. i < unat len \<Longrightarrow> uread (mem s) pt (va + of_nat i) = Some p \<Longrightarrow> \<not> unat (p - dst) < unat len"
  shows "\<exists>t. copyin pt dst va len s = Inr ((\<forall>i < unat len. uread (mem s) pt (va + of_nat i) \<noteq> None), t)
    \<and> (\<forall>a. \<not> unat (a - dst) < unat len \<longrightarrow> mem t a = mem s a)
    \<and> ((\<forall>i < unat len. uread (mem s) pt (va + of_nat i) \<noteq> None) \<longrightarrow>
        (\<forall>i < unat len. mem t (dst + of_nat i) = mem s (the (uread (mem s) pt (va + of_nat i)))))"
  using assms by (rule copyin_spec)

theorem copyin_correct_witness:
  "\<exists>s t. uread (mem s) 0x80001000 17 = Some 0x80009011 \<and> copyin 0x80001000 0x80010000 16 3 s = Inr (True, t)
     \<and> mem t 0x80010001 = mem s 0x80009011"
proof -
  obtain s :: vm_state where s: "nodes (mem s) 0x80001000 \<subseteq> {0x80001000, 0x80002000, 0x80003000}"
    "\<And>va. unat va < 4096 \<Longrightarrow> uread (mem s) 0x80001000 va = Some (0x80009000 + va)" using demo_user by blast
  have i3: "i < 3 \<longleftrightarrow> i = 0 \<or> i = 1 \<or> i = 2" for i :: nat by auto
  have u: "uread (mem s) 0x80001000 (16 + of_nat i) = Some (0x80009010 + of_nat i)" if "i < 3" for i
    using s(2) [of "16 + of_nat i"] that by (auto simp: i3)
  have "page a \<notin> page ` nodes (mem s) 0x80001000" if a: "unat (a - 0x80010000) < 3" for a
  proof -
    have "page a = 0x80010" using page_at [of "0x80010000" "unat (a - 0x80010000)"] a by (simp add: aligned_def page_def)
    moreover have "page q \<noteq> 0x80010" if "q \<in> {0x80001000, 0x80002000, 0x80003000}" for q :: u64
      using that by (auto simp: page_def)
    ultimately show ?thesis using s(1) by auto
  qed
  moreover have "\<not> unat (p - 0x80010000) < unat (3 :: u64)"
    if "i < unat (3 :: u64)" "uread (mem s) 0x80001000 (16 + of_nat i) = Some p" for i p
    using that u [of i] by (auto simp: i3)
  ultimately obtain t where t: "copyin 0x80001000 0x80010000 16 3 s = Inr (True, t)"
    "\<forall>i < 3. mem t (0x80010000 + of_nat i) = mem s (the (uread (mem s) 0x80001000 (16 + of_nat i)))"
    using copyin_correct [of "0x80001000" 16 3 "0x80010000" s] u by (auto simp: aligned_def)
  have "uread (mem s) 0x80001000 17 = Some 0x80009011" using u [of 1] by simp
  moreover have "mem t 0x80010001 = mem s 0x80009011" using t(2) [rule_format, of 1] u [of 1] by simp
  ultimately show ?thesis using t(1) by blast
qed

text \<open>
  C5: \<open>copyout\<close>.  For a user range below 4 GiB whose bytes lie on different physical bytes,
  none of them in a page table or in the source buffer, \<open>copyout\<close> returns true exactly when
  every byte lies on a valid, writable user page, and then the user range holds the bytes of
  the source.  In every case no physical byte changes that the range does not map to.
\<close>

theorem copyout_correct:
  assumes "aligned pt" and "unat va + unat len \<le> 2 ^ 32" and "unat src + unat len \<le> 2 ^ 64"
    and "\<And>i p. i < unat len \<Longrightarrow> uwrite (mem s) pt (va + of_nat i) = Some p \<Longrightarrow>
      page p \<notin> page ` nodes (mem s) pt \<and> \<not> unat (p - src) < unat len"
    and "\<And>i j p. i < unat len \<Longrightarrow> j < unat len \<Longrightarrow> uwrite (mem s) pt (va + of_nat i) = Some p \<Longrightarrow>
      uwrite (mem s) pt (va + of_nat j) = Some p \<Longrightarrow> i = j"
  shows "\<exists>t. copyout pt va src len s = Inr ((\<forall>i < unat len. uwrite (mem s) pt (va + of_nat i) \<noteq> None), t)
    \<and> (\<forall>a. (\<forall>i < unat len. uwrite (mem s) pt (va + of_nat i) \<noteq> Some a) \<longrightarrow> mem t a = mem s a)
    \<and> ((\<forall>i < unat len. uwrite (mem s) pt (va + of_nat i) \<noteq> None) \<longrightarrow>
        (\<forall>i < unat len. mem t (the (uwrite (mem s) pt (va + of_nat i))) = mem s (src + of_nat i)))"
  using assms by (rule copyout_spec)

theorem copyout_correct_witness:
  "\<exists>s t. uwrite (mem s) 0x80001000 17 = Some 0x80009011 \<and> copyout 0x80001000 16 0x80010000 3 s = Inr (True, t)
     \<and> mem t 0x80009011 = mem s 0x80010001"
proof -
  obtain s :: vm_state where s: "nodes (mem s) 0x80001000 \<subseteq> {0x80001000, 0x80002000, 0x80003000}"
    "\<And>va. unat va < 4096 \<Longrightarrow> uwrite (mem s) 0x80001000 va = Some (0x80009000 + va)" using demo_user by blast
  have i3: "i < 3 \<longleftrightarrow> i = 0 \<or> i = 1 \<or> i = 2" for i :: nat by auto
  have u: "uwrite (mem s) 0x80001000 (16 + of_nat i) = Some (0x80009010 + of_nat i)" if "i < 3" for i
    using s(2) [of "16 + of_nat i"] that by (auto simp: i3)
  have "page q \<noteq> 0x80009" if "q \<in> nodes (mem s) 0x80001000" for q :: u64
    using that s(1) by (auto simp: page_def)
  then have "page p \<notin> page ` nodes (mem s) 0x80001000 \<and> \<not> unat (p - 0x80010000) < unat (3 :: u64)"
    if "i < unat (3 :: u64)" "uwrite (mem s) 0x80001000 (16 + of_nat i) = Some p" for i p
    using that u [of i] by (force simp: i3 page_def)
  moreover have "i = j" if "i < unat (3 :: u64)" "j < unat (3 :: u64)" "uwrite (mem s) 0x80001000 (16 + of_nat i) = Some p"
    "uwrite (mem s) 0x80001000 (16 + of_nat j) = Some p" for i j p
    using that u [of i] u [of j] by (auto simp: i3)
  ultimately obtain t where t: "copyout 0x80001000 16 0x80010000 3 s = Inr (True, t)"
    "\<forall>i < 3. mem t (the (uwrite (mem s) 0x80001000 (16 + of_nat i))) = mem s (0x80010000 + of_nat i)"
    using copyout_correct [of "0x80001000" 16 3 "0x80010000" s] u by (auto simp: aligned_def)
  have "uwrite (mem s) 0x80001000 17 = Some 0x80009011" using u [of 1] by simp
  moreover have "mem t 0x80009011 = mem s 0x80010001" using t(2) [rule_format, of 1] u [of 1] by simp
  ultimately show ?thesis using t(1) by blast
qed

text \<open>
  C31: a page given back with \<open>kfree\<close> is the next one \<open>kalloc\<close> hands out, the other free pages
  stay free in their order, and no byte outside the page changes.
\<close>

theorem kfree_kalloc:
  assumes "free_pages s xs" and "good_page p" and "p \<notin> set xs"
  shows "\<exists>t u. kfree p s = Inr ((), t) \<and> kalloc t = Inr (Some p, u) \<and> free_pages u xs
    \<and> (\<forall>a. page a \<noteq> page p \<longrightarrow> mem u a = mem s a)"
  by (rule pages.free_then_alloc [OF assms])

theorem kfree_kalloc_witness:
  "\<exists>s t u. kfree 0x80005000 s = Inr ((), t) \<and> kalloc t = Inr (Some 0x80005000, u)
     \<and> free_pages u [0x80001000, 0x80002000, 0x80003000]"
proof -
  obtain s where "free_pages s [0x80001000, 0x80002000, 0x80003000]" using demo_pool by blast
  then show ?thesis
    using kfree_kalloc [of s "[0x80001000, 0x80002000, 0x80003000]" "0x80005000"]
    by (auto simp: good_page_def aligned_def)
qed

text \<open>
  C30: \<open>kinit\<close> makes every whole page between the end of the kernel and the end of memory
  available, the highest first, and changes nothing below.
\<close>

theorem kinit_frees_all:
  assumes "0 < kend" and "unat kend \<le> 0x88000000" and "freelist s = 0"
  shows "\<exists>t. kinit kend s = Inr ((), t)
    \<and> free_pages t (rev (map (nth_page (PG_ROUND_UP kend)) [0..<(0x88000000 - unat (PG_ROUND_UP kend)) div 4096]))
    \<and> (\<forall>a. unat a < unat (PG_ROUND_UP kend) \<longrightarrow> mem t a = mem s a)"
proof -
  let ?p = "PG_ROUND_UP kend" and ?n = "(0x88000000 - unat (PG_ROUND_UP kend)) div 4096"
  have k: "unat (kend + PG - 1) = unat kend + 4095"
  proof -
    have "kend + PG - 1 = kend + 4095" by simp
    then show ?thesis using assms(2) by (simp only:) (subst unat_add_no_wrap, simp_all)
  qed
  have u: "unat ?p = (unat kend + 4095) div 4096 * 4096"
  proof -
    have "?p = PG_ROUND_DOWN (kend + PG - 1)" by (simp only: PG_ROUND_UP_def PG_ROUND_DOWN_def)
    then show ?thesis using k assms(2) by (simp add: PG_ROUND_DOWN_unat)
  qed
  have al: "aligned ?p" using u by (simp add: aligned_def)
  have "0 < unat kend" using assms(1) by (simp add: word_less_nat_alt)
  then have pos: "unat ?p \<noteq> 0" using u by (simp add: div_eq_0_iff)
  then have nz: "?p \<noteq> 0" by (metis unat_0)
  have le: "unat ?p \<le> 0x88000000" using u assms(2) by (simp add: div_le_mono [of "unat kend + 4095" "0x88000FFF" 4096, simplified])
  then have n: "unat ?p + ?n * 4096 \<le> 0x88000000" "0x88000000 < unat ?p + Suc ?n * 4096"
    by (simp_all add: div_times_less_eq_dividend le_diff_conv2 [symmetric] dividend_less_div_times)
  obtain t where "kinit kend s = Inr ((), t)"
    "flist (mem t) (freelist t) (rev (map (nth_page ?p) [0..<?n]))" "\<forall>a. unat a < unat ?p \<longrightarrow> mem t a = mem s a"
    using kinit_loop_spec [OF al nz n, of s "[]"] assms(3) by (auto simp: kinit_def)
  moreover have "distinct (map (nth_page ?p) [0..<?n])"
    using unat_nth_page [of ?p ?n] n(1) by (auto simp: distinct_map inj_on_def dest!: arg_cong [of _ _ unat])
  ultimately show ?thesis by (auto simp: free_pages_def)
qed

theorem kinit_frees_all_witness:
  "\<exists>t. kinit 0x87FFD123 vm_zero = Inr ((), t) \<and> free_pages t [0x87FFF000, 0x87FFE000]"
proof -
  have "PG_ROUND_UP 0x87FFD123 = 0x87FFE000" by (simp add: PG_ROUND_UP_def PGSIZE_def)
  then show ?thesis
    using kinit_frees_all [of "0x87FFD123" vm_zero] by (auto simp: vm_zero_def nth_page_def upt_rec)
qed

text \<open>
  C32: the rounding macros keep the low 32 bits only.  \<open>~(PGSIZE - 1)\<close> is computed in
  \<open>uint32_t\<close>, so \<open>PG_ROUND_DOWN\<close> is the page address for addresses below 4 GiB and loses the
  upper half of every other address.
\<close>

theorem pg_round_down_truncates:
  "unat (PG_ROUND_DOWN a) = unat a mod 2 ^ 32 div 4096 * 4096
   \<and> (unat (PG_ROUND_DOWN a) = unat a div 4096 * 4096 \<longleftrightarrow> unat a < 2 ^ 32)"
proof -
  have "unat a div 4096 * 4096 \<noteq> unat a mod 2 ^ 32 div 4096 * 4096" if "\<not> unat a < 2 ^ 32"
  proof -
    have "2 ^ 32 \<le> unat a div 4096 * 4096"
    proof -
      have "2 ^ 32 div 4096 \<le> unat a div 4096" using that by (intro div_le_mono) simp
      then show ?thesis by simp
    qed
    moreover have "unat a mod 2 ^ 32 div 4096 * 4096 < 2 ^ 32"
      by (rule order.strict_trans1 [OF div_times_less_eq_dividend]) simp
    ultimately show ?thesis by linarith
  qed
  then show ?thesis by (cases "unat a < 2 ^ 32") (auto simp: PG_ROUND_DOWN_unat)
qed

end
