(* ===== verification/Teardown.thy ===== *)
theory Teardown
  imports Pagetable
begin

text \<open>
  Giving back the tables of an address space.  \<open>free_walk\<close> recurses through memory that it
  changes while it goes; the theory shows that it ends on every three-level tree without
  leaves and puts each table of it on the free list exactly once.
\<close>

section \<open>The tables below a root\<close>

text \<open>The tables in the order in which \<open>free_walk\<close> frees them, and that there is no leaf among them.\<close>

fun tables :: "nat \<Rightarrow> memory \<Rightarrow> u64 \<Rightarrow> u64 list" where
  "tables 0 m p = []"
| "tables (Suc n) m p =
     concat (map (\<lambda>i. if valid_pte (table m p i) then tables n m (child m p i) else []) [0..<512]) @ [p]"

fun leafless :: "nat \<Rightarrow> memory \<Rightarrow> u64 \<Rightarrow> bool" where
  "leafless 0 m p \<longleftrightarrow> False"
| "leafless (Suc n) m p \<longleftrightarrow> (\<forall>i < 512. valid_pte (table m p i) \<longrightarrow>
     table m p i AND (PTE_R OR PTE_W OR PTE_X) = 0 \<and> leafless n m (child m p i))"

definition below :: "nat \<Rightarrow> memory \<Rightarrow> u64 \<Rightarrow> nat \<Rightarrow> u64 list" where
  "below n m p i = (if valid_pte (table m p i) then tables n m (child m p i) else [])"

lemma tables_Suc: "tables (Suc n) m p = concat (map (below n m p) [0..<512]) @ [p]"
  unfolding tables.simps below_def ..

declare tables.simps(2) [simp del]

lemma below_subset: "i < 512 \<Longrightarrow> set (below n m p i) \<subseteq> set (tables (Suc n) m p)"
  by (auto simp: tables_Suc)

lemma tables_self: "leafless n m p \<Longrightarrow> p \<in> set (tables n m p)"
  by (cases n) (simp_all add: tables_Suc)

text \<open>The tables depend only on their own bytes.\<close>

lemma tables_depend:
  assumes "\<And>a. page a \<in> page ` set (tables n m p) \<Longrightarrow> m' a = m a" and "aligned p" and "leafless n m p"
  shows "tables n m' p = tables n m p \<and> leafless n m' p"
  using assms
proof (induction n arbitrary: p)
  case 0
  then show ?case by simp
next
  case (Suc n)
  have same: "table m' p i = table m p i" if "i < 512" for i
    using Suc.prems(1,2) tables_self [OF Suc.prems(3)] that
    by (intro table_other) (auto intro!: Suc.prems(1))
  then have ch: "child m' p i = child m p i" if "i < 512" for i using that by (simp add: child_def)
  have sub: "tables n m' (child m p i) = tables n m (child m p i) \<and> leafless n m' (child m p i)"
    if "i < 512" "valid_pte (table m p i)" for i
  proof (rule Suc.IH)
    show "aligned (child m p i)" "leafless n m (child m p i)" using Suc.prems(3) that by auto
    fix a assume "page a \<in> page ` set (tables n m (child m p i))"
    then show "m' a = m a" using below_subset [OF that(1), of n m p] that(2) by (intro Suc.prems(1)) (auto simp: below_def)
  qed
  have "below n m' p i = below n m p i" if "i < 512" for i using that sub same ch by (simp add: below_def)
  then have "map (below n m' p) [0..<512] = map (below n m p) [0..<512]" by (intro map_cong) simp_all
  then have "tables (Suc n) m' p = tables (Suc n) m p" by (simp only: tables_Suc)
  then show ?case using Suc.prems(3) sub same ch by simp
qed

section \<open>The recursion\<close>

text \<open>What may be freed: a leafless tree of pages, each there once and none of them free already.\<close>

definition freeable :: "nat \<Rightarrow> vm_state \<Rightarrow> u64 \<Rightarrow> u64 list \<Rightarrow> bool" where
  "freeable n s p xs \<longleftrightarrow> leafless n (mem s) p \<and> distinct (tables n (mem s) p)
     \<and> (\<forall>q \<in> set (tables n (mem s) p). good_page q \<and> q \<notin> set xs) \<and> free_pages s xs"

text \<open>All its tables are free, and no byte of any other page has changed.\<close>

definition freed :: "u64 list \<Rightarrow> vm_state \<Rightarrow> u64 list \<Rightarrow> vm_state \<Rightarrow> bool" where
  "freed qs s xs t \<longleftrightarrow> free_pages t (rev qs @ xs) \<and> (\<forall>a. page a \<notin> page ` set qs \<longrightarrow> mem t a = mem s a)"

definition walk_entry :: "nat \<Rightarrow> u64 \<Rightarrow> nat \<Rightarrow> (vm_state, unit) kop" where
  "walk_entry fuel pagetable i = (\<lambda>s.
     let a = pagetable + 8 * of_nat i; pte = load64 (mem s) a in
     if pte AND PTE_V \<noteq> 0 \<and> pte AND (PTE_R OR PTE_W OR PTE_X) = 0 then
       kthen (free_walk fuel (PTE2PA pte)) (set_mem (\<lambda>m. store64 m a 0)) s
     else if pte AND PTE_V \<noteq> 0 then Inl (Panic ''vm::free_walk: leaf'')
     else Inr ((), s))"

lemma free_walk_Suc: "free_walk (Suc fuel) p = kthen (kfor (walk_entry fuel p) [0..<512]) (kfree p)"
  unfolding walk_entry_def by simp

lemma pte_valid: "(e :: u64) AND PTE_V \<noteq> 0 \<longleftrightarrow> valid_pte e"
  by (simp add: PTE_V_def and_one_eq odd_iff_mod_2_eq_one [symmetric] bit_0)

lemma distinct_page:
  assumes "x \<noteq> y" "good_page x" "good_page y"
  shows "page x \<noteq> page y"
  using assms aligned_page_eq by (auto simp: good_page_def)

lemma store_entry_other:
  assumes "aligned p" and "i < 512" and "page a \<noteq> page p"
  shows "store64 m (p + 8 * of_nat i) v a = m a"
proof -
  have "page a = page p" if lt: "unat (a - (p + 8 * of_nat i)) < 8"
    using page_entry [OF assms(1,2) lt] by simp
  then show ?thesis using assms(3) by (auto simp: store64_apply)
qed

text \<open>One entry of the table \<open>p\<close>, given that the recursion frees what is below it.\<close>

lemma walk_entry_spec:
  assumes IH: "\<And>q s xs. freeable n s q xs \<Longrightarrow> \<exists>t. free_walk n q s = Inr ((), t) \<and> freed (tables n (mem s) q) s xs t"
    and i: "i < 512" and p: "good_page p" "p \<notin> set xs" "p \<notin> set (below n (mem s) p i)" and pool: "free_pages s xs"
    and sub: "valid_pte (table (mem s) p i) \<Longrightarrow>
      table (mem s) p i AND (PTE_R OR PTE_W OR PTE_X) = 0 \<and> freeable n s (child (mem s) p i) xs"
  shows "\<exists>t. walk_entry n p i s = Inr ((), t) \<and> free_pages t (rev (below n (mem s) p i) @ xs)
    \<and> (\<forall>a. page a \<notin> page ` set (below n (mem s) p i) \<longrightarrow> page a \<noteq> page p \<longrightarrow> mem t a = mem s a)
    \<and> (\<forall>j. j < 512 \<longrightarrow> j \<noteq> i \<longrightarrow> table (mem t) p j = table (mem s) p j)"
proof (cases "valid_pte (table (mem s) p i)")
  case False
  then show ?thesis using pool by (simp add: walk_entry_def Let_def pte_valid below_def flip: table_def)
next
  case True
  let ?q = "child (mem s) p i" and ?e = "table (mem s) p i"
  have b: "below n (mem s) p i = tables n (mem s) ?q" using True by (simp add: below_def)
  have fr: "freeable n s ?q xs" using sub [OF True] by simp
  obtain u where u: "free_walk n ?q s = Inr ((), u)" "freed (tables n (mem s) ?q) s xs u"
    using IH [OF fr] by blast
  let ?t = "u\<lparr>mem := store64 (mem u) (p + 8 * of_nat i) 0\<rparr>"
  have al: "aligned p" using p(1) by (simp add: good_page_def)
  note st = store_entry_other [OF al i, of _ "mem u" 0]
  have pq: "page p \<noteq> page q" if "q \<in> set (tables n (mem s) ?q) \<or> q \<in> set xs" for q
  proof -
    have "q \<noteq> p" using that p(2,3) b by auto
    moreover have "good_page q"
      using that fr flist_mem by (auto simp: freeable_def free_pages_def good_page_def)
    ultimately show ?thesis using distinct_page [of p q] p(1) by auto
  qed
  have "mem ?t a = mem u a" if "x \<in> set (rev (tables n (mem s) ?q) @ xs)" "page a = page x" for x a
    using st [of a] pq [of x] that by auto
  then have "flist (mem ?t) (freelist u) (rev (tables n (mem s) ?q) @ xs)"
    using u(2) flist_cong [of "rev (tables n (mem s) ?q) @ xs" "mem ?t" "mem u"] by (simp add: freed_def free_pages_def)
  then have "free_pages ?t (rev (tables n (mem s) ?q) @ xs)" using u(2) by (simp add: freed_def free_pages_def)
  moreover have "table (mem ?t) p j = table (mem s) p j" if "j < 512" "j \<noteq> i" for j
  proof -
    have "page p \<notin> page ` set (tables n (mem s) ?q)" using pq by auto
    then have "table (mem u) p j = table (mem s) p j"
      using u(2) by (intro table_other [OF al that(1)]) (simp add: freed_def)
    then show ?thesis using table_store [OF al al i that(1)] that(2) by simp
  qed
  moreover have "walk_entry n p i s = Inr ((), ?t)"
    using True sub [OF True] u(1)
    by (simp add: walk_entry_def Let_def pte_valid kbind_Inr set_mem_def kmodify_def child_def flip: table_def)
  ultimately show ?thesis using u(2) st by (intro exI [of _ ?t]) (auto simp: b freed_def)
qed

lemma upt_split: "k < n \<Longrightarrow> [0..<n] = [0..<k] @ k # [Suc k..<n]"
  using upt_add_eq_append [of 0 k "n - k"] upt_conv_Cons [of k n] by simp

text \<open>The first \<open>k\<close> entries.\<close>

lemma walk_entries_spec:
  assumes IH: "\<And>q s xs. freeable n s q xs \<Longrightarrow> \<exists>t. free_walk n q s = Inr ((), t) \<and> freed (tables n (mem s) q) s xs t"
    and f: "freeable (Suc n) s p xs" and k: "k \<le> 512"
  shows "\<exists>t. kfor (walk_entry n p) [0..<k] s = Inr ((), t)
    \<and> free_pages t (rev (concat (map (below n (mem s) p) [0..<k])) @ xs)
    \<and> (\<forall>a. page a \<notin> page ` set (concat (map (below n (mem s) p) [0..<k])) \<longrightarrow> page a \<noteq> page p \<longrightarrow> mem t a = mem s a)
    \<and> (\<forall>j. k \<le> j \<longrightarrow> j < 512 \<longrightarrow> table (mem t) p j = table (mem s) p j)"
  using k
proof (induction k)
  case 0
  then show ?case using f by (simp add: kreturn_def freeable_def)
next
  case (Suc k)
  let ?m = "mem s" and ?B = "below n (mem s) p"
  let ?D = "concat (map ?B [0..<k])"
  obtain t where t: "kfor (walk_entry n p) [0..<k] s = Inr ((), t)" "free_pages t (rev ?D @ xs)"
    "\<And>a. page a \<notin> page ` set ?D \<Longrightarrow> page a \<noteq> page p \<Longrightarrow> mem t a = ?m a"
    "\<And>j. k \<le> j \<Longrightarrow> j < 512 \<Longrightarrow> table (mem t) p j = table ?m p j"
    using Suc by auto
  have k: "k < 512" using Suc.prems by simp
  obtain C where all: "tables (Suc n) ?m p = ?D @ ?B k @ C @ [p]"
    unfolding tables_Suc upt_split [OF k] by (simp only: map_append concat_append list.map concat.simps append_assoc)
  note f' = f [unfolded freeable_def all, THEN conjunct2]
  have good: "good_page q" "q \<notin> set xs" if "q \<in> set ?D \<union> set (?B k) \<union> {p}" for q
    using f' [THEN conjunct2, THEN conjunct1, rule_format, of q] that by (auto simp only: set_append Un_iff list.set insert_iff)
  have dis: "set ?D \<inter> set (?B k) = {}" "p \<notin> set ?D" "p \<notin> set (?B k)" "distinct (?B k)"
    using f' [THEN conjunct1] by (simp_all only: distinct_append set_append list.set Un_iff) blast+
  have e: "table (mem t) p k = table ?m p k" "child (mem t) p k = child ?m p k"
    using t(4) [of k] k by (simp_all add: child_def)
  have keep: "mem t a = ?m a" if "page a \<in> page ` set (?B k)" for a
  proof (rule t(3))
    obtain q where q: "q \<in> set (?B k)" "page a = page q" using \<open>page a \<in> _\<close> by auto
    have "page q \<noteq> page x" if "x \<in> set ?D \<union> {p}" for x
      using that q(1) dis(1,3) by (intro distinct_page good(1)) auto
    then show "page a \<notin> page ` set ?D" "page a \<noteq> page p" using q(2) by auto
  qed
  have sub: "table ?m p k AND (PTE_R OR PTE_W OR PTE_X) = 0 \<and> freeable n t (child ?m p k) (rev ?D @ xs)
      \<and> below n (mem t) p k = ?B k" if v: "valid_pte (table ?m p k)"
  proof -
    have b: "?B k = tables n ?m (child ?m p k)" using v by (simp add: below_def)
    have l: "leafless n ?m (child ?m p k)" "table ?m p k AND (PTE_R OR PTE_W OR PTE_X) = 0"
      using f k v by (auto simp: freeable_def)
    have "tables n (mem t) (child ?m p k) = tables n ?m (child ?m p k) \<and> leafless n (mem t) (child ?m p k)"
      by (rule tables_depend) (use keep b l in auto)
    then have c: "tables n (mem t) (child ?m p k) = ?B k" "leafless n (mem t) (child ?m p k)" using b by auto
    have "below n (mem t) p k = ?B k" using v c(1) by (simp add: below_def [of n "mem t"] e)
    moreover have "\<forall>q \<in> set (?B k). good_page q \<and> q \<notin> set (rev ?D @ xs)" using good dis(1) by auto
    ultimately show ?thesis using l(2) c dis(4) t(2) by (simp only: freeable_def c)
  qed
  have Bk: "below n (mem t) p k = ?B k" using sub e by (cases "valid_pte (table ?m p k)") (simp_all add: below_def)
  obtain u where u: "walk_entry n p k t = Inr ((), u)" "free_pages u (rev (?B k) @ rev ?D @ xs)"
    "\<And>a. page a \<notin> page ` set (?B k) \<Longrightarrow> page a \<noteq> page p \<Longrightarrow> mem u a = mem t a"
    "\<And>j. j < 512 \<Longrightarrow> j \<noteq> k \<Longrightarrow> table (mem u) p j = table (mem t) p j"
  proof -
    have "good_page p" "p \<notin> set (rev ?D @ xs)" using good [of p] dis by auto
    from walk_entry_spec [OF IH k this, where s = t, unfolded Bk e, OF _ dis(3) t(2)] sub
    show thesis using that by blast
  qed
  have "kfor (walk_entry n p) [0..<Suc k] s = Inr ((), u)"
    using t(1) u(1) by (simp add: kfor_append kbind_Inr kreturn_def)
  then show ?case using t(3,4) u by (intro exI [of _ u]) (simp add: image_Un)
qed

lemma free_walk_spec:
  "freeable n s p xs \<Longrightarrow> \<exists>t. free_walk n p s = Inr ((), t) \<and> freed (tables n (mem s) p) s xs t"
proof (induction n arbitrary: s p xs)
  case 0
  then show ?case by (simp add: freeable_def)
next
  case (Suc n)
  let ?D = "concat (map (below n (mem s) p) [0..<512])"
  have all: "tables (Suc n) (mem s) p = ?D @ [p]" by (rule tables_Suc)
  obtain t where t: "kfor (walk_entry n p) [0..<512] s = Inr ((), t)" "free_pages t (rev ?D @ xs)"
    "\<And>a. page a \<notin> page ` set ?D \<Longrightarrow> page a \<noteq> page p \<Longrightarrow> mem t a = mem s a"
    using walk_entries_spec [OF Suc.IH Suc.prems, of 512] by auto
  have "good_page p" "p \<notin> set (rev ?D @ xs)" using Suc.prems unfolding freeable_def all by auto
  then obtain u where "kfree p t = Inr ((), u)" "free_pages u (p # rev ?D @ xs)" "\<forall>a. page a \<noteq> page p \<longrightarrow> mem u a = mem t a"
    using pages.free_page [OF t(2)] by blast
  then show ?case using t(1,3) unfolding free_walk_Suc all by (intro exI [of _ u]) (auto simp: freed_def kbind_Inr)
qed

section \<open>Properties\<close>

text \<open>
  C13: \<open>free_walk\<close> ends.  On the root of a page table whose mappings have been removed, with its
  tables distinct pages that are not free, the recursion returns after at most \<open>LEVELS\<close> levels,
  puts every table on the free list exactly once, the root last, and changes no byte
  outside the tables.
\<close>

theorem free_walk_ends:
  assumes "leafless LEVELS (mem s) pt" and "distinct (tables LEVELS (mem s) pt)" and "free_pages s xs"
    and "\<forall>q \<in> set (tables LEVELS (mem s) pt). good_page q \<and> q \<notin> set xs"
  shows "\<exists>t. free_walk LEVELS pt s = Inr ((), t) \<and> free_pages t (rev (tables LEVELS (mem s) pt) @ xs)
    \<and> (\<forall>a. page a \<notin> page ` set (tables LEVELS (mem s) pt) \<longrightarrow> mem t a = mem s a)"
  using free_walk_spec [of LEVELS s pt xs] assms by (simp add: freeable_def freed_def)

text \<open>
  The sample: a root at \<open>0x80001000\<close> whose first entry leads to \<open>0x80002000\<close>, whose last entry
  leads to \<open>0x80003000\<close>.
\<close>

definition demo_tables :: memory where
  "demo_tables = store64 (store64 (\<lambda>_. 0) 0x80001000 (entry 0x80002000)) (0x80002000 + 8 * of_nat 511) (entry 0x80003000)"

lemma load_le_zero: "load_le n (\<lambda>_. 0) a = 0"
  by (induction n arbitrary: a) simp_all

lemma demo_table:
  assumes "j < 512"
  shows "table demo_tables 0x80001000 j = (if j = 0 then entry 0x80002000 else 0)"
    "table demo_tables 0x80002000 j = (if j = 511 then entry 0x80003000 else 0)"
    "table demo_tables 0x80003000 j = 0"
proof -
  let ?r = "0x80001000 :: u64" and ?a = "0x80002000 :: u64"
  have al: "aligned ?r" "aligned ?a" "aligned 0x80003000" by (simp_all add: aligned_def)
  have t: "table demo_tables q j = (if q = ?a \<and> j = 511 then entry 0x80003000
    else if q = ?r \<and> j = 0 then entry ?a else 0)" if q: "aligned q" for q
  proof -
    have z: "table (\<lambda>_. 0) q j = 0" by (simp add: table_def load64_def load_le_zero)
    have d: "demo_tables = store64 (store64 (\<lambda>_. 0) (?r + 8 * of_nat 0) (entry ?a)) (?a + 8 * of_nat 511) (entry 0x80003000)"
      by (simp add: demo_tables_def)
    show ?thesis unfolding d
      using table_store [OF al(2) q _ assms, of 511] table_store [OF al(1) q _ assms, of 0] z by auto
  qed
  show "table demo_tables ?r j = (if j = 0 then entry ?a else 0)"
    "table demo_tables ?a j = (if j = 511 then entry 0x80003000 else 0)" "table demo_tables 0x80003000 j = 0"
    using t [OF al(1)] t [OF al(2)] t [OF al(3)] by simp_all
qed

lemma concat_single:
  assumes "k < n" and "\<And>i. i < n \<Longrightarrow> i \<noteq> k \<Longrightarrow> f i = []"
  shows "concat (map f [0..<n]) = f k"
proof -
  have "concat (map f [0..<k]) = []" "concat (map f [Suc k..<n]) = []"
    using assms by (auto simp: concat_eq_Nil_conv)
  then show ?thesis unfolding upt_split [OF assms(1)] map_append concat_append list.map concat.simps by (simp only: append.simps append_Nil2)
qed

lemma entry_child: "aligned f \<Longrightarrow> unat f < 2 ^ 56 \<Longrightarrow> table m p i = entry f \<Longrightarrow> child m p i = f"
  by (simp add: child_def entry_pa)

lemma demo_tables_ok:
  "leafless LEVELS demo_tables 0x80001000" "tables LEVELS demo_tables 0x80001000 = [0x80003000, 0x80002000, 0x80001000]"
proof -
  let ?m = demo_tables and ?r = "0x80001000 :: u64" and ?a = "0x80002000 :: u64" and ?b = "0x80003000 :: u64"
  have al: "aligned ?r" "aligned ?a" "aligned ?b" by (simp_all add: aligned_def)
  have nl: "entry ?a AND (PTE_R OR PTE_W OR PTE_X) = 0" "entry ?b AND (PTE_R OR PTE_W OR PTE_X) = 0"
    by (simp_all add: entry_def PA2PTE_def PTE_V_def PTE_R_def PTE_W_def PTE_X_def)
  have c: "child ?m ?r 0 = ?a" "child ?m ?a 511 = ?b"
    using al demo_table(1) [of 0] demo_table(2) [of 511] by (auto intro!: entry_child)
  have l1: "leafless (Suc 0) ?m ?b" by (simp add: demo_table)
  have l2: "leafless (Suc (Suc 0)) ?m ?a" unfolding leafless.simps(2) [of "Suc 0"]
    using nl c l1 by (auto simp: demo_table simp del: leafless.simps)
  have "leafless (Suc (Suc (Suc 0))) ?m ?r" unfolding leafless.simps(2) [of "Suc (Suc 0)"]
    using nl c l2 by (auto simp: demo_table simp del: leafless.simps)
  then show "leafless LEVELS ?m ?r" by (simp add: LEVELS_def numeral_3_eq_3 del: leafless.simps)
  have s1: "tables (Suc 0) ?m ?b = [?b]" unfolding tables_Suc
    by (subst concat_single [of 0]) (simp_all add: below_def demo_table)
  have s2: "tables (Suc (Suc 0)) ?m ?a = [?b, ?a]" unfolding tables_Suc [of "Suc 0"]
    by (subst concat_single [of 511]) (simp_all add: below_def demo_table entry_valid c s1)
  have "tables (Suc (Suc (Suc 0))) ?m ?r = [?b, ?a, ?r]" unfolding tables_Suc [of "Suc (Suc 0)"]
    by (subst concat_single [of 0]) (simp_all add: below_def demo_table entry_valid c s2)
  then show "tables LEVELS ?m ?r = [?b, ?a, ?r]" by (simp add: LEVELS_def numeral_3_eq_3)
qed

theorem free_walk_ends_witness:
  "\<exists>t. free_walk LEVELS 0x80001000 \<lparr>mem = demo_tables, freelist = 0, kernel_pagetable = 0\<rparr> = Inr ((), t)
     \<and> free_pages t [0x80001000, 0x80002000, 0x80003000]"
  using free_walk_ends [of "\<lparr>mem = demo_tables, freelist = 0, kernel_pagetable = 0\<rparr>" "0x80001000" "[]"]
  by (auto simp: demo_tables_ok free_pages_def good_page_def aligned_def)

end
