(* ===== verification/Kstate.thy ===== *)
theory Kstate
  imports Log Pagetable Pipe
begin

text \<open>
  The state of the kernel that the file system, the file table, the processes and the system
  calls share: the structures of \<open>kernel/include/kernel/fs\<close>, \<open>kernel/file.h\<close> and
  \<open>kernel/proc.h\<close>.  A pointer into a static table is the index of the entry, \<open>nullptr\<close> is
  \<open>None\<close>; a pointer to memory from \<open>vm::kalloc\<close> is its address, \<open>nullptr\<close> is 0.  A trap frame
  lies in such a page and is accessed through the offsets of its fields.  The spin locks of
  these structures are not part of the state, since a critical section of a spin lock is one
  step.
\<close>

section \<open>The file system\<close>

definition FSMAGIC :: u32 where [layout_simps]: "FSMAGIC = 0x10203040"
definition NINODE :: nat where [layout_simps]: "NINODE = 50"
definition NDIRECT :: nat where [layout_simps]: "NDIRECT = 12"
definition NINDIRECT :: nat where [layout_simps]: "NINDIRECT = 256"
definition MAXFILE :: nat where [layout_simps]: "MAXFILE = NDIRECT + NINDIRECT"
definition IPB :: nat where [layout_simps]: "IPB = 8"
definition BPB :: nat where [layout_simps]: "BPB = 8192"
definition DIRSIZ :: nat where [layout_simps]: "DIRSIZ = 14"
definition ROOTINO :: u32 where [layout_simps]: "ROOTINO = 1"
definition T_DIR :: u16 where [layout_simps]: "T_DIR = 1"
definition T_FILE :: u16 where [layout_simps]: "T_FILE = 2"
definition T_DEVICE :: u16 where [layout_simps]: "T_DEVICE = 3"

record superblock =
  sb_magic :: u32
  sb_size :: u32
  sb_nblocks :: u32
  sb_ninodes :: u32
  sb_nlog :: u32
  sb_logstart :: u32
  sb_inodestart :: u32
  sb_bmapstart :: u32

record inode =
  i_dev :: u32
  i_inum :: u32
  i_ref :: int
  i_valid :: bool
  i_uid :: u32
  i_gid :: u32
  i_mask_user :: u8
  i_mask_group :: u8
  i_mask_other :: u8
  i_type :: u16
  i_major :: u16
  i_minor :: u16
  i_nlink :: u16
  i_size :: u32
  i_addrs :: "u32 list"
  i_lock :: sleeplock

section \<open>Open files\<close>

definition NOFILE :: nat where [layout_simps]: "NOFILE = 16"
definition NFILE :: nat where [layout_simps]: "NFILE = 100"
definition NDEV :: nat where [layout_simps]: "NDEV = 10"
definition MAXPATH :: nat where [layout_simps]: "MAXPATH = 128"
definition O_RDONLY :: u32 where [layout_simps]: "O_RDONLY = 0"
definition O_WRONLY :: u32 where [layout_simps]: "O_WRONLY = 1"
definition O_RDWR :: u32 where [layout_simps]: "O_RDWR = 2"
definition O_CREATE :: u32 where [layout_simps]: "O_CREATE = 0x200"
definition O_TRUNC :: u32 where [layout_simps]: "O_TRUNC = 0x400"

datatype ftype = FD_NONE | FD_PIPE | FD_INODE | FD_DEVICE

record file_ =
  f_type :: ftype
  f_ref :: int
  f_readable :: bool
  f_writable :: bool
  f_pipe :: u64
  f_ip :: "nat option"
  f_off :: u32
  f_major :: u16

section \<open>Processes\<close>

definition NCPU :: nat where [layout_simps]: "NCPU = 8"
definition ROOT_ID :: u32 where [layout_simps]: "ROOT_ID = 0"

datatype proc_status = UNUSED | USED | SLEEPING | RUNNABLE | RUNNING | ZOMBIE

text \<open>What a process can sleep on: a process (in \<open>wait\<close>), an end of a pipe, or another address.\<close>

datatype channel = ChProc nat | ChPipe u64 chan | ChAddr u64

record context_ =
  c_ra :: u64
  c_sp :: u64
  c_saved :: "u64 list"

record user =
  u_uid :: u32
  u_gid :: u32

record process =
  p_name :: bytes
  p_status :: proc_status
  p_pid :: u32
  p_chan :: "channel option"
  p_killed :: bool
  p_xstate :: u32
  p_user :: "nat option"
  p_parent :: "nat option"
  p_kernel_stack :: u64
  p_sz :: u64
  p_pagetable :: u64
  p_trapframe :: u64
  p_context :: context_
  p_ofile :: "nat option list"
  p_cwd :: "nat option"

text \<open>Offsets of the fields of \<open>struct trapframe\<close> and its size.\<close>

definition TF_kernel_satp :: u64 where "TF_kernel_satp = 0"
definition TF_kernel_sp :: u64 where "TF_kernel_sp = 8"
definition TF_kernel_trap :: u64 where "TF_kernel_trap = 16"
definition TF_epc :: u64 where "TF_epc = 24"
definition TF_kernel_hartid :: u64 where "TF_kernel_hartid = 32"
definition TF_sp :: u64 where "TF_sp = 48"
definition TF_a :: "nat \<Rightarrow> u64" where "TF_a i = 112 + 8 * of_nat i"
definition TF_SIZE :: u32 where "TF_SIZE = 288"

section \<open>The whole state\<close>

text \<open>
  \<open>kvm\<close> is the state of \<open>vm.cpp\<close>.  \<open>buf_at i\<close> is the address of the data of buffer \<open>i\<close>, \<open>loc_at\<close>
  that of the local variable which the running kernel function passes to a copy routine;
  both are fixed.  \<open>cur\<close> is the process that runs, and \<open>mypid\<close> of the buffer cache its number.
\<close>

record kstate = log_state +
  kvm :: vm_state
  buf_at :: "nat \<Rightarrow> u64"
  loc_at :: u64
  sb :: superblock
  itab :: "nat \<Rightarrow> inode"
  ftab :: "nat \<Rightarrow> file_"
  pipes :: "u64 \<Rightarrow> pipe"
  procs :: "nat \<Rightarrow> process"
  users :: "nat \<Rightarrow> user"
  cur :: nat
  init_proc :: "nat option"
  next_pid :: u32
  first_run :: bool

abbreviation curr_proc :: "kstate \<Rightarrow> process" where
  "curr_proc s \<equiv> procs s (cur s)"

definition on_vm :: "(vm_state, 'a) kop \<Rightarrow> (kstate, 'a) kop" where
  "on_vm m = (\<lambda>s. case m (kvm s) of Inl e \<Rightarrow> Inl e | Inr (a, v) \<Rightarrow> Inr (a, s\<lparr>kvm := v\<rparr>))"

definition upd_inode :: "nat \<Rightarrow> (inode \<Rightarrow> inode) \<Rightarrow> (kstate, unit) kop" where
  "upd_inode ip f = kmodify (\<lambda>s. s\<lparr>itab := (itab s)(ip := f (itab s ip))\<rparr>)"

definition upd_file :: "nat \<Rightarrow> (file_ \<Rightarrow> file_) \<Rightarrow> (kstate, unit) kop" where
  "upd_file k f = kmodify (\<lambda>s. s\<lparr>ftab := (ftab s)(k := f (ftab s k))\<rparr>)"

definition upd_proc :: "nat \<Rightarrow> (process \<Rightarrow> process) \<Rightarrow> (kstate, unit) kop" where
  "upd_proc k f = kmodify (\<lambda>s. s\<lparr>procs := (procs s)(k := f (procs s k))\<rparr>)"

text \<open>Bytes in memory, for the copies between memory and the data of a buffer or a local.\<close>

definition peek :: "memory \<Rightarrow> u64 \<Rightarrow> nat \<Rightarrow> bytes" where
  "peek m a n = map (\<lambda>i. m (a + of_nat i)) [0..<n]"

fun poke :: "memory \<Rightarrow> u64 \<Rightarrow> bytes \<Rightarrow> memory" where
  "poke m a [] = m"
| "poke m a (b # bs) = poke (m(a := b)) (a + 1) bs"

definition put_bytes :: "bytes \<Rightarrow> nat \<Rightarrow> bytes \<Rightarrow> bytes" where
  "put_bytes d off bs = take off d @ bs @ drop (off + length bs) d"

text \<open>
  Copies to and from a process or the kernel.  The result of a user copy is the \<open>bool\<close> of
  \<open>vm::copyout\<close> or \<open>vm::copyin\<close> converted to \<open>int\<close>.
\<close>

definition either_copyout :: "bool \<Rightarrow> u64 \<Rightarrow> u64 \<Rightarrow> u64 \<Rightarrow> (kstate, u32) kop" where
  "either_copyout user_dst dst src len = (\<lambda>s.
     if user_dst then
       kbind (on_vm (copyout (p_pagetable (curr_proc s)) dst src len)) (\<lambda>ok. kreturn (if ok then 1 else 0)) s
     else kthen (on_vm (set_mem (\<lambda>m. memmove m dst src (ucast len)))) (kreturn 0) s)"

definition either_copyin :: "u64 \<Rightarrow> bool \<Rightarrow> u64 \<Rightarrow> u64 \<Rightarrow> (kstate, u32) kop" where
  "either_copyin dst user_src src len = (\<lambda>s.
     if user_src then
       kbind (on_vm (copyin (p_pagetable (curr_proc s)) dst src len)) (\<lambda>ok. kreturn (if ok then 1 else 0)) s
     else kthen (on_vm (set_mem (\<lambda>m. memmove m dst src (ucast len)))) (kreturn 0) s)"

text \<open>
  \<open>with_buf i m\<close> runs \<open>m\<close> with the data of buffer \<open>i\<close> in memory, where it is during the whole
  run of the kernel, and takes it back from there.
\<close>

definition with_buf :: "nat \<Rightarrow> (kstate, 'a) kop \<Rightarrow> (kstate, 'a) kop" where
  "with_buf i m =
     kthen (\<lambda>s. on_vm (set_mem (\<lambda>x. poke x (buf_at s i) (buf.data (bufs s i)))) s)
     (kbind m (\<lambda>r.
       kthen (\<lambda>s. bmod i (\<lambda>_. peek (mem (kvm s)) (buf_at s i) BSIZE) s) (kreturn r)))"

text \<open>The local variable of \<open>n\<close> bytes whose address is passed to a copy.\<close>

definition get_local :: "nat \<Rightarrow> (kstate, bytes) kop" where
  "get_local n = kgets (\<lambda>s. peek (mem (kvm s)) (loc_at s) n)"

definition put_local :: "bytes \<Rightarrow> (kstate, unit) kop" where
  "put_local bs = (\<lambda>s. on_vm (set_mem (\<lambda>m. poke m (loc_at s) bs)) s)"

lemma length_peek [simp]: "length (peek m a n) = n" by (simp add: peek_def)

lemma length_put_bytes [simp]: "off + length bs \<le> length d \<Longrightarrow> length (put_bytes d off bs) = length d"
  by (simp add: put_bytes_def)

lemma poke_apply:
  "length bs < 2 ^ 64 \<Longrightarrow> poke m a bs b = (if unat (b - a) < length bs then bs ! unat (b - a) else m b)"
proof (induction bs arbitrary: m a)
  case (Cons c bs)
  have len: "length bs < 2 ^ 64 - 1" using Cons.prems by simp
  then have IH: "poke (m(a := c)) (a + 1) bs b
      = (if unat (b - (a + 1)) < length bs then bs ! unat (b - (a + 1)) else (m(a := c)) b)"
    by (intro Cons.IH) simp
  show ?case
  proof (cases "b = a")
    case True
    have "unat (- 1 :: u64) = 2 ^ 64 - 1" unfolding unat_eq_nat_uint uint_word_ariths by simp
    then have "unat (a - (a + 1)) = 2 ^ 64 - 1" by simp
    then show ?thesis using IH len True by simp
  next
    case False
    have "b - (a + 1) = b - a - 1" by (simp add: algebra_simps)
    then have "unat (b - (a + 1)) = unat (b - a) - 1" "0 < unat (b - a)"
      using False by (simp_all only: unat_minus_one right_minus_eq unat_gt_0 not_False_eq_True simp_thms)
    then show ?thesis using IH False by (auto simp: nth_Cons')
  qed
qed simp

lemma peek_poke: "length bs < 2 ^ 64 \<Longrightarrow> peek (poke m a bs) a (length bs) = bs"
  by (rule nth_equalityI) (simp_all add: peek_def poke_apply)

end
