(* ===== verification/Fs.thy ===== *)
theory Fs
  imports Kstate
begin

text \<open>
  The file system, \<open>kernel/fs.cpp\<close>: the free map, the inodes in the table and on disk, the
  contents of a file, directories and path names.  The blocks go through the buffer cache and
  the log.  The data of a buffer is also memory of the kernel, at \<open>buf_at\<close>; a copy between a
  buffer and a user page runs on that memory (\<open>with_buf\<close>).
\<close>

section \<open>Layout on disk\<close>

definition IBLOCK :: "u32 \<Rightarrow> superblock \<Rightarrow> u32" where
  "IBLOCK i b = i div of_nat IPB + sb_inodestart b"

definition BBLOCK :: "u32 \<Rightarrow> superblock \<Rightarrow> u32" where
  "BBLOCK b x = b div of_nat BPB + sb_bmapstart x"

definition supblock_of :: "bytes \<Rightarrow> superblock" where
  "supblock_of d = \<lparr>sb_magic = get_u32 d 0, sb_size = get_u32 d 4, sb_nblocks = get_u32 d 8,
     sb_ninodes = get_u32 d 12, sb_nlog = get_u32 d 16, sb_logstart = get_u32 d 20,
     sb_inodestart = get_u32 d 24, sb_bmapstart = get_u32 d 28\<rparr>"

text \<open>A \<open>struct dinode\<close> has 128 bytes; \<open>addrs\<close> begins at offset 24.\<close>

definition dinode_off :: "u32 \<Rightarrow> nat" where
  "dinode_off inum = 128 * unat (inum mod of_nat IPB)"

definition put_addrs :: "u32 list \<Rightarrow> nat \<Rightarrow> bytes \<Rightarrow> bytes" where
  "put_addrs as off d = fold (\<lambda>k d. put_u32 d (off + 4 * k) (as ! k)) [0..<NDIRECT + 1] d"

definition dinode_put :: "inode \<Rightarrow> nat \<Rightarrow> bytes \<Rightarrow> bytes" where
  "dinode_put ip o0 d =
     put_addrs (i_addrs ip) (o0 + 24)
       ((put_u32 (put_u32 (put_u32 (put_u16 (put_u16 (put_u16 (put_u16 d
          o0 (i_type ip)) (o0 + 2) (i_major ip)) (o0 + 4) (i_minor ip)) (o0 + 6) (i_nlink ip))
          (o0 + 8) (i_size ip)) (o0 + 12) (i_uid ip)) (o0 + 16) (i_gid ip))
        [o0 + 20 := i_mask_user ip, o0 + 21 := i_mask_group ip, o0 + 22 := i_mask_other ip])"

definition dinode_get :: "bytes \<Rightarrow> nat \<Rightarrow> inode \<Rightarrow> inode" where
  "dinode_get d o0 ip = ip\<lparr>
     i_type := get_u16 d o0, i_major := get_u16 d (o0 + 2), i_minor := get_u16 d (o0 + 4),
     i_nlink := get_u16 d (o0 + 6), i_size := get_u32 d (o0 + 8), i_uid := get_u32 d (o0 + 12),
     i_gid := get_u32 d (o0 + 16), i_mask_user := d ! (o0 + 20), i_mask_group := d ! (o0 + 21),
     i_mask_other := d ! (o0 + 22), i_addrs := map (\<lambda>k. get_u32 d (o0 + 24 + 4 * k)) [0..<NDIRECT + 1]\<rparr>"

section \<open>The super block and the free map\<close>

definition read_supblock :: "u32 \<Rightarrow> (kstate, unit) kop" where
  "read_supblock d = kbind (bread d 1) (\<lambda>b.
     kthen (kmodify (\<lambda>s. s\<lparr>sb := supblock_of (buf.data (bufs s b))\<rparr>)) (brelse b))"

definition fs_init :: "u32 \<Rightarrow> (kstate, unit) kop" where
  "fs_init d = kthen (read_supblock d) (\<lambda>s.
     if sb_magic (sb s) \<noteq> FSMAGIC then Inl (Panic ''fs::init: invalid file system'')
     else log_init d (sb_logstart (sb s)) (sb_nlog (sb s)) s)"

definition bzero :: "u32 \<Rightarrow> u32 \<Rightarrow> (kstate, unit) kop" where
  "bzero d bno = kbind (bread d bno) (\<lambda>bp.
     kthen (bmod bp (\<lambda>_. replicate BSIZE 0)) (kthen (lwrite bp) (brelse bp)))"

definition bit_mask :: "nat \<Rightarrow> u8" where
  "bit_mask bi = push_bit (bi mod 8) 1"

text \<open>The inner loop of \<open>balloc\<close>: the first bit that is clear below the end of the file system.\<close>

definition free_bit :: "u32 \<Rightarrow> u32 \<Rightarrow> bytes \<Rightarrow> nat option" where
  "free_bit b sz d =
     find (\<lambda>bi. d ! (bi div 8) AND bit_mask bi = 0) (takeWhile (\<lambda>bi. b + of_nat bi < sz) [0..<BPB])"

function balloc_loop :: "u32 \<Rightarrow> u32 \<Rightarrow> (kstate, u32) kop" where
  "balloc_loop d b s =
     (if b < sb_size (sb s) then
        kbind (bread d (BBLOCK b (sb s))) (\<lambda>bp s1.
          case free_bit b (sb_size (sb s)) (buf.data (bufs s1 bp)) of
            Some bi \<Rightarrow>
              kthen (bmod bp (\<lambda>x. x[bi div 8 := x ! (bi div 8) OR bit_mask bi]))
              (kthen (lwrite bp) (kthen (brelse bp) (kthen (bzero d (b + of_nat bi))
                 (kreturn (b + of_nat bi))))) s1
          | None \<Rightarrow> kthen (brelse bp) (\<lambda>s2.
              if b < b + of_nat BPB then balloc_loop d (b + of_nat BPB) s2 else Inl Diverges) s1) s
      else Inr (0, s))"
  by pat_completeness auto
termination
  by (relation "measure (\<lambda>(d, b, s). 2 ^ 32 - unat b)")
    (use unat_lt [where 'a = 32] in \<open>auto simp: word_less_nat_alt intro!: diff_less_mono2\<close>)

definition balloc :: "u32 \<Rightarrow> (kstate, u32) kop" where
  "balloc d = balloc_loop d 0"

definition bfree :: "u32 \<Rightarrow> u32 \<Rightarrow> (kstate, unit) kop" where
  "bfree d b = kbind (\<lambda>s. bread d (BBLOCK b (sb s)) s) (\<lambda>bp s.
     let bi = unat (b mod of_nat BPB); m = bit_mask bi in
     if buf.data (bufs s bp) ! (bi mod 8) AND m = 0 then Inl (Panic ''fs::bfree: it's free'')
     else kthen (bmod bp (\<lambda>x. x[bi div 8 := x ! (bi div 8) AND NOT m])) (kthen (lwrite bp) (brelse bp)) s)"

section \<open>Inodes\<close>

definition iget :: "u32 \<Rightarrow> u32 \<Rightarrow> (kstate, nat) kop" where
  "iget d inum = (\<lambda>s.
     case find (\<lambda>k. i_ref (itab s k) > 0 \<and> i_dev (itab s k) = d \<and> i_inum (itab s k) = inum) [0..<NINODE] of
       Some k \<Rightarrow> kthen (upd_inode k (\<lambda>i. i\<lparr>i_ref := i_ref i + 1\<rparr>)) (kreturn k) s
     | None \<Rightarrow> (case find (\<lambda>k. i_ref (itab s k) = 0) [0..<NINODE] of
           None \<Rightarrow> Inl (Panic ''fs::iget: no inode'')
         | Some k \<Rightarrow> kthen (upd_inode k (\<lambda>i. i\<lparr>i_dev := d, i_inum := inum, i_ref := 1, i_valid := False\<rparr>))
             (kreturn k) s))"

text \<open>The loop of \<open>ialloc\<close> over the inode numbers.\<close>

fun ialloc_loop :: "u32 \<Rightarrow> u16 \<Rightarrow> u32 list \<Rightarrow> (kstate, nat option) kop" where
  "ialloc_loop d type [] = kreturn None"
| "ialloc_loop d type (inum # inums) =
     kbind (\<lambda>s. bread d (IBLOCK inum (sb s)) s) (\<lambda>bp s.
       if get_u16 (buf.data (bufs s bp)) (dinode_off inum) = 0 then
         kthen (bmod bp (\<lambda>x. put_u16 (put_bytes x (dinode_off inum) (replicate 128 0)) (dinode_off inum) type))
         (kthen (lwrite bp) (kthen (brelse bp) (kbind (iget d inum) (\<lambda>k. kreturn (Some k))))) s
       else kthen (brelse bp) (ialloc_loop d type inums) s)"

definition ialloc :: "u32 \<Rightarrow> u16 \<Rightarrow> (kstate, nat option) kop" where
  "ialloc d type = (\<lambda>s. ialloc_loop d type (map of_nat [1..<unat (sb_ninodes (sb s))]) s)"

definition iupdate :: "nat \<Rightarrow> (kstate, unit) kop" where
  "iupdate ip = kbind (\<lambda>s. bread (i_dev (itab s ip)) (IBLOCK (i_inum (itab s ip)) (sb s)) s) (\<lambda>bp s.
     kthen (bmod bp (dinode_put (itab s ip) (dinode_off (i_inum (itab s ip)))))
       (kthen (lwrite bp) (brelse bp)) s)"

definition idup :: "nat option \<Rightarrow> (kstate, nat option) kop" where
  "idup ip = (case ip of None \<Rightarrow> kfail (Oob ''nullptr'')
     | Some k \<Rightarrow> kthen (upd_inode k (\<lambda>i. i\<lparr>i_ref := i_ref i + 1\<rparr>)) (kreturn (Some k)))"

definition lock_inode :: "nat \<Rightarrow> (kstate, unit) kop" where
  "lock_inode k = (\<lambda>s. case sleep_acquire (mypid s) (i_lock (itab s k)) of
       None \<Rightarrow> Inl (Sleeps ''inode.lock'')
     | Some l \<Rightarrow> upd_inode k (\<lambda>i. i\<lparr>i_lock := l\<rparr>) s)"

definition ilock :: "nat option \<Rightarrow> (kstate, unit) kop" where
  "ilock ip = (\<lambda>s. case ip of None \<Rightarrow> Inl (Panic ''fs::ilock'')
     | Some k \<Rightarrow>
       if i_ref (itab s k) < 1 then Inl (Panic ''fs::ilock'')
       else kthen (lock_inode k) (\<lambda>s.
         if i_valid (itab s k) then Inr ((), s)
         else kbind (bread (i_dev (itab s k)) (IBLOCK (i_inum (itab s k)) (sb s))) (\<lambda>bp s.
           kthen (upd_inode k (dinode_get (buf.data (bufs s bp)) (dinode_off (i_inum (itab s k)))))
           (kthen (brelse bp)
           (kthen (upd_inode k (\<lambda>i. i\<lparr>i_valid := True\<rparr>)) (\<lambda>s.
              if i_type (itab s k) = 0 then Inl (Panic ''fs::ilock: no type'') else Inr ((), s)))) s) s) s)"

definition iunlock :: "nat option \<Rightarrow> (kstate, unit) kop" where
  "iunlock ip = (\<lambda>s. case ip of None \<Rightarrow> Inl (Panic ''fs::iunlock'')
     | Some k \<Rightarrow>
       if \<not> sleep_holding (mypid s) (i_lock (itab s k)) \<or> i_ref (itab s k) < 1 then Inl (Panic ''fs::iunlock'')
       else upd_inode k (\<lambda>i. i\<lparr>i_lock := sleep_release (i_lock i)\<rparr>) s)"

definition set_addr :: "nat \<Rightarrow> nat \<Rightarrow> u32 \<Rightarrow> (kstate, unit) kop" where
  "set_addr ip k v = upd_inode ip (\<lambda>i. i\<lparr>i_addrs := (i_addrs i)[k := v]\<rparr>)"

definition trunc_one :: "nat \<Rightarrow> nat \<Rightarrow> (kstate, unit) kop" where
  "trunc_one ip k = (\<lambda>s. let a = i_addrs (itab s ip) ! k in
     kwhen (a \<noteq> 0) (kthen (bfree (i_dev (itab s ip)) a) (set_addr ip k 0)) s)"

definition itrunc :: "nat \<Rightarrow> (kstate, unit) kop" where
  "itrunc ip =
     kthen (kfor (trunc_one ip) [0..<NDIRECT])
     (kthen (\<lambda>s. let a = i_addrs (itab s ip) ! NDIRECT; d = i_dev (itab s ip) in
        kwhen (a \<noteq> 0) (kbind (bread d a) (\<lambda>bp.
          kthen (kfor (\<lambda>j s. kwhen (get_u32 (buf.data (bufs s bp)) (4 * j) \<noteq> 0) (bfree d a) s) [0..<NDIRECT])
          (kthen (brelse bp) (kthen (bfree d a) (set_addr ip NDIRECT 0))))) s)
     (kthen (upd_inode ip (\<lambda>i. i\<lparr>i_size := 0\<rparr>)) (iupdate ip)))"

definition iput :: "nat option \<Rightarrow> (kstate, unit) kop" where
  "iput ip = (case ip of None \<Rightarrow> kfail (Oob ''nullptr'')
     | Some k \<Rightarrow> kthen (\<lambda>s. kwhen (i_ref (itab s k) = 1 \<and> i_valid (itab s k) \<and> i_nlink (itab s k) = 0)
           (kthen (lock_inode k) (kthen (itrunc k)
            (kthen (upd_inode k (\<lambda>i. i\<lparr>i_type := 0\<rparr>)) (kthen (iupdate k)
            (kthen (upd_inode k (\<lambda>i. i\<lparr>i_valid := False\<rparr>))
              (upd_inode k (\<lambda>i. i\<lparr>i_lock := sleep_release (i_lock i)\<rparr>))))))) s)
         (upd_inode k (\<lambda>i. i\<lparr>i_ref := i_ref i - 1\<rparr>)))"

definition iunlockput :: "nat option \<Rightarrow> (kstate, unit) kop" where
  "iunlockput ip = kthen (iunlock ip) (iput ip)"

section \<open>The contents of a file\<close>

definition addr_of :: "nat \<Rightarrow> nat \<Rightarrow> (kstate, u32) kop" where
  "addr_of ip k = (\<lambda>s. if k < NDIRECT + 1 then Inr (i_addrs (itab s ip) ! k, s) else Inl (Oob ''inode.addrs''))"

definition bmap :: "nat \<Rightarrow> u32 \<Rightarrow> (kstate, u32) kop" where
  "bmap ip bn = (\<lambda>s. let d = i_dev (itab s ip) in
     if bn < of_nat NINDIRECT then
       kbind (addr_of ip (unat bn)) (\<lambda>addr.
         if addr = 0 then kbind (balloc d) (\<lambda>addr.
           if addr = 0 then kreturn 0
           else kthen (set_addr ip (unat bn) addr) (kreturn addr))
         else kreturn addr) s
     else let bn = bn - of_nat NDIRECT in
     if bn < of_nat NDIRECT then
       kbind (kbind (addr_of ip NDIRECT) (\<lambda>addr.
         if addr = 0 then kbind (balloc d) (\<lambda>addr.
           if addr = 0 then kreturn 0
           else kthen (set_addr ip NDIRECT addr) (kreturn addr))
         else kreturn addr)) (\<lambda>addr.
       if addr = 0 then kreturn 0
       else kbind (bread d addr) (\<lambda>bp.
         kbind (kbind (kgets (\<lambda>s. get_u32 (buf.data (bufs s bp)) (4 * unat bn))) (\<lambda>addr.
           if addr = 0 then kbind (balloc d) (\<lambda>addr.
             kthen (kwhen (addr \<noteq> 0) (kthen (bmod bp (\<lambda>x. put_u32 x (4 * unat bn) addr)) (lwrite bp)))
               (kreturn addr))
           else kreturn addr)) (\<lambda>addr.
         kthen (brelse bp) (kreturn addr)))) s
     else Inl (Panic ''fs::bmap: out of range''))"

text \<open>The bytes that one pass of the loops of \<open>readi\<close> and \<open>writei\<close> moves.\<close>

definition rw_count :: "u32 \<Rightarrow> u32 \<Rightarrow> u32 \<Rightarrow> u32" where
  "rw_count n tot off = min (n - tot) (of_nat BSIZE - off mod of_nat BSIZE)"

lemma rw_count_pos: "tot < n \<Longrightarrow> 0 < rw_count n tot off"
proof -
  assume "tot < n"
  then have "n - tot \<noteq> 0" by simp
  moreover have "off mod 1024 < 1024" by (simp add: word_less_nat_alt unat_mod)
  then have "(1024 :: u32) - off mod 1024 \<noteq> 0" by auto
  ultimately show ?thesis by (simp add: rw_count_def BSIZE_def min_def word_gt_0)
qed

lemma rw_count_step:
  assumes "tot < n"
  shows "unat (tot + rw_count n tot off) = unat tot + unat (rw_count n tot off)"
    and "tot + rw_count n tot off \<le> n"
proof -
  let ?m = "rw_count n tot off"
  have "?m \<le> n - tot" by (simp add: rw_count_def)
  then have "unat tot + unat ?m \<le> unat n"
    using assms by (simp add: word_le_nat_alt word_less_nat_alt unat_sub_if_size)
  then show "unat (tot + ?m) = unat tot + unat ?m" "tot + ?m \<le> n"
    using unat_lt [of n] by (simp_all add: unat_word_ariths word_le_nat_alt)
qed

lemma rw_count_measure: "tot < n \<Longrightarrow> unat n - unat (tot + rw_count n tot off) < unat n - unat tot"
  using rw_count_step [of tot n off] rw_count_pos [of tot n off]
  by (simp add: word_less_nat_alt word_le_nat_alt)

function readi_loop :: "nat \<Rightarrow> bool \<Rightarrow> u64 \<Rightarrow> u32 \<Rightarrow> u32 \<Rightarrow> u32 \<Rightarrow> (kstate, u32) kop" where
  "readi_loop ip user_dst dst off n tot s =
     (if tot < n then
        kbind (bmap ip (off div of_nat BSIZE)) (\<lambda>addr s.
          if addr = 0 then Inr (tot, s)
          else kbind (bread (i_dev (itab s ip)) addr) (\<lambda>bp s.
            kbind (with_buf bp (\<lambda>s. either_copyout user_dst dst
                (buf_at s bp + ucast (off mod of_nat BSIZE)) (ucast (rw_count n tot off)) s)) (\<lambda>r s.
              if r = - 1 then kthen (brelse bp) (kreturn (- 1)) s
              else kthen (brelse bp) (\<lambda>s.
                readi_loop ip user_dst (dst + ucast (rw_count n tot off)) (off + rw_count n tot off) n
                  (tot + rw_count n tot off) s) s) s) s) s
      else Inr (tot, s))"
  by pat_completeness auto
termination
  by (relation "measure (\<lambda>(ip, u, dst, off, n, tot, s). unat n - unat tot)") (simp_all add: rw_count_measure)

definition readi :: "nat \<Rightarrow> bool \<Rightarrow> u64 \<Rightarrow> u32 \<Rightarrow> u32 \<Rightarrow> (kstate, u32) kop" where
  "readi ip user_dst dst off n = (\<lambda>s. let sz = i_size (itab s ip) in
     if off > sz \<or> off + n < off then Inr (0, s)
     else readi_loop ip user_dst dst off (if off + n > sz then sz - off else n) 0 s)"

text \<open>The loop of \<open>writei\<close>; it returns \<open>offset\<close> and \<open>tot\<close>.\<close>

function writei_loop :: "nat \<Rightarrow> bool \<Rightarrow> u64 \<Rightarrow> u32 \<Rightarrow> u32 \<Rightarrow> u32 \<Rightarrow> (kstate, u32 \<times> u32) kop" where
  "writei_loop ip user_src src off n tot s =
     (if tot < n then
        kbind (bmap ip (off div of_nat BSIZE)) (\<lambda>addr s.
          if addr = 0 then Inr ((off, tot), s)
          else kbind (bread (i_dev (itab s ip)) addr) (\<lambda>bp s.
            kbind (with_buf bp (\<lambda>s. either_copyin (buf_at s bp + ucast (off mod of_nat BSIZE)) user_src src
                (ucast (rw_count n tot off)) s)) (\<lambda>r s.
              if r = - 1 then kthen (brelse bp) (kreturn (off, tot)) s
              else kthen (lwrite bp) (kthen (brelse bp) (\<lambda>s.
                writei_loop ip user_src (src + ucast (rw_count n tot off)) (off + rw_count n tot off) n
                  (tot + rw_count n tot off) s)) s) s) s) s
      else Inr ((off, tot), s))"
  by pat_completeness auto
termination
  by (relation "measure (\<lambda>(ip, u, src, off, n, tot, s). unat n - unat tot)") (simp_all add: rw_count_measure)

definition writei :: "nat \<Rightarrow> bool \<Rightarrow> u64 \<Rightarrow> u32 \<Rightarrow> u32 \<Rightarrow> (kstate, u32) kop" where
  "writei ip user_src src off n = (\<lambda>s.
     if off > i_size (itab s ip) \<or> off + n < off then Inr (- 1, s)
     else if off + n > of_nat (MAXFILE * BSIZE) then Inr (- 1, s)
     else kbind (writei_loop ip user_src src off n 0) (\<lambda>(off, tot).
       kthen (\<lambda>s. kwhen (off > i_size (itab s ip)) (upd_inode ip (\<lambda>i. i\<lparr>i_size := off\<rparr>)) s)
       (kthen (iupdate ip) (kreturn tot))) s)"

text \<open>The bytes of \<open>struct stat\<close> that \<open>stati\<close> fills in.\<close>

definition le_bytes :: "nat \<Rightarrow> u64 \<Rightarrow> bytes" where
  "le_bytes n v = map (\<lambda>i. ucast (drop_bit (8 * i) v)) [0..<n]"

definition stati :: "inode \<Rightarrow> bytes" where
  "stati ip = le_bytes 4 (ucast (i_dev ip)) @ le_bytes 4 (ucast (i_inum ip))
     @ le_bytes 2 (ucast (i_type ip)) @ le_bytes 2 (ucast (i_nlink ip)) @ [0, 0, 0, 0]
     @ le_bytes 8 (ucast (i_size ip)) @ le_bytes 4 (ucast (i_uid ip)) @ le_bytes 4 (ucast (i_gid ip))"

section \<open>Directories\<close>

text \<open>
  A C string in an array; \<open>namecmp\<close> is \<open>strncmp\<close> over \<open>DIRSIZ\<close> bytes, here on the contents of the two
  arrays: it is true when \<open>strncmp\<close> returns 0, as \<open>namecmp_strncmp\<close> shows.
\<close>

definition cstr :: "bytes \<Rightarrow> bytes" where
  "cstr bs = takeWhile (\<lambda>c. c \<noteq> 0) bs"

definition namecmp :: "bytes \<Rightarrow> bytes \<Rightarrow> bool" where
  "namecmp a b \<longleftrightarrow> cstr (take DIRSIZ a) = cstr (take DIRSIZ b)"

lemma namecmp_strncmp:
  "namecmp (peek m p DIRSIZ) (peek m q DIRSIZ) \<longleftrightarrow> strncmp m p q (of_nat DIRSIZ) = 0"
proof -
  have "cstr (take DIRSIZ (peek m p DIRSIZ)) = Cstring.cstr m p DIRSIZ" for p
    by (simp add: cstr_def Cstring.cstr_def peek_def)
  then show ?thesis by (simp add: namecmp_def strncmp_zero DIRSIZ_def)
qed

definition SIZEOF_DIRENT :: nat where "SIZEOF_DIRENT = 32"

definition de_inum :: "bytes \<Rightarrow> u16" where "de_inum de = get_u16 de 0"

definition de_name :: "bytes \<Rightarrow> bytes" where "de_name de = take DIRSIZ (drop 15 de)"

function dir_lookup_loop :: "nat \<Rightarrow> bytes \<Rightarrow> u32 \<Rightarrow> (kstate, (nat \<times> u32) option) kop" where
  "dir_lookup_loop dp name off s =
     (if off < i_size (itab s dp) then
        kbind (readi dp False (loc_at s) off (of_nat SIZEOF_DIRENT)) (\<lambda>r s.
          if r \<noteq> of_nat SIZEOF_DIRENT then Inl (Panic ''fs::dir_lookup: read error'')
          else kbind (get_local SIZEOF_DIRENT) (\<lambda>de s.
            if de_inum de \<noteq> 0 \<and> namecmp name (de_name de) then
              kbind (iget (i_dev (itab s dp)) (ucast (de_inum de))) (\<lambda>ip. kreturn (Some (ip, off))) s
            else if off < off + of_nat SIZEOF_DIRENT then
              dir_lookup_loop dp name (off + of_nat SIZEOF_DIRENT) s
            else Inl Diverges) s) s
      else Inr (None, s))"
  by pat_completeness auto
termination
  by (relation "measure (\<lambda>(dp, name, off, s). 2 ^ 32 - unat off)")
    (use unat_lt [where 'a = 32] in \<open>auto simp: word_less_nat_alt intro!: diff_less_mono2\<close>)

definition dir_lookup :: "nat \<Rightarrow> bytes \<Rightarrow> (kstate, (nat \<times> u32) option) kop" where
  "dir_lookup dp name = (\<lambda>s.
     if i_type (itab s dp) \<noteq> T_DIR then Inl (Panic ''fs::dir_lookup: it's not a dir'')
     else kthen (put_local (replicate SIZEOF_DIRENT 0)) (dir_lookup_loop dp name 0) s)"

text \<open>The search of \<open>dir_link\<close> for a free entry; the entry read last stays in the local.\<close>

function free_entry :: "nat \<Rightarrow> u32 \<Rightarrow> (kstate, u32) kop" where
  "free_entry dp off s =
     (if off < i_size (itab s dp) then
        kbind (readi dp False (loc_at s) off (of_nat SIZEOF_DIRENT)) (\<lambda>r s.
          if r \<noteq> of_nat SIZEOF_DIRENT then Inl (Panic ''fs::dir_link: read'')
          else kbind (get_local SIZEOF_DIRENT) (\<lambda>de s.
            if de_inum de = 0 then Inr (off, s)
            else if off < off + of_nat SIZEOF_DIRENT then free_entry dp (off + of_nat SIZEOF_DIRENT) s
            else Inl Diverges) s) s
      else Inr (off, s))"
  by pat_completeness auto
termination
  by (relation "measure (\<lambda>(dp, off, s). 2 ^ 32 - unat off)")
    (use unat_lt [where 'a = 32] in \<open>auto simp: word_less_nat_alt intro!: diff_less_mono2\<close>)

text \<open>
  \<open>strncpy\<close> into \<open>de.name\<close>.  With no terminator among the first \<open>DIRSIZ\<close> bytes it writes on after
  the array.
\<close>

definition set_name :: "bytes \<Rightarrow> bytes \<Rightarrow> fault + bytes" where
  "set_name name de =
     (if 0 \<in> set (take DIRSIZ name)
      then Inr (put_bytes de 15 (cstr name @ replicate (DIRSIZ - length (cstr name)) 0))
      else Inl (Oob ''dirent.name''))"

definition dir_write :: "nat \<Rightarrow> bytes \<Rightarrow> (kstate \<Rightarrow> bytes \<Rightarrow> bytes) \<Rightarrow> (kstate, u32) kop" where
  "dir_write dp name set_fields = kbind (dir_lookup dp name) (\<lambda>r. case r of
       Some (ip, _) \<Rightarrow> kthen (iput (Some ip)) (kreturn (- 1))
     | None \<Rightarrow> kthen (put_local (replicate SIZEOF_DIRENT 0)) (kbind (free_entry dp 0) (\<lambda>off.
         kbind (get_local SIZEOF_DIRENT) (\<lambda>de s. case set_name name de of
             Inl e \<Rightarrow> Inl e
           | Inr de \<Rightarrow> kthen (put_local (set_fields s de))
               (kbind (writei dp False (loc_at s) off (of_nat SIZEOF_DIRENT)) (\<lambda>r.
                  kreturn (if r \<noteq> of_nat SIZEOF_DIRENT then - 1 else 0))) s))))"

definition dir_link_ip :: "nat \<Rightarrow> bytes \<Rightarrow> nat \<Rightarrow> (kstate, u32) kop" where
  "dir_link_ip dp name other = dir_write dp name (\<lambda>s de. let o' = itab s other in
     (put_u32 (put_u32 (put_u16 de 0 (ucast (i_inum o'))) 4 (i_uid o')) 8 (i_gid o'))
       [12 := i_mask_user o', 13 := i_mask_group o', 14 := i_mask_other o'])"

definition dir_link :: "nat \<Rightarrow> bytes \<Rightarrow> u32 \<Rightarrow> (kstate, u32) kop" where
  "dir_link dp name inum = dir_write dp name (\<lambda>_ de. put_u16 de 0 (ucast inum))"

section \<open>Path names\<close>

definition SLASH :: u8 where "SLASH = 47"

definition skip_slashes :: "bytes \<Rightarrow> bytes" where
  "skip_slashes path = dropWhile (\<lambda>c. c = SLASH) path"

text \<open>
  A path is the bytes before the terminator, \<open>name\<close> the array of \<open>DIRSIZ\<close> bytes.  An element of
  exactly \<open>DIRSIZ\<close> bytes takes the second branch, which stores the terminator behind the array.
\<close>

definition skipelem :: "bytes \<Rightarrow> bytes \<Rightarrow> fault + (bytes \<times> bytes) option" where
  "skipelem path name =
     (let s = skip_slashes path in
      if s = [] then Inr None
      else let el = takeWhile (\<lambda>c. c \<noteq> SLASH) s; rest = skip_slashes (dropWhile (\<lambda>c. c \<noteq> SLASH) s) in
        if length el > DIRSIZ then Inr (Some (rest, take DIRSIZ el))
        else if length el = DIRSIZ then Inl (Oob ''name'')
        else Inr (Some (rest, el @ 0 # drop (length el + 1) name)))"

lemma skipelem_shorter: "skipelem path name = Inr (Some (rest, n)) \<Longrightarrow> length rest < length path"
proof -
  assume a: "skipelem path name = Inr (Some (rest, n))"
  define s where "s = skip_slashes path"
  have s: "s \<noteq> []" and rest: "rest = skip_slashes (dropWhile (\<lambda>c. c \<noteq> SLASH) s)"
    using a by (auto simp: skipelem_def s_def Let_def split: if_splits)
  have "hd s \<noteq> SLASH" using s hd_dropWhile [of "\<lambda>c. c = SLASH" path] by (simp add: s_def skip_slashes_def)
  then have "length (dropWhile (\<lambda>c. c \<noteq> SLASH) s) < length s"
    using s by (cases s) (simp_all add: length_dropWhile_le le_imp_less_Suc)
  moreover have "length rest \<le> length (dropWhile (\<lambda>c. c \<noteq> SLASH) s)" "length s \<le> length path"
    by (simp_all add: rest s_def skip_slashes_def length_dropWhile_le)
  ultimately show ?thesis by linarith
qed

text \<open>The loop of \<open>namex\<close>: the inode and the contents of \<open>name\<close>.\<close>

function namex_loop :: "bool \<Rightarrow> nat \<Rightarrow> bytes \<Rightarrow> bytes \<Rightarrow> (kstate, nat option \<times> bytes) kop" where
  "namex_loop nameiparent ip path name s = (case skipelem path name of
       Inl e \<Rightarrow> Inl e
     | Inr None \<Rightarrow>
         if nameiparent then kthen (iput (Some ip)) (kreturn (None, name)) s else Inr ((Some ip, name), s)
     | Inr (Some (path', name)) \<Rightarrow>
         kthen (ilock (Some ip)) (\<lambda>s.
           if i_type (itab s ip) \<noteq> T_DIR then kthen (iunlockput (Some ip)) (kreturn (None, name)) s
           else if nameiparent \<and> path' = [] then kthen (iunlock (Some ip)) (kreturn (Some ip, name)) s
           else kbind (dir_lookup ip name) (\<lambda>r s. case r of
               None \<Rightarrow> kthen (iunlockput (Some ip)) (kreturn (None, name)) s
             | Some (nxt, _) \<Rightarrow> kthen (iunlockput (Some ip)) (\<lambda>s.
                 namex_loop nameiparent nxt path' name s) s) s) s)"
  by pat_completeness auto
termination
  by (relation "measure (\<lambda>(b, ip, path, name, s). length path)") (auto dest: skipelem_shorter)

definition namex :: "bytes \<Rightarrow> bool \<Rightarrow> bytes \<Rightarrow> (kstate, nat option \<times> bytes) kop" where
  "namex path nameiparent name = (\<lambda>s.
     if path \<noteq> [] \<and> hd path = SLASH
     then kbind (iget ROOTDEV ROOTINO) (\<lambda>ip. namex_loop nameiparent ip path name) s
     else kbind (idup (p_cwd (curr_proc s))) (\<lambda>ip. namex_loop nameiparent (the ip) path name) s)"

definition namei :: "bytes \<Rightarrow> (kstate, nat option) kop" where
  "namei path = kbind (namex path False (replicate DIRSIZ 0)) (\<lambda>(ip, _). kreturn ip)"

definition nameiparent :: "bytes \<Rightarrow> bytes \<Rightarrow> (kstate, nat option \<times> bytes) kop" where
  "nameiparent path name = namex path True name"

end
