(* ===== verification/Proc.thy ===== *)
theory Proc
  imports Fs
begin

text \<open>
  The process table of \<open>kernel/proc.cpp\<close>: creation and removal of entries, their page tables,
  sleeping and waking, signals, and the scheduler as a step relation over the harts.  The part
  that needs the file table (\<open>fork\<close>, \<open>exit\<close>, \<open>wait\<close>) is in theory \<open>Lifecycle\<close>.  The linker
  symbol \<open>trampoline\<close>, the address of \<open>forkret\<close> and \<open>sizeof(struct process)\<close> are parameters.
\<close>

section \<open>The table\<close>

text \<open>The one \<open>struct user\<close> in use, \<open>root\<close>, has number 0.\<close>

definition root :: nat where "root = 0"

definition proc_init :: "int \<Rightarrow> (kstate, unit) kop" where
  "proc_init psize =
     kthen (kfor (\<lambda>i. upd_proc i (\<lambda>p. p\<lparr>p_status := UNUSED, p_kernel_stack := KSTACK (int i * psize)\<rparr>)) [0..<NPROC])
     (kmodify (\<lambda>s. s\<lparr>users := (users s)(root := \<lparr>u_uid = ROOT_ID, u_gid = ROOT_ID\<rparr>)\<rparr>))"

definition alloc_pid :: "(kstate, u32) kop" where
  "alloc_pid = (\<lambda>s. Inr (next_pid s, s\<lparr>next_pid := next_pid s + 1\<rparr>))"

definition alloc_pagetable :: "u64 \<Rightarrow> u64 \<Rightarrow> (vm_state, u64) kop" where
  "alloc_pagetable trampoline trapframe = kbind uvm_create (\<lambda>uvm.
     if uvm = 0 then kreturn 0
     else kbind (map_pages uvm TRAMPOLINE trampoline PG (ucast (PTE_R OR PTE_X))) (\<lambda>ok.
       if \<not> ok then kthen (uvm_free uvm 0) (kreturn 0)
       else kbind (map_pages uvm TRAPFRAME trapframe PG (ucast (PTE_R OR PTE_W))) (\<lambda>ok.
         if \<not> ok then kthen (uvm_unmap uvm TRAMPOLINE 1 False) (kthen (uvm_free uvm 0) (kreturn 0))
         else kreturn uvm)))"

definition free_pagetable :: "u64 \<Rightarrow> u64 \<Rightarrow> (vm_state, unit) kop" where
  "free_pagetable pagetable sz =
     kthen (uvm_unmap pagetable TRAMPOLINE 1 False)
     (kthen (uvm_unmap pagetable TRAPFRAME 1 False) (uvm_free pagetable sz))"

text \<open>The fields that \<open>proc::free\<close> clears; \<open>ofile\<close>, \<open>cwd\<close>, \<open>user\<close> and \<open>xstate\<close> stay.\<close>

definition cleared :: "process \<Rightarrow> process" where
  "cleared p = p\<lparr>p_trapframe := 0, p_pagetable := 0, p_sz := 0, p_pid := 0, p_parent := None,
     p_name := (p_name p)[0 := 0], p_chan := None, p_killed := False, p_status := UNUSED\<rparr>"

definition proc_free :: "nat \<Rightarrow> (kstate, unit) kop" where
  "proc_free i = (\<lambda>s. let p = procs s i in
     kthen (kwhen (p_trapframe p \<noteq> 0) (on_vm (kfree (p_trapframe p))))
     (kthen (kwhen (p_pagetable p \<noteq> 0) (on_vm (free_pagetable (p_pagetable p) (p_sz p))))
        (upd_proc i cleared)) s)"

definition alloc_proc :: "u64 \<Rightarrow> u64 \<Rightarrow> (kstate, nat option) kop" where
  "alloc_proc trampoline forkret = (\<lambda>s.
     case find (\<lambda>i. p_status (procs s i) = UNUSED) [0..<NPROC] of
       None \<Rightarrow> Inl (Panic ''proc::alloc: no proc'')
     | Some i \<Rightarrow>
         kbind alloc_pid (\<lambda>pid. kthen (upd_proc i (\<lambda>p. p\<lparr>p_pid := pid, p_status := USED\<rparr>))
         (kbind (on_vm kalloc) (\<lambda>r. case r of
             None \<Rightarrow> kthen (proc_free i) (kreturn None)
           | Some f \<Rightarrow> kthen (upd_proc i (\<lambda>p. p\<lparr>p_trapframe := f\<rparr>))
               (kbind (on_vm (alloc_pagetable trampoline f)) (\<lambda>pt.
                kthen (upd_proc i (\<lambda>p. p\<lparr>p_pagetable := pt\<rparr>))
                (if pt = 0 then kthen (proc_free i) (kreturn None)
                 else kthen (upd_proc i (\<lambda>p. p\<lparr>p_context := \<lparr>c_ra = forkret,
                        c_sp = p_kernel_stack p + PG, c_saved = replicate 12 0\<rparr>\<rparr>))
                   (kreturn (Some i)))))))) s)"

section \<open>Sleeping, waking and signals\<close>

definition fall_asleep :: "channel \<Rightarrow> process \<Rightarrow> process" where
  "fall_asleep ch p = p\<lparr>p_chan := Some ch, p_status := SLEEPING\<rparr>"

definition wake_one :: "channel option \<Rightarrow> process \<Rightarrow> process" where
  "wake_one ch p = (if p_status p = SLEEPING \<and> p_chan p = ch then p\<lparr>p_status := RUNNABLE\<rparr> else p)"

definition kill_one :: "process \<Rightarrow> process" where
  "kill_one p = (let p = p\<lparr>p_killed := True\<rparr> in
     if p_status p = SLEEPING then p\<lparr>p_status := RUNNABLE\<rparr> else p)"

definition wakeup :: "channel option \<Rightarrow> (kstate, unit) kop" where
  "wakeup ch = (\<lambda>s. kfor (\<lambda>i. kwhen (i \<noteq> cur s) (upd_proc i (wake_one ch))) [0..<NPROC] s)"

definition reparent :: "nat \<Rightarrow> (kstate, unit) kop" where
  "reparent k = kfor (\<lambda>i s. kwhen (p_parent (procs s i) = Some k)
     (kthen (upd_proc i (\<lambda>p. p\<lparr>p_parent := init_proc s\<rparr>)) (wakeup (map_option ChProc (init_proc s)))) s) [0..<NPROC]"

definition kill :: "u32 \<Rightarrow> (kstate, u32) kop" where
  "kill pid = (\<lambda>s. case find (\<lambda>i. p_pid (procs s i) = pid) [0..<NPROC] of
       None \<Rightarrow> Inr (- 1, s)
     | Some i \<Rightarrow> kthen (upd_proc i kill_one) (kreturn 0) s)"

definition set_killed :: "nat \<Rightarrow> (kstate, unit) kop" where
  "set_killed i = upd_proc i (\<lambda>p. p\<lparr>p_killed := True\<rparr>)"

definition get_killed :: "nat \<Rightarrow> kstate \<Rightarrow> bool" where
  "get_killed i s = p_killed (procs s i)"

definition grow :: "int \<Rightarrow> (kstate, u32) kop" where
  "grow n = (\<lambda>s. let p = curr_proc s; sz = p_sz p in
     if n > 0 then
       kbind (on_vm (uvm_alloc (p_pagetable p) sz (sz + of_int n) (ucast PTE_W))) (\<lambda>r.
         if r = 0 then kreturn (- 1)
         else kthen (upd_proc (cur s) (\<lambda>p. p\<lparr>p_sz := r\<rparr>)) (kreturn 0)) s
     else if n < 0 then
       kbind (on_vm (uvm_dealloc (p_pagetable p) sz (sz + of_int n))) (\<lambda>r.
         kthen (upd_proc (cur s) (\<lambda>p. p\<lparr>p_sz := r\<rparr>)) (kreturn 0)) s
     else kthen (upd_proc (cur s) (\<lambda>p. p\<lparr>p_sz := sz\<rparr>)) (kreturn 0) s)"

section \<open>Switching between processes\<close>

text \<open>The checks of \<open>sched\<close>, and the state of the hart when \<open>sleep\<close> and \<open>yield\<close> reach it.\<close>

definition sched :: "bool \<Rightarrow> cpu \<Rightarrow> fault option" where
  "sched held c =
     (if \<not> held then Some (Panic ''proc::sched: should hold lock'')
      else if noff c \<noteq> 1 then Some (Panic ''proc::sched: sched locks'')
      else if sie c then Some (Panic ''proc::sched: interruptible'')
      else None)"

definition sleep_sched :: "cpu \<Rightarrow> fault option" where
  "sleep_sched c = (case pop_off (push_off c) of Inl e \<Rightarrow> Some e | Inr c \<Rightarrow> sched True c)"

definition yield_sched :: "cpu \<Rightarrow> fault option" where
  "yield_sched c = sched True (push_off c)"

lemma sleep_sched_ok:
  assumes "cpu_ok c" "noff c = 1" shows "sleep_sched c = None"
  using assms by (simp add: sleep_sched_def pop_off_def push_off_def sched_def cpu_ok_def Let_def)

lemma yield_sched_ok: "noff c = 0 \<Longrightarrow> yield_sched c = None"
  by (simp add: yield_sched_def push_off_def sched_def)

text \<open>
  Where a hart is: in the scheduler outside of the loop's critical section, in it with the
  lock of an entry, just switched to a process that still holds its lock, running a process,
  in a process that has taken its lock and changed its status to leave, or back in the
  scheduler behind \<open>swtch\<close>.
\<close>

datatype hpc = Idle | Chosen nat | Entering nat | Running nat | Leaving nat | Back nat

record psys =
  ptab :: "nat \<Rightarrow> process"
  plock :: "nat \<Rightarrow> nat option"
  cproc :: "nat \<Rightarrow> nat option"
  hpcs :: "nat \<Rightarrow> hpc"

definition upd_ptab :: "nat \<Rightarrow> (process \<Rightarrow> process) \<Rightarrow> psys \<Rightarrow> psys" where
  "upd_ptab i f s = s\<lparr>ptab := (ptab s)(i := f (ptab s i))\<rparr>"

definition move :: "nat \<Rightarrow> hpc \<Rightarrow> nat \<Rightarrow> nat option \<Rightarrow> psys \<Rightarrow> psys" where
  "move c q i l s = s\<lparr>hpcs := (hpcs s)(c := q), plock := (plock s)(i := l)\<rparr>"

text \<open>
  \<open>choose\<close>, \<open>skip\<close>, \<open>run\<close> and \<open>returned\<close> are \<open>scheduler\<close>.  \<open>enter\<close> is the release of the entry's lock in
  \<open>forkret\<close> and \<open>yield\<close> behind the switch, and \<open>resume\<close> the one in \<open>sleep\<close>, which first resets
  \<open>chan\<close>.  \<open>yield\<close>, \<open>sleep\<close> and \<open>exit\<close> leave the hart.  The other rules change an
  entry whose lock they hold for one step: \<open>wakeup\<close>, \<open>kill\<close>, \<open>alloc_proc\<close>, the end of \<open>fork\<close>,
  and \<open>free\<close>, called for a zombie by \<open>wait\<close> and for a new entry on a failure.
\<close>

inductive psched_step :: "psys \<Rightarrow> psys \<Rightarrow> bool" where
  choose: "hpcs s c = Idle \<Longrightarrow> plock s i = None \<Longrightarrow> i < NPROC \<Longrightarrow> psched_step s (move c (Chosen i) i (Some c) s)"
| skip: "hpcs s c = Chosen i \<Longrightarrow> p_status (ptab s i) \<noteq> RUNNABLE \<Longrightarrow> psched_step s (move c Idle i None s)"
| run: "hpcs s c = Chosen i \<Longrightarrow> p_status (ptab s i) = RUNNABLE
    \<Longrightarrow> psched_step s (move c (Entering i) i (Some c)
          (upd_ptab i (\<lambda>p. p\<lparr>p_status := RUNNING\<rparr>) (s\<lparr>cproc := (cproc s)(c := Some i)\<rparr>)))"
| enter: "hpcs s c = Entering i \<Longrightarrow> p_chan (ptab s i) = None \<Longrightarrow> psched_step s (move c (Running i) i None s)"
| resume: "hpcs s c = Entering i \<Longrightarrow> p_chan (ptab s i) \<noteq> None
    \<Longrightarrow> psched_step s (move c (Running i) i None (upd_ptab i (\<lambda>p. p\<lparr>p_chan := None\<rparr>) s))"
| returned: "hpcs s c = Back i \<Longrightarrow> psched_step s (move c Idle i None (s\<lparr>cproc := (cproc s)(c := None)\<rparr>))"
| yield: "hpcs s c = Running i \<Longrightarrow> plock s i = None
    \<Longrightarrow> psched_step s (move c (Leaving i) i (Some c) (upd_ptab i (\<lambda>p. p\<lparr>p_status := RUNNABLE\<rparr>) s))"
| sleep: "hpcs s c = Running i \<Longrightarrow> plock s i = None
    \<Longrightarrow> psched_step s (move c (Leaving i) i (Some c) (upd_ptab i (fall_asleep ch) s))"
| exit: "hpcs s c = Running i \<Longrightarrow> plock s i = None
    \<Longrightarrow> psched_step s (move c (Leaving i) i (Some c)
          (upd_ptab i (\<lambda>p. p\<lparr>p_xstate := x, p_status := ZOMBIE\<rparr>) s))"
| swtch: "hpcs s c = Leaving i \<Longrightarrow> psched_step s (move c (Back i) i (Some c) s)"
| wakeup: "plock s i = None \<Longrightarrow> psched_step s (upd_ptab i (wake_one ch) s)"
| kill: "plock s i = None \<Longrightarrow> psched_step s (upd_ptab i kill_one s)"
| alloc: "plock s i = None \<Longrightarrow> p_status (ptab s i) = UNUSED
    \<Longrightarrow> psched_step s (upd_ptab i (\<lambda>p. p\<lparr>p_pid := pid, p_status := USED\<rparr>) s)"
| ready: "plock s i = None \<Longrightarrow> p_status (ptab s i) = USED
    \<Longrightarrow> psched_step s (upd_ptab i (\<lambda>p. p\<lparr>p_status := RUNNABLE\<rparr>) s)"
| free: "plock s i = None \<Longrightarrow> p_status (ptab s i) \<in> {USED, ZOMBIE} \<Longrightarrow> psched_step s (upd_ptab i cleared s)"

end
