(* ===== verification/File.thy ===== *)
theory File
  imports Proc
begin

text \<open>
  The table of open files, \<open>kernel/file.cpp\<close>, and the creation of pipes from
  \<open>kernel/pipe.cpp\<close>.  The functions that the drivers put into \<open>devsw\<close> are parameters: \<open>dread\<close> and
  \<open>dwrite\<close> give for a major number the function, or \<open>None\<close> for a null pointer.
\<close>

type_synonym dev_fn = "bool \<Rightarrow> u64 \<Rightarrow> u32 \<Rightarrow> (kstate, u32) kop"

definition major :: "u32 \<Rightarrow> u32" where "major d = drop_bit 16 d AND 0xFFFF"
definition minor :: "u32 \<Rightarrow> u32" where "minor d = d AND 0xFFFF"
definition mkdev :: "u32 \<Rightarrow> u32 \<Rightarrow> u32" where "mkdev m n = push_bit 16 m OR n"

definition file_alloc :: "(kstate, nat option) kop" where
  "file_alloc = (\<lambda>s. case find (\<lambda>k. f_ref (ftab s k) = 0) [0..<NFILE] of
       None \<Rightarrow> Inr (None, s)
     | Some k \<Rightarrow> kthen (upd_file k (\<lambda>f. f\<lparr>f_ref := 1\<rparr>)) (kreturn (Some k)) s)"

definition file_dup :: "nat \<Rightarrow> (kstate, nat) kop" where
  "file_dup k = (\<lambda>s. if f_ref (ftab s k) < 1 then Inl (Panic ''file::dup'')
     else kthen (upd_file k (\<lambda>f. f\<lparr>f_ref := f_ref f + 1\<rparr>)) (kreturn k) s)"

text \<open>\<open>pipeclose\<close> on the pipes of the state: its wakeups and the release of the page.\<close>

definition close_pipe :: "u64 \<Rightarrow> bool \<Rightarrow> (kstate, unit) kop" where
  "close_pipe a writable = (\<lambda>s. case pipeclose writable (pipes s a) of
     (pi, ws, free) \<Rightarrow>
       kthen (kmodify (\<lambda>s. s\<lparr>pipes := (pipes s)(a := pi)\<rparr>))
       (kthen (kfor (\<lambda>w. wakeup (Some (ChPipe a w))) ws) (kwhen free (on_vm (kfree a)))) s)"

definition file_close :: "nat \<Rightarrow> (kstate, unit) kop" where
  "file_close k = (\<lambda>s. let f = ftab s k in
     if f_ref f < 1 then Inl (Panic ''file::close'')
     else if f_ref f - 1 > 0 then upd_file k (\<lambda>f. f\<lparr>f_ref := f_ref f - 1\<rparr>) s
     else kthen (upd_file k (\<lambda>f. f\<lparr>f_ref := 0, f_type := FD_NONE\<rparr>))
       (case f_type f of
          FD_PIPE \<Rightarrow> close_pipe (f_pipe f) (f_writable f)
        | FD_NONE \<Rightarrow> kreturn ()
        | _ \<Rightarrow> kthen begin_op (kthen (iput (f_ip f)) end_op)) s)"

definition SIZEOF_STAT :: nat where "SIZEOF_STAT = 32"

definition file_stat :: "nat \<Rightarrow> u64 \<Rightarrow> (kstate, u32) kop" where
  "file_stat k addr = (\<lambda>s. let f = ftab s k in
     if f_type f = FD_INODE \<or> f_type f = FD_DEVICE then
       kthen (ilock (f_ip f))
       (kbind (kgets (\<lambda>s. stati (itab s (the (f_ip f))))) (\<lambda>st.
        kthen (iunlock (f_ip f))
        (kthen (put_local st)
        (kbind (\<lambda>s. on_vm (copyout (p_pagetable (curr_proc s)) addr (loc_at s) (of_nat SIZEOF_STAT)) s) (\<lambda>ok.
          kreturn (if ok then 0 else - 1)))))) s
     else Inr (- 1, s))"

text \<open>One byte to or from the running process, through the local \<open>ch\<close>.\<close>

definition out_byte :: "u64 \<Rightarrow> u8 \<Rightarrow> (kstate, bool) kop" where
  "out_byte addr ch = kthen (put_local [ch])
     (\<lambda>s. on_vm (copyout (p_pagetable (curr_proc s)) addr (loc_at s) 1) s)"

definition in_byte :: "u64 \<Rightarrow> (kstate, u8 option) kop" where
  "in_byte addr = kbind (\<lambda>s. on_vm (copyin (p_pagetable (curr_proc s)) (loc_at s) addr 1) s) (\<lambda>ok s.
     Inr (if ok then Some (mem (kvm s) (loc_at s)) else None, s))"

text \<open>\<open>piperead\<close> and \<open>pipewrite\<close> up to their return; a \<open>proc::sleep\<close> is a \<open>Sleeps\<close> fault.\<close>

definition read_pipe :: "u64 \<Rightarrow> u64 \<Rightarrow> int \<Rightarrow> (kstate, u32) kop" where
  "read_pipe a addr n = (\<lambda>s.
     case piperead (\<lambda>x. case out_byte x 0 s of Inr (ok, _) \<Rightarrow> ok | Inl _ \<Rightarrow> False) (get_killed (cur s) s) addr n (pipes s a) of
       (SleepsOn _ _, _, _, _) \<Rightarrow> Inl (Sleeps ''pipe.nread'')
     | (Returns r, ws, bs, pi) \<Rightarrow>
         kthen (kfor (\<lambda>i. kbind (out_byte (addr + of_nat i) (bs ! i)) (\<lambda>_. kreturn ())) [0..<length bs])
         (kthen (kmodify (\<lambda>s. s\<lparr>pipes := (pipes s)(a := pi)\<rparr>))
         (kthen (kfor (\<lambda>w. wakeup (Some (ChPipe a w))) ws) (kreturn r))) s)"

definition write_pipe :: "u64 \<Rightarrow> u64 \<Rightarrow> int \<Rightarrow> (kstate, u32) kop" where
  "write_pipe a addr n = (\<lambda>s.
     case pipewrite (\<lambda>x. case in_byte x s of Inr (r, _) \<Rightarrow> r | Inl _ \<Rightarrow> None) (\<lambda>_. get_killed (cur s) s)
         addr n 0 (pipes s a) of
       (SleepsOn _ _, _, _) \<Rightarrow> Inl (Sleeps ''pipe.nwrite'')
     | (Returns r, ws, pi) \<Rightarrow>
         kthen (kmodify (\<lambda>s. s\<lparr>pipes := (pipes s)(a := pi)\<rparr>))
         (kthen (kfor (\<lambda>w. wakeup (Some (ChPipe a w))) ws) (kreturn r)) s)"

definition dev_entry :: "(nat \<Rightarrow> dev_fn option) \<Rightarrow> u16 \<Rightarrow> dev_fn option" where
  "dev_entry dtab m = (if sint m < 0 \<or> sint m \<ge> int NDEV then None else dtab (nat (sint m)))"

definition file_read :: "(nat \<Rightarrow> dev_fn option) \<Rightarrow> nat \<Rightarrow> u64 \<Rightarrow> u32 \<Rightarrow> (kstate, u32) kop" where
  "file_read dread k addr n = (\<lambda>s. let f = ftab s k in
     if \<not> f_readable f then Inr (- 1, s)
     else case f_type f of
       FD_PIPE \<Rightarrow> read_pipe (f_pipe f) addr (sint n) s
     | FD_DEVICE \<Rightarrow> (case dev_entry dread (f_major f) of
           None \<Rightarrow> Inr (- 1, s)
         | Some rd \<Rightarrow> rd True addr n s)
     | FD_INODE \<Rightarrow>
         kthen (ilock (f_ip f))
         (kbind (readi (the (f_ip f)) True addr (f_off f) n) (\<lambda>rs.
          kthen (kwhen (sint rs > 0) (upd_file k (\<lambda>f. f\<lparr>f_off := f_off f + rs\<rparr>)))
          (kthen (iunlock (f_ip f)) (kreturn rs)))) s
     | FD_NONE \<Rightarrow> Inl (Panic ''file::read''))"

text \<open>The most that one transaction of \<open>write\<close> copies: \<open>((MAXOPBLOCKS - 1 - 1 - 2) / 2) * BSIZE\<close>.\<close>

definition WRITE_MAX :: int where "WRITE_MAX = (10 - 1 - 1 - 2) div 2 * 1024"

function file_write_loop :: "nat \<Rightarrow> u64 \<Rightarrow> int \<Rightarrow> int \<Rightarrow> (kstate, int) kop" where
  "file_write_loop k addr n i s =
     (if i < n then
        let n1 = min (n - i) WRITE_MAX; ip = f_ip (ftab s k) in
        kthen begin_op (kthen (ilock ip)
          (kbind (\<lambda>s. writei (the ip) True (addr + of_int i) (f_off (ftab s k)) (of_int n1) s) (\<lambda>r.
           kthen (kwhen (sint r > 0) (upd_file k (\<lambda>f. f\<lparr>f_off := f_off f + r\<rparr>)))
           (kthen (iunlock ip)
           (kthen end_op (\<lambda>s.
             if sint r \<noteq> n1 then Inr (i, s) else file_write_loop k addr n (i + n1) s)))))) s
      else Inr (i, s))"
  by pat_completeness auto
termination
  by (relation "measure (\<lambda>(k, addr, n, i, s). nat (n - i))") (auto simp: WRITE_MAX_def)

definition file_write :: "(nat \<Rightarrow> dev_fn option) \<Rightarrow> nat \<Rightarrow> u64 \<Rightarrow> u32 \<Rightarrow> (kstate, u32) kop" where
  "file_write dwrite k addr n = (\<lambda>s. let f = ftab s k in
     if \<not> f_writable f then Inr (- 1, s)
     else case f_type f of
       FD_PIPE \<Rightarrow> write_pipe (f_pipe f) addr (sint n) s
     | FD_DEVICE \<Rightarrow> (case dev_entry dwrite (f_major f) of
           None \<Rightarrow> Inr (- 1, s)
         | Some wr \<Rightarrow> wr True addr n s)
     | FD_INODE \<Rightarrow> kbind (file_write_loop k addr (sint n) 0) (\<lambda>i.
         kreturn (if i = sint n then n else - 1)) s
     | FD_NONE \<Rightarrow> Inl (Panic ''filewrite''))"

text \<open>
  \<open>pipealloc\<close> takes an entry of the file table for the pipe itself.  A \<open>struct pipe\<close> does not fit
  into a \<open>struct file\<close>: storing its counters and flags, which follow 512 bytes of data, is a
  write outside of the object.
\<close>

definition close_if :: "nat option \<Rightarrow> (kstate, unit) kop" where
  "close_if f = (case f of None \<Rightarrow> kreturn () | Some k \<Rightarrow> file_close k)"

definition pipealloc :: "(kstate, (nat \<times> nat) option) kop" where
  "pipealloc = kbind file_alloc (\<lambda>f0. case f0 of
       None \<Rightarrow> kreturn None
     | Some _ \<Rightarrow> kbind file_alloc (\<lambda>f1. case f1 of
           None \<Rightarrow> kthen (close_if f0) (kreturn None)
         | Some _ \<Rightarrow> kbind file_alloc (\<lambda>pi. case pi of
               None \<Rightarrow> kthen (close_if f0) (kthen (close_if f1) (kreturn None))
             | Some _ \<Rightarrow> kfail (Oob ''struct pipe''))))"

end
