(* ===== verification/Lifecycle.thy ===== *)
theory Lifecycle
  imports File
begin

text \<open>
  Processes from the first one to their end: \<open>user_init\<close>, \<open>forkret\<close>, \<open>fork\<close>, \<open>exit\<close> and \<open>wait\<close> of
  \<open>kernel/proc.cpp\<close>.
\<close>

definition initcode :: bytes where
  "initcode =
    [0x17, 0x05, 0x00, 0x00, 0x13, 0x05, 0x45, 0x02,
     0x97, 0x05, 0x00, 0x00, 0x93, 0x85, 0x85, 0x02,
     0x93, 0x08, 0x60, 0x00, 0x73, 0x00, 0x00, 0x00,
     0x93, 0x08, 0x10, 0x00, 0x73, 0x00, 0x00, 0x00,
     0xef, 0xf0, 0x9f, 0xff, 0x2f, 0x62, 0x69, 0x6e,
     0x2f, 0x69, 0x6e, 0x69, 0x74, 0x00, 0x00, 0x00,
     0x24, 0x00, 0x00, 0x00, 0x00, 0x00, 0x00, 0x00,
     0x00, 0x00, 0x00, 0x00, 0x00, 0x00, 0x00, 0x00]"

definition NAMELEN :: nat where "NAMELEN = 32"

text \<open>\<open>strncpy(p->name, src, sizeof(p->name))\<close>, with \<open>src\<close> the bytes from the source on.\<close>

definition set_pname :: "nat \<Rightarrow> bytes \<Rightarrow> (kstate, unit) kop" where
  "set_pname i src =
     (if 0 \<in> set (take NAMELEN src)
      then upd_proc i (\<lambda>p. p\<lparr>p_name := cstr src @ replicate (NAMELEN - length (cstr src)) 0\<rparr>)
      else kfail (Oob ''process.name''))"

definition set_tf :: "u64 \<Rightarrow> u64 \<Rightarrow> u64 \<Rightarrow> (kstate, unit) kop" where
  "set_tf frame off v = on_vm (set_mem (\<lambda>m. store64 m (frame + off) v))"

definition get_tf :: "u64 \<Rightarrow> u64 \<Rightarrow> kstate \<Rightarrow> u64" where
  "get_tf frame off s = load64 (mem (kvm s)) (frame + off)"

text \<open>\<open>"initcode"\<close> with its terminator, and the path \<open>"/"\<close>.\<close>

definition user_init :: "u64 \<Rightarrow> u64 \<Rightarrow> (kstate, unit) kop" where
  "user_init trampoline fret = kbind (alloc_proc trampoline fret) (\<lambda>r.
     kthen (kmodify (\<lambda>s. s\<lparr>init_proc := r\<rparr>))
     (case r of None \<Rightarrow> kfail (Oob ''nullptr'')
      | Some i \<Rightarrow>
          kthen (put_local initcode)
          (kthen (\<lambda>s. on_vm (uvm_first (p_pagetable (procs s i)) (loc_at s) (of_nat (length initcode))) s)
          (kthen (upd_proc i (\<lambda>p. p\<lparr>p_sz := PG\<rparr>))
          (kthen (\<lambda>s. set_tf (p_trapframe (procs s i)) TF_epc 0 s)
          (kthen (\<lambda>s. set_tf (p_trapframe (procs s i)) TF_sp PG s)
          (kthen (upd_proc i (\<lambda>p. p\<lparr>p_user := Some root\<rparr>))
          (kthen (set_pname i [105, 110, 105, 116, 99, 111, 100, 101, 0])
          (kbind (namei [SLASH]) (\<lambda>ip.
           upd_proc i (\<lambda>p. p\<lparr>p_cwd := ip, p_status := RUNNABLE\<rparr>))))))))))) "

text \<open>\<open>forkret\<close> before \<open>trap::user_ret\<close>: the first process initialises the file system.\<close>

definition forkret :: "(kstate, unit) kop" where
  "forkret = (\<lambda>s. kwhen (first_run s) (kthen (fs_init 1) (kmodify (\<lambda>s. s\<lparr>first_run := False\<rparr>))) s)"

text \<open>The open files of the parent are shared by the child.\<close>

definition dup_one :: "nat \<Rightarrow> nat \<Rightarrow> nat \<Rightarrow> (kstate, unit) kop" where
  "dup_one p np i = (\<lambda>s. case p_ofile (procs s p) ! i of
       None \<Rightarrow> Inr ((), s)
     | Some f \<Rightarrow> kbind (file_dup f) (\<lambda>f. upd_proc np (\<lambda>q. q\<lparr>p_ofile := (p_ofile q)[i := Some f]\<rparr>)) s)"

definition fork :: "u64 \<Rightarrow> u64 \<Rightarrow> (kstate, u32) kop" where
  "fork trampoline fret = kbind (alloc_proc trampoline fret) (\<lambda>r. case r of
       None \<Rightarrow> kreturn (- 1)
     | Some np \<Rightarrow> \<lambda>s. let p = cur s in
         kbind (on_vm (uvm_copy (p_pagetable (procs s p)) (p_pagetable (procs s np)) (p_sz (procs s p)))) (\<lambda>ok.
           if \<not> ok then kthen (proc_free np) (kreturn (- 1))
           else
             kthen (\<lambda>s. upd_proc np (\<lambda>q. q\<lparr>p_sz := p_sz (procs s p)\<rparr>) s)
             (kthen (\<lambda>s. on_vm (set_mem (\<lambda>m. memmove m (p_trapframe (procs s np)) (p_trapframe (procs s p)) TF_SIZE)) s)
             (kthen (\<lambda>s. set_tf (p_trapframe (procs s np)) (TF_a 0) 0 s)
             (kthen (\<lambda>s. upd_proc np (\<lambda>q. q\<lparr>p_user := p_user (procs s p)\<rparr>) s)
             (kthen (kfor (dup_one p np) [0..<NOFILE])
             (kbind (\<lambda>s. idup (p_cwd (procs s p)) s) (\<lambda>ip.
              kthen (upd_proc np (\<lambda>q. q\<lparr>p_cwd := ip\<rparr>))
             (kthen (\<lambda>s. set_pname np (p_name (procs s p)) s)
             (kbind (kgets (\<lambda>s. p_pid (procs s np))) (\<lambda>rs.
              kthen (upd_proc np (\<lambda>q. q\<lparr>p_parent := Some p\<rparr>))
             (kthen (upd_proc np (\<lambda>q. q\<lparr>p_status := RUNNABLE\<rparr>)) (kreturn rs)))))))))))) s)"

definition close_one :: "nat \<Rightarrow> nat \<Rightarrow> (kstate, unit) kop" where
  "close_one p fd = (\<lambda>s. case p_ofile (procs s p) ! fd of
       None \<Rightarrow> Inr ((), s)
     | Some f \<Rightarrow> kthen (file_close f) (upd_proc p (\<lambda>q. q\<lparr>p_ofile := (p_ofile q)[fd := None]\<rparr>)) s)"

text \<open>\<open>exit\<close> up to \<open>sched\<close>, from which it does not come back.\<close>

definition proc_exit :: "u32 \<Rightarrow> (kstate, unit) kop" where
  "proc_exit status = (\<lambda>s. let p = cur s in
     if init_proc s = Some p then Inl (Panic ''proc::exit: init exiting'')
     else kthen (kfor (close_one p) [0..<NOFILE])
       (kthen begin_op (kthen (\<lambda>s. iput (p_cwd (procs s p)) s) (kthen end_op
       (kthen (upd_proc p (\<lambda>q. q\<lparr>p_cwd := None\<rparr>))
       (kthen (reparent p)
       (kthen (\<lambda>s. wakeup (map_option ChProc (p_parent (procs s p))) s)
         (upd_proc p (\<lambda>q. q\<lparr>p_xstate := status, p_status := ZOMBIE\<rparr>)))))))) s)"

text \<open>
  One turn of the loop of \<open>wait\<close>, under \<open>wait_lock\<close>: the result, or \<open>None\<close> when the process has gone
  to sleep on its own entry.
\<close>

definition wait_turn :: "u64 \<Rightarrow> (kstate, u32 option) kop" where
  "wait_turn addr = (\<lambda>s. let p = cur s; kids = filter (\<lambda>i. p_parent (procs s i) = Some p) [0..<NPROC] in
     case find (\<lambda>i. p_status (procs s i) = ZOMBIE) kids of
       Some i \<Rightarrow> let pid = p_pid (procs s i) in
         kbind (if addr \<noteq> 0
                then kthen (put_local (le_bytes 4 (ucast (p_xstate (procs s i)))))
                  (\<lambda>s. on_vm (copyout (p_pagetable (procs s p)) addr (loc_at s) 4) s)
                else kreturn True) (\<lambda>ok.
           if \<not> ok then kreturn (Some (- 1))
           else kthen (proc_free i) (kreturn (Some pid))) s
     | None \<Rightarrow>
         if kids = [] \<or> get_killed p s then Inr (Some (- 1), s)
         else kthen (upd_proc p (fall_asleep (ChProc p))) (kreturn None) s)"

definition wait :: "u64 \<Rightarrow> (kstate, u32) kop" where
  "wait addr = kbind (wait_turn addr) (\<lambda>r. case r of
       None \<Rightarrow> kfail (Sleeps ''wait'')
     | Some v \<Rightarrow> kreturn v)"

end
