(* ===== verification/Loader.thy ===== *)
theory Loader
  imports Lifecycle
begin

text \<open>
  \<open>kernel/loader.cpp\<close> and \<open>kernel/elf.h\<close>: replacing the image of a process by an ELF file.  The
  headers are read into locals and decoded from their bytes.
\<close>

definition ELF_MAGIC :: u32 where "ELF_MAGIC = 0x464C457F"
definition ELF_PROG_LOAD :: u32 where "ELF_PROG_LOAD = 1"
definition MAXARGV :: nat where "MAXARGV = 32"
definition USERSTACK :: u64 where "USERSTACK = 1"

record elfhdr =
  e_magic :: u32
  e_entry :: u64
  e_phoff :: u64
  e_phnum :: u16

record proghdr =
  ph_type :: u32
  ph_flags :: u32
  ph_off :: u64
  ph_vaddr :: u64
  ph_filesz :: u64
  ph_memsz :: u64

definition get_u64 :: "bytes \<Rightarrow> nat \<Rightarrow> u64" where
  "get_u64 bs off = ucast (get_u32 bs off) OR push_bit 32 (ucast (get_u32 bs (off + 4)))"

definition SIZEOF_ELFHDR :: nat where "SIZEOF_ELFHDR = 64"
definition SIZEOF_PROGHDR :: nat where "SIZEOF_PROGHDR = 56"

definition elfhdr_of :: "bytes \<Rightarrow> elfhdr" where
  "elfhdr_of d = \<lparr>e_magic = get_u32 d 0, e_entry = get_u64 d 24, e_phoff = get_u64 d 32, e_phnum = get_u16 d 56\<rparr>"

definition proghdr_of :: "bytes \<Rightarrow> proghdr" where
  "proghdr_of d = \<lparr>ph_type = get_u32 d 0, ph_flags = get_u32 d 4, ph_off = get_u64 d 8,
     ph_vaddr = get_u64 d 16, ph_filesz = get_u64 d 32, ph_memsz = get_u64 d 40\<rparr>"

text \<open>The loop over the pages of a segment; \<open>i += PGSIZE\<close> can wrap only when \<open>sz\<close> is almost \<open>2 ^ 32\<close>.\<close>

function loadseg_loop :: "u64 \<Rightarrow> u64 \<Rightarrow> nat \<Rightarrow> u32 \<Rightarrow> u32 \<Rightarrow> u32 \<Rightarrow> (kstate, bool) kop" where
  "loadseg_loop pagetable va ip offset sz i s =
     (if i < sz then
        kbind (on_vm (walkaddr pagetable (va + ucast i))) (\<lambda>pa s.
          if pa = 0 then Inl (Panic ''loadseg: address should exist'')
          else kbind (readi ip False pa (offset + i) (min (sz - i) PGSIZE)) (\<lambda>r s.
            if r \<noteq> min (sz - i) PGSIZE then Inr (False, s)
            else if i < i + PGSIZE then loadseg_loop pagetable va ip offset sz (i + PGSIZE) s
            else Inl Diverges) s) s
      else Inr (True, s))"
  by pat_completeness auto
termination
  by (relation "measure (\<lambda>(pt, va, ip, offset, sz, i, s). 2 ^ 32 - unat i)")
    (use unat_lt [where 'a = 32] in \<open>auto simp: word_less_nat_alt intro!: diff_less_mono2\<close>)

definition loadseg :: "u64 \<Rightarrow> u64 \<Rightarrow> nat \<Rightarrow> u32 \<Rightarrow> u32 \<Rightarrow> (kstate, bool) kop" where
  "loadseg pagetable va ip offset sz = loadseg_loop pagetable va ip offset sz 0"

definition flags2perm :: "u32 \<Rightarrow> u32" where
  "flags2perm flags =
     (let perm = if flags AND 1 \<noteq> 0 then ucast PTE_X else 0
      in if flags AND 2 \<noteq> 0 then perm OR ucast PTE_W else perm)"

definition fail_work :: "u64 \<Rightarrow> nat option \<Rightarrow> u64 \<Rightarrow> (kstate, unit) kop" where
  "fail_work pagetable ip sz =
     kthen (kwhen (pagetable \<noteq> 0) (on_vm (free_pagetable pagetable sz)))
       (kwhen (ip \<noteq> None) (kthen (iunlockput ip) end_op))"

text \<open>
  The body of the loop over the program headers: the size so far, and \<open>False\<close> when \<open>exec\<close>
  fails.
\<close>

definition load_ph :: "u64 \<Rightarrow> nat \<Rightarrow> u64 \<Rightarrow> u64 \<Rightarrow> (kstate, u64 \<times> bool) kop" where
  "load_ph pagetable ip off sz =
     kbind (\<lambda>s. readi ip False (loc_at s) (ucast off) (of_nat SIZEOF_PROGHDR) s) (\<lambda>r.
     if r \<noteq> of_nat SIZEOF_PROGHDR then kreturn (sz, False)
     else kbind (get_local SIZEOF_PROGHDR) (\<lambda>d. let ph = proghdr_of d in
       if ph_type ph \<noteq> ELF_PROG_LOAD then kreturn (sz, True)
       else if ph_memsz ph < ph_filesz ph then kreturn (sz, False)
       else if ph_vaddr ph + ph_memsz ph < ph_vaddr ph then kreturn (sz, False)
       else if ph_vaddr ph mod PG \<noteq> 0 then kreturn (sz, False)
       else kbind (on_vm (uvm_alloc pagetable sz (ph_vaddr ph + ph_memsz ph) (flags2perm (ph_flags ph)))) (\<lambda>sz1.
         if sz1 = 0 then kreturn (sz, False)
         else kbind (loadseg pagetable (ph_vaddr ph) ip (ucast (ph_off ph)) (ucast (ph_filesz ph))) (\<lambda>ok.
           kreturn (sz1, ok)))))"

fun load_phs :: "u64 \<Rightarrow> nat \<Rightarrow> nat \<Rightarrow> u64 \<Rightarrow> u64 \<Rightarrow> (kstate, u64 \<times> bool) kop" where
  "load_phs pagetable ip 0 off sz = kreturn (sz, True)"
| "load_phs pagetable ip (Suc k) off sz = kbind (load_ph pagetable ip off sz) (\<lambda>(sz, ok).
     if ok then load_phs pagetable ip k (off + of_nat SIZEOF_PROGHDR) sz else kreturn (sz, False))"

text \<open>
  The loop over the arguments: the stack pointer and the addresses pushed so far, oldest
  first.  \<open>argv\<close> has \<open>MAXARGV\<close> elements; reading the one behind them is out of bounds and comes
  before the check for \<open>argc >= MAXARGV\<close>, which never holds.
\<close>

fun push_args :: "u64 \<Rightarrow> u64 \<Rightarrow> u64 list \<Rightarrow> u64 \<Rightarrow> u64 list \<Rightarrow> (kstate, (u64 \<times> u64 list) option) kop" where
  "push_args pagetable stackbase [] sp ustack = kfail (Oob ''argv'')"
| "push_args pagetable stackbase (a # argv) sp ustack =
     (if a = 0 then kreturn (Some (sp, ustack))
      else kbind (kgets (\<lambda>s. strlen (mem (kvm s)) a)) (\<lambda>l. case l of
          None \<Rightarrow> kfail Diverges
        | Some l \<Rightarrow>
            let sp = sp - ucast (l + 1); sp = sp - sp mod 16 in
            if sp < stackbase then kreturn None
            else kbind (on_vm (copyout pagetable sp a (ucast (l + 1)))) (\<lambda>ok.
              if \<not> ok then kreturn None
              else push_args pagetable stackbase argv sp (ustack @ [sp]))))"

text \<open>The part of a path behind its last slash.\<close>

definition base_name :: "bytes \<Rightarrow> bytes" where
  "base_name path = rev (takeWhile (\<lambda>c. c \<noteq> SLASH) (rev path))"

text \<open>The end of \<open>exec\<close>, from which it cannot fail: the process gets the new image.\<close>

definition exec_commit :: "elfhdr \<Rightarrow> bytes \<Rightarrow> u64 \<Rightarrow> u64 \<Rightarrow> u64 \<Rightarrow> u64 \<Rightarrow> (kstate, unit) kop" where
  "exec_commit elf path pagetable oldsz sz sp =
     kthen (\<lambda>s. set_tf (p_trapframe (curr_proc s)) (TF_a 1) sp s)
     (kthen (\<lambda>s. set_pname (cur s) (base_name path @ [0]) s)
     (kbind (kgets (\<lambda>s. p_pagetable (curr_proc s))) (\<lambda>oldpagetable.
      kthen (\<lambda>s. upd_proc (cur s) (\<lambda>p. p\<lparr>p_pagetable := pagetable, p_sz := sz\<rparr>) s)
     (kthen (\<lambda>s. set_tf (p_trapframe (curr_proc s)) TF_epc (e_entry elf) s)
     (kthen (\<lambda>s. set_tf (p_trapframe (curr_proc s)) TF_sp sp s)
       (on_vm (free_pagetable oldpagetable oldsz)))))))"

text \<open>The stack: two pages, the lower one unmapped, with the arguments and their addresses.\<close>

definition exec_stack :: "elfhdr \<Rightarrow> bytes \<Rightarrow> u64 list \<Rightarrow> u64 \<Rightarrow> u64 \<Rightarrow> (kstate, u32) kop" where
  "exec_stack elf path argv pagetable sz0 =
     kbind (kgets (\<lambda>s. p_sz (curr_proc s))) (\<lambda>oldsz.
     let sz = PG_ROUND_UP sz0 in
     kbind (on_vm (uvm_alloc pagetable sz (sz + (USERSTACK + 1) * PG) (ucast PTE_W))) (\<lambda>sz1.
     if sz1 = 0 then kthen (fail_work pagetable None sz) (kreturn (- 1))
     else let sz = sz1; stackbase = sz - USERSTACK * PG in
     kthen (on_vm (uvm_clear pagetable (sz - (USERSTACK + 1) * PG)))
     (kbind (push_args pagetable stackbase argv sz []) (\<lambda>r. case r of
        None \<Rightarrow> kthen (fail_work pagetable None sz) (kreturn (- 1))
      | Some (sp, ustack) \<Rightarrow>
          if length ustack = MAXARGV then kfail (Oob ''ustack'')
          else let argc = length ustack; n = 8 * (of_nat argc + 1); sp = sp - n; sp = sp - sp mod 16 in
          if sp < stackbase then kthen (fail_work pagetable None sz) (kreturn (- 1))
          else kthen (put_local (concat (map (le_bytes 8) (ustack @ [0]))))
            (kbind (\<lambda>s. on_vm (copyout pagetable sp (loc_at s) n) s) (\<lambda>ok.
             if \<not> ok then kthen (fail_work pagetable None sz) (kreturn (- 1))
             else kthen (exec_commit elf path pagetable oldsz sz sp) (kreturn (of_nat argc))))))))"

definition exec :: "u64 \<Rightarrow> nat \<Rightarrow> bytes \<Rightarrow> u64 list \<Rightarrow> (kstate, u32) kop" where
  "exec trampoline ip path argv =
     kthen begin_op
     (kbind (\<lambda>s. readi ip False (loc_at s) 0 (of_nat SIZEOF_ELFHDR) s) (\<lambda>r.
      if r \<noteq> of_nat SIZEOF_ELFHDR then kthen (fail_work 0 (Some ip) 0) (kreturn (- 1))
      else kbind (get_local SIZEOF_ELFHDR) (\<lambda>d. let elf = elfhdr_of d in
      if e_magic elf \<noteq> ELF_MAGIC then kthen (fail_work 0 (Some ip) 0) (kreturn (- 1))
      else kbind (\<lambda>s. on_vm (alloc_pagetable trampoline (p_trapframe (curr_proc s))) s) (\<lambda>pagetable.
      if pagetable = 0 then kthen (fail_work pagetable (Some ip) 0) (kreturn (- 1))
      else kbind (load_phs pagetable ip (unat (e_phnum elf)) (e_phoff elf) 0) (\<lambda>(sz, ok).
      if \<not> ok then kthen (fail_work pagetable (Some ip) sz) (kreturn (- 1))
      else kthen (iunlockput (Some ip)) (kthen end_op (exec_stack elf path argv pagetable sz)))))))"

end
