(* ===== verification/Sysfile.thy ===== *)
theory Sysfile
  imports Loader
begin

text \<open>
  The system calls of \<open>kernel/sysfile.cpp\<close> and their dispatch in \<open>kernel/syscall.cpp\<close>.  A call
  returns the value for register \<open>a0\<close>, or \<open>None\<close> when it does not return (\<open>sys_exit\<close>).  An array in
  the frame of a call that a copy fills is the local of the state; its contents are taken
  from there after the copy.
\<close>

text \<open>What the calls get from elsewhere: addresses from the linker and the device switch.\<close>

record kenv =
  k_trampoline :: u64
  k_forkret :: u64
  k_dread :: "nat \<Rightarrow> dev_fn option"
  k_dwrite :: "nat \<Rightarrow> dev_fn option"

type_synonym sysfun = "(kstate, u64 option) kop"

abbreviation sysret :: "u64 \<Rightarrow> sysfun" where
  "sysret v \<equiv> kreturn (Some v)"

section \<open>Arguments\<close>

definition fetch_addr :: "u64 \<Rightarrow> (kstate, u64 option) kop" where
  "fetch_addr addr = (\<lambda>s. let p = curr_proc s in
     if addr \<ge> p_sz p \<or> addr + 8 > p_sz p then Inr (None, s)
     else kbind (on_vm (copyin (p_pagetable p) (loc_at s) addr 8)) (\<lambda>ok s.
       Inr (if ok then Some (load64 (mem (kvm s)) (loc_at s)) else None, s)) s)"

definition fetch_str :: "u64 \<Rightarrow> u64 \<Rightarrow> u32 \<Rightarrow> (kstate, bool) kop" where
  "fetch_str addr buf len = (\<lambda>s. on_vm (copyinstr (p_pagetable (curr_proc s)) buf addr (ucast len)) s)"

text \<open>A path argument in an array of \<open>MAXPATH\<close> bytes.\<close>

definition fetch_path :: "u64 \<Rightarrow> (kstate, bytes option) kop" where
  "fetch_path addr = kbind (\<lambda>s. fetch_str addr (loc_at s) (of_nat MAXPATH) s) (\<lambda>ok.
     if \<not> ok then kreturn None
     else kbind (get_local MAXPATH) (\<lambda>p. kreturn (Some (cstr p))))"

text \<open>
  The path argument of \<open>sys_mknod\<close>, which copies up to \<open>MAXFILE\<close> bytes into the array of \<open>MAXPATH\<close>
  bytes: the copy leaves the array when the string does not end in it and the byte behind
  is mapped.
\<close>

definition fetch_mknod_path :: "u64 \<Rightarrow> (kstate, bytes option) kop" where
  "fetch_mknod_path addr = kbind (fetch_path addr) (\<lambda>r. case r of
       Some p \<Rightarrow> kreturn (Some p)
     | None \<Rightarrow> kbind (\<lambda>s. on_vm (copyin (p_pagetable (curr_proc s)) (loc_at s) addr (of_nat MAXPATH + 1)) s) (\<lambda>ok.
         if ok then kfail (Oob ''path'') else kreturn None))"

definition check_permission_for_file :: "nat \<Rightarrow> u8 \<Rightarrow> (kstate, bool) kop" where
  "check_permission_for_file ip msk = (\<lambda>s. case p_user (curr_proc s) of
       None \<Rightarrow> Inl (Oob ''nullptr'')
     | Some u \<Rightarrow> let i = itab s ip; u = users s u in
         Inr ((if i_uid i = u_uid u then i_mask_user i AND msk
               else if i_gid i = u_gid u then i_mask_group i AND msk
               else i_mask_other i AND msk) \<noteq> 0, s))"

definition get_argu :: "nat \<Rightarrow> (kstate, u64) kop" where
  "get_argu index = (\<lambda>s.
     if index \<le> 6 then Inr (get_tf (p_trapframe (curr_proc s)) (TF_a index) s, s)
     else Inl (Panic ''syscall::get_argu: get arguments failed''))"

definition set_ofile :: "nat \<Rightarrow> nat option \<Rightarrow> (kstate, unit) kop" where
  "set_ofile fd f = (\<lambda>s. upd_proc (cur s) (\<lambda>p. p\<lparr>p_ofile := (p_ofile p)[fd := f]\<rparr>) s)"

definition alloc_fd :: "nat \<Rightarrow> (kstate, nat option) kop" where
  "alloc_fd f = (\<lambda>s. case find (\<lambda>fd. p_ofile (curr_proc s) ! fd = None) [0..<NOFILE] of
       None \<Rightarrow> Inr (None, s)
     | Some fd \<Rightarrow> kthen (set_ofile fd (Some f)) (kreturn (Some fd)) s)"

definition get_fd :: "nat \<Rightarrow> (kstate, (nat \<times> nat) option) kop" where
  "get_fd argu_no = kbind (get_argu argu_no) (\<lambda>v s. let fd = sint (ucast v :: u32) in
     Inr (if fd < 0 \<or> fd \<ge> int NOFILE then None
          else map_option (Pair (nat fd)) (p_ofile (curr_proc s) ! nat fd), s))"

section \<open>Creating and opening files\<close>

text \<open>The array that holds a last path element, and the names of the two links of a directory.\<close>

definition DOT :: bytes where "DOT = [46, 0]"
definition DOTDOT :: bytes where "DOTDOT = [46, 46, 0]"

definition create_fail :: "nat \<Rightarrow> nat \<Rightarrow> (kstate, nat option) kop" where
  "create_fail ip dp =
     kthen (upd_inode ip (\<lambda>i. i\<lparr>i_nlink := 0\<rparr>))
     (kthen (iupdate ip) (kthen (iunlockput (Some ip)) (kthen (iunlockput (Some dp)) (kreturn None))))"

definition new_inode :: "nat \<Rightarrow> u16 \<Rightarrow> u16 \<Rightarrow> (kstate, unit) kop" where
  "new_inode ip mj mn = (\<lambda>s. case p_user (curr_proc s) of
       None \<Rightarrow> Inl (Oob ''nullptr'')
     | Some u \<Rightarrow> kthen (upd_inode ip (\<lambda>i. i\<lparr>i_major := mj, i_minor := mn, i_nlink := 1,
           i_uid := u_uid (users s u), i_gid := u_gid (users s u),
           i_mask_user := 7, i_mask_group := 7, i_mask_other := 7\<rparr>)) (iupdate ip) s)"

definition create :: "bytes \<Rightarrow> u16 \<Rightarrow> u16 \<Rightarrow> u16 \<Rightarrow> (kstate, nat option) kop" where
  "create path type mj mn =
     kbind (nameiparent path (replicate DIRSIZ 0)) (\<lambda>(r, name). case r of
       None \<Rightarrow> kreturn None
     | Some dp \<Rightarrow>
         kthen (ilock (Some dp)) (kbind (dir_lookup dp name) (\<lambda>r. case r of
           Some (ip, _) \<Rightarrow>
             kthen (iunlockput (Some dp)) (kthen (ilock (Some ip)) (\<lambda>s.
               if type = T_FILE \<and> (i_type (itab s ip) = T_FILE \<or> i_type (itab s ip) = T_DEVICE)
               then Inr (Some ip, s)
               else kthen (iunlockput (Some ip)) (kreturn None) s))
         | None \<Rightarrow>
             kbind (\<lambda>s. ialloc (i_dev (itab s dp)) type s) (\<lambda>r. case r of
               None \<Rightarrow> kthen (iunlockput (Some dp)) (kreturn None)
             | Some ip \<Rightarrow>
                 kthen (ilock (Some ip)) (kthen (new_inode ip mj mn)
                 (kbind (if type = T_DIR then
                     kbind (\<lambda>s. dir_link ip DOT (i_inum (itab s ip)) s) (\<lambda>r.
                       if sint r < 0 then kreturn False
                       else kbind (\<lambda>s. dir_link ip DOTDOT (i_inum (itab s ip)) s) (\<lambda>r. kreturn (\<not> sint r < 0)))
                   else kreturn True) (\<lambda>ok.
                  if \<not> ok then create_fail ip dp
                  else kbind (dir_link_ip dp name ip) (\<lambda>r.
                    if sint r < 0 then create_fail ip dp
                    else
                      kthen (kwhen (type = T_DIR)
                        (kthen (upd_inode dp (\<lambda>i. i\<lparr>i_nlink := i_nlink i + 1\<rparr>)) (iupdate dp)))
                      (kthen (iunlockput (Some dp)) (kreturn (Some ip)))))))))))"

text \<open>Leaving a call that holds \<open>ip\<close> and a transaction.\<close>

definition fail_op :: "nat option \<Rightarrow> sysfun" where
  "fail_op ip = kthen (kwhen (ip \<noteq> None) (iunlockput ip)) (kthen end_op (sysret (- 1)))"

text \<open>The permission test of \<open>sys_open\<close>, for the modes it distinguishes.\<close>

definition open_permitted :: "nat \<Rightarrow> u32 \<Rightarrow> (kstate, bool) kop" where
  "open_permitted ip mode =
     (if mode = O_RDONLY then check_permission_for_file ip 4
      else if mode = O_WRONLY \<or> mode = O_TRUNC then check_permission_for_file ip 2
      else if mode = O_RDWR then check_permission_for_file ip 6
      else kreturn True)"

definition open_inode :: "bytes \<Rightarrow> u32 \<Rightarrow> (kstate, nat option) kop" where
  "open_inode path mode =
     (if mode AND O_CREATE \<noteq> 0 then create path T_FILE 0 0
      else kbind (namei path) (\<lambda>r. case r of
          None \<Rightarrow> kreturn None
        | Some ip \<Rightarrow> kthen (ilock (Some ip)) (\<lambda>s.
            if i_type (itab s ip) = T_DIR \<and> mode \<noteq> O_RDONLY
            then kthen (iunlockput (Some ip)) (kreturn None) s
            else Inr (Some ip, s))))"

definition open_file :: "nat \<Rightarrow> nat \<Rightarrow> u32 \<Rightarrow> (kstate, unit) kop" where
  "open_file f ip mode = (\<lambda>s. let i = itab s ip in
     upd_file f (\<lambda>x.
       (if i_type i = T_DEVICE then x\<lparr>f_type := FD_DEVICE, f_major := i_major i\<rparr>
        else x\<lparr>f_type := FD_INODE, f_off := 0\<rparr>)
       \<lparr>f_ip := Some ip, f_readable := (mode AND O_WRONLY = 0),
        f_writable := (mode AND O_WRONLY \<noteq> 0 \<or> mode AND O_RDWR \<noteq> 0)\<rparr>) s)"

definition sys_open :: sysfun where
  "sys_open = kbind (get_argu 1) (\<lambda>m. let mode = ucast m :: u32 in
     kbind (get_argu 0) (\<lambda>addr. kbind (fetch_path addr) (\<lambda>r. case r of
       None \<Rightarrow> sysret (- 1)
     | Some path \<Rightarrow>
         kthen begin_op (kbind (open_inode path mode) (\<lambda>r. case r of
           None \<Rightarrow> fail_op None
         | Some ip \<Rightarrow>
             kbind (open_permitted ip mode) (\<lambda>ok.
             if \<not> ok then fail_op (Some ip)
             else kbind (kgets (\<lambda>s. itab s ip)) (\<lambda>i.
             if i_type i = T_DEVICE \<and> (sint (i_major i) < 0 \<or> sint (i_major i) \<ge> int NDEV) then fail_op (Some ip)
             else kbind file_alloc (\<lambda>r. case r of
               None \<Rightarrow> fail_op (Some ip)
             | Some f \<Rightarrow> kbind (alloc_fd f) (\<lambda>r. case r of
                 None \<Rightarrow> kthen (file_close f) (fail_op (Some ip))
               | Some fd \<Rightarrow>
                   kthen (open_file f ip mode)
                   (kthen (\<lambda>s. kwhen (mode AND O_TRUNC \<noteq> 0 \<and> i_type (itab s ip) = T_FILE) (itrunc ip) s)
                   (kthen (iunlock (Some ip)) (kthen end_op (sysret (of_nat fd))))))))))))))"

definition sys_mknod :: sysfun where
  "sys_mknod = kthen begin_op
     (kbind (get_argu 1) (\<lambda>mj. kbind (get_argu 2) (\<lambda>mn. kbind (get_argu 0) (\<lambda>addr.
      kbind (fetch_mknod_path addr) (\<lambda>r. case r of
        None \<Rightarrow> sysret (- 1)
      | Some path \<Rightarrow> kbind (create path T_DEVICE (ucast mj) (ucast mn)) (\<lambda>r. case r of
          None \<Rightarrow> sysret (- 1)
        | Some ip \<Rightarrow> kthen (iunlockput (Some ip)) (kthen end_op (sysret 0))))))))"

definition sys_mkdir :: sysfun where
  "sys_mkdir = kthen begin_op
     (kbind (get_argu 0) (\<lambda>addr. kbind (fetch_path addr) (\<lambda>r. case r of
        None \<Rightarrow> kthen end_op (sysret (- 1))
      | Some path \<Rightarrow> kbind (create path T_DIR 0 0) (\<lambda>r. case r of
          None \<Rightarrow> kthen end_op (sysret (- 1))
        | Some ip \<Rightarrow>
            kthen (\<lambda>s. case p_user (curr_proc s) of
                None \<Rightarrow> Inl (Oob ''nullptr'')
              | Some u \<Rightarrow> upd_inode ip (\<lambda>i. i\<lparr>i_uid := u_uid (users s u), i_gid := u_gid (users s u),
                  i_mask_user := 7, i_mask_group := 7, i_mask_other := 7\<rparr>) s)
            (kthen (iunlockput (Some ip)) (kthen end_op (sysret 0)))))))"

definition sys_chdir :: sysfun where
  "sys_chdir = kthen begin_op
     (kbind (get_argu 0) (\<lambda>addr. kbind (fetch_path addr) (\<lambda>r. case r of
        None \<Rightarrow> kthen end_op (sysret (- 1))
      | Some path \<Rightarrow> kbind (namei path) (\<lambda>r. case r of
          None \<Rightarrow> kthen end_op (sysret (- 1))
        | Some ip \<Rightarrow> kthen (ilock (Some ip)) (\<lambda>s.
            if i_type (itab s ip) \<noteq> T_DIR then fail_op (Some ip) s
            else kthen (iunlock (Some ip)) (kthen (\<lambda>s. iput (p_cwd (curr_proc s)) s) (kthen end_op
              (kthen (\<lambda>s. upd_proc (cur s) (\<lambda>p. p\<lparr>p_cwd := Some ip\<rparr>) s) (sysret 0)))) s)))))"

text \<open>\<open>sys_link\<close> and \<open>sys_unlink\<close> do nothing.\<close>

definition sys_link :: sysfun where "sys_link = sysret 0"
definition sys_unlink :: sysfun where "sys_unlink = sysret 0"

section \<open>Open files\<close>

definition sys_read :: "kenv \<Rightarrow> sysfun" where
  "sys_read e = kbind (get_argu 1) (\<lambda>addr. kbind (get_argu 2) (\<lambda>size. kbind (get_fd 0) (\<lambda>r. case r of
       None \<Rightarrow> sysret (- 1)
     | Some (_, f) \<Rightarrow> kbind (file_read (k_dread e) f addr (ucast size)) (\<lambda>r. sysret (scast r)))))"

definition sys_write :: "kenv \<Rightarrow> sysfun" where
  "sys_write e = kbind (get_argu 1) (\<lambda>addr. kbind (get_argu 2) (\<lambda>size. kbind (get_fd 0) (\<lambda>r. case r of
       None \<Rightarrow> sysret (- 1)
     | Some (_, f) \<Rightarrow> kbind (file_write (k_dwrite e) f addr (ucast size)) (\<lambda>r. sysret (scast r)))))"

definition sys_fstat :: sysfun where
  "sys_fstat = kbind (get_argu 1) (\<lambda>st. kbind (get_fd 0) (\<lambda>r. case r of
       None \<Rightarrow> sysret (- 1)
     | Some (_, f) \<Rightarrow> kbind (file_stat f st) (\<lambda>r. sysret (scast r))))"

definition fd_alloc :: "nat \<Rightarrow> (kstate, nat option) kop" where
  "fd_alloc f = (\<lambda>s. case find (\<lambda>fd. p_ofile (curr_proc s) ! fd = None) [0..<NOFILE] of
       Some fd \<Rightarrow> kthen (set_ofile fd (Some f)) (kreturn (Some fd)) s
     | None \<Rightarrow> Inr (None, s))"

definition sys_dup :: sysfun where
  "sys_dup = kbind (get_fd 0) (\<lambda>r. case r of
       None \<Rightarrow> sysret (- 1)
     | Some (_, f) \<Rightarrow> kbind (fd_alloc f) (\<lambda>r. case r of
         None \<Rightarrow> sysret (- 1)
       | Some fd \<Rightarrow> kbind (file_dup f) (\<lambda>_. sysret (of_nat fd))))"

definition sys_close :: sysfun where
  "sys_close = kbind (get_fd 0) (\<lambda>r. case r of
       None \<Rightarrow> sysret (- 1)
     | Some (fd, f) \<Rightarrow> kthen (set_ofile fd None) (kthen (file_close f) (sysret 0)))"

text \<open>\<open>fd0\<close> or \<open>fd1\<close> to the array of the caller.\<close>

definition out_fd :: "u64 \<Rightarrow> nat \<Rightarrow> (kstate, bool) kop" where
  "out_fd addr fd = kthen (put_local (le_bytes 4 (of_nat fd)))
     (\<lambda>s. on_vm (copyout (p_pagetable (curr_proc s)) addr (loc_at s) 4) s)"

definition sys_pipe :: sysfun where
  "sys_pipe = kbind (get_argu 0) (\<lambda>fdarray. kbind pipealloc (\<lambda>r. case r of
       None \<Rightarrow> sysret (- 1)
     | Some (rfile, wfile) \<Rightarrow>
         kbind (alloc_fd rfile) (\<lambda>r. case r of
           None \<Rightarrow> kthen (file_close rfile) (kthen (file_close wfile) (sysret (- 1)))
         | Some fd0 \<Rightarrow> kbind (alloc_fd wfile) (\<lambda>r. case r of
             None \<Rightarrow> kthen (set_ofile fd0 None) (kthen (file_close rfile) (kthen (file_close wfile) (sysret (- 1))))
           | Some fd1 \<Rightarrow>
               kbind (kbind (out_fd fdarray fd0) (\<lambda>ok. if ok then out_fd (fdarray + 4) fd1 else kreturn False)) (\<lambda>ok.
               if ok then sysret 0
               else kthen (set_ofile fd0 None) (kthen (set_ofile fd1 None)
                 (kthen (file_close rfile) (kthen (file_close wfile) (sysret (- 1))))))))))"

section \<open>Processes\<close>

text \<open>Freeing the argument pages up to the first null pointer.\<close>

definition fail_work4exec :: "u64 list \<Rightarrow> (kstate, unit) kop" where
  "fail_work4exec argv = kfor (\<lambda>a. on_vm (kfree a)) (takeWhile (\<lambda>a. a \<noteq> 0) argv)"

text \<open>
  The loop that collects the arguments, with \<open>n\<close> turns left before its check of \<open>i\<close> fails.  The
  check allows \<open>i = MAXARGV\<close>, one element behind \<open>argv\<close>.  The \<open>value()\<close> of an empty \<open>optional\<close> is a null
  pointer, for which the code tests.
\<close>

fun exec_args :: "nat \<Rightarrow> u64 \<Rightarrow> nat \<Rightarrow> u64 list \<Rightarrow> (kstate, u64 list option) kop" where
  "exec_args 0 uargv i argv = kthen (fail_work4exec argv) (kreturn None)"
| "exec_args (Suc n) uargv i argv =
     kbind (fetch_addr (uargv + 8 * of_nat i)) (\<lambda>r. case r of
       None \<Rightarrow> kthen (fail_work4exec argv) (kreturn None)
     | Some uarg \<Rightarrow>
         if i \<ge> MAXARGV then kfail (Oob ''argv'')
         else if uarg = 0 then kreturn (Some (argv[i := 0]))
         else kbind (on_vm kalloc) (\<lambda>r. case r of
             None \<Rightarrow> kthen (fail_work4exec (argv[i := 0])) (kreturn None)
           | Some a \<Rightarrow> let argv = argv[i := a] in
               kbind (fetch_str uarg a PGSIZE) (\<lambda>ok.
                 if \<not> ok then kthen (fail_work4exec argv) (kreturn None)
                 else exec_args n uargv (i + 1) argv)))"

definition sys_exec :: "kenv \<Rightarrow> sysfun" where
  "sys_exec e = kbind (get_argu 1) (\<lambda>uargv. kbind (get_argu 0) (\<lambda>addr.
     kbind (fetch_path addr) (\<lambda>r. case r of
       None \<Rightarrow> sysret (- 1)
     | Some path \<Rightarrow> kbind (exec_args (MAXARGV + 1) uargv 0 (replicate MAXARGV 0)) (\<lambda>r. case r of
         None \<Rightarrow> sysret (- 1)
       | Some argv \<Rightarrow> kbind (namei path) (\<lambda>ip. kthen (ilock ip)
           (kbind (check_permission_for_file (the ip) 1) (\<lambda>ok.
            if \<not> ok then kthen (iunlock ip) (sysret (- 1))
            else kbind (exec (k_trampoline e) (the ip) path argv) (\<lambda>rs.
              kthen (fail_work4exec argv) (sysret (scast rs))))))))))"

definition sys_fork :: "kenv \<Rightarrow> sysfun" where
  "sys_fork e = kbind (fork (k_trampoline e) (k_forkret e)) (\<lambda>r. sysret (scast r))"

definition sys_exit :: sysfun where
  "sys_exit = kbind (get_argu 0) (\<lambda>status. kthen (proc_exit (ucast status)) (kreturn None))"

definition sys_wait :: sysfun where
  "sys_wait = kbind (get_argu 0) (\<lambda>p. kbind (wait p) (\<lambda>r. sysret (scast r)))"

definition sys_kill :: sysfun where
  "sys_kill = kbind (get_argu 0) (\<lambda>pid. kbind (kill (ucast pid)) (\<lambda>r. sysret (scast r)))"

definition sys_getpid :: sysfun where
  "sys_getpid = kbind (kgets (\<lambda>s. p_pid (curr_proc s))) (\<lambda>pid. sysret (ucast pid))"

definition sys_sbrk :: sysfun where
  "sys_sbrk = kbind (get_argu 0) (\<lambda>n. kbind (kgets (\<lambda>s. p_sz (curr_proc s))) (\<lambda>sz.
     kbind (grow (sint (ucast n :: u32))) (\<lambda>r. sysret (if sint r < 0 then - 1 else sz))))"

definition sys_sleep :: sysfun where "sys_sleep = sysret 0"
definition sys_uptime :: sysfun where "sys_uptime = sysret 0"

definition upd_user :: "(user \<Rightarrow> user) \<Rightarrow> (kstate, unit) kop" where
  "upd_user f = (\<lambda>s. case p_user (curr_proc s) of
       None \<Rightarrow> Inl (Oob ''nullptr'')
     | Some u \<Rightarrow> Inr ((), s\<lparr>users := (users s)(u := f (users s u))\<rparr>))"

definition sys_setuid :: sysfun where
  "sys_setuid = kbind (get_argu 0) (\<lambda>v. kthen (upd_user (\<lambda>u. u\<lparr>u_uid := ucast v\<rparr>)) (sysret 0))"

definition sys_setgid :: sysfun where
  "sys_setgid = kbind (get_argu 0) (\<lambda>v. kthen (upd_user (\<lambda>u. u\<lparr>u_gid := ucast v\<rparr>)) (sysret 0))"

section \<open>Dispatch\<close>

definition syscalls :: "kenv \<Rightarrow> sysfun list" where
  "syscalls e =
     [sys_fork e, sys_exit, sys_wait, sys_pipe, sys_read e, sys_kill,
      sys_exec e, sys_fstat, sys_chdir, sys_dup, sys_getpid, sys_sbrk,
      sys_sleep, sys_uptime, sys_open, sys_write e, sys_mknod, sys_unlink,
      sys_link, sys_mkdir, sys_close, sys_setuid, sys_setgid]"

text \<open>
  The number is compared with the size of the table in bytes.  The result is \<open>False\<close> when the
  call does not return.
\<close>

definition SIZEOF_SYSCALLS :: u64 where "SIZEOF_SYSCALLS = 8 * 23"

definition syscall :: "kenv \<Rightarrow> (kstate, bool) kop" where
  "syscall e = (\<lambda>s. let num = get_tf (p_trapframe (curr_proc s)) (TF_a 7) s in
     if num \<le> SIZEOF_SYSCALLS then
       if unat num < length (syscalls e) then
         kbind ((syscalls e) ! unat num) (\<lambda>r. case r of
             None \<Rightarrow> kreturn False
           | Some v \<Rightarrow> kthen (\<lambda>s. set_tf (p_trapframe (curr_proc s)) (TF_a 0) v s) (kreturn True)) s
       else Inl (Oob ''syscalls'')
     else Inr (True, s))"

end
