(* ===== verification/Virtio.thy ===== *)
theory Virtio
  imports Kstate
begin

text \<open>
  The disk driver, \<open>kernel/virtio_disk.cpp\<close> and \<open>kernel/virtio_disk.h\<close>: the descriptors and the two
  rings it shares with the device, its initialisation, a request from its submission to its
  completion, and the interrupt handler.  The device is outside of the program: what its
  registers read as is a parameter of the initialisation, and in the interleavings it takes
  the published requests and completes them in any order, once each, with status 0.  Buffers
  are named by their number; an address in a descriptor is symbolic.
\<close>

section \<open>Registers and shared structures\<close>

definition VIRTIO_MMIO_MAGIC_VALUE :: u32 where "VIRTIO_MMIO_MAGIC_VALUE = 0x000"
definition VIRTIO_MMIO_VERSION :: u32 where "VIRTIO_MMIO_VERSION = 0x004"
definition VIRTIO_MMIO_DEVICE_ID :: u32 where "VIRTIO_MMIO_DEVICE_ID = 0x008"
definition VIRTIO_MMIO_VENDOR_ID :: u32 where "VIRTIO_MMIO_VENDOR_ID = 0x00c"
definition VIRTIO_MMIO_DEVICE_FEATURES :: u32 where "VIRTIO_MMIO_DEVICE_FEATURES = 0x010"
definition VIRTIO_MMIO_DRIVER_FEATURES :: u32 where "VIRTIO_MMIO_DRIVER_FEATURES = 0x020"
definition VIRTIO_MMIO_QUEUE_SEL :: u32 where "VIRTIO_MMIO_QUEUE_SEL = 0x030"
definition VIRTIO_MMIO_QUEUE_NUM_MAX :: u32 where "VIRTIO_MMIO_QUEUE_NUM_MAX = 0x034"
definition VIRTIO_MMIO_QUEUE_NUM :: u32 where "VIRTIO_MMIO_QUEUE_NUM = 0x038"
definition VIRTIO_MMIO_QUEUE_READY :: u32 where "VIRTIO_MMIO_QUEUE_READY = 0x044"
definition VIRTIO_MMIO_QUEUE_NOTIFY :: u32 where "VIRTIO_MMIO_QUEUE_NOTIFY = 0x050"
definition VIRTIO_MMIO_INTERRUPT_STATUS :: u32 where "VIRTIO_MMIO_INTERRUPT_STATUS = 0x060"
definition VIRTIO_MMIO_INTERRUPT_ACK :: u32 where "VIRTIO_MMIO_INTERRUPT_ACK = 0x064"
definition VIRTIO_MMIO_STATUS :: u32 where "VIRTIO_MMIO_STATUS = 0x070"
definition VIRTIO_MMIO_QUEUE_DESC_LOW :: u32 where "VIRTIO_MMIO_QUEUE_DESC_LOW = 0x080"
definition VIRTIO_MMIO_QUEUE_DESC_HIGH :: u32 where "VIRTIO_MMIO_QUEUE_DESC_HIGH = 0x084"
definition VIRTIO_MMIO_DRIVER_DESC_LOW :: u32 where "VIRTIO_MMIO_DRIVER_DESC_LOW = 0x090"
definition VIRTIO_MMIO_DRIVER_DESC_HIGH :: u32 where "VIRTIO_MMIO_DRIVER_DESC_HIGH = 0x094"
definition VIRTIO_MMIO_DEVICE_DESC_LOW :: u32 where "VIRTIO_MMIO_DEVICE_DESC_LOW = 0x0a0"
definition VIRTIO_MMIO_DEVICE_DESC_HIGH :: u32 where "VIRTIO_MMIO_DEVICE_DESC_HIGH = 0x0a4"

definition VIRTIO_CONFIG_S_ACKNOWLEDGE :: u32 where "VIRTIO_CONFIG_S_ACKNOWLEDGE = 1"
definition VIRTIO_CONFIG_S_DRIVER :: u32 where "VIRTIO_CONFIG_S_DRIVER = 2"
definition VIRTIO_CONFIG_S_DRIVER_OK :: u32 where "VIRTIO_CONFIG_S_DRIVER_OK = 4"
definition VIRTIO_CONFIG_S_FEATURES_OK :: u32 where "VIRTIO_CONFIG_S_FEATURES_OK = 8"

definition VIRTIO_BLK_F_RO :: nat where "VIRTIO_BLK_F_RO = 5"
definition VIRTIO_BLK_F_SCSI :: nat where "VIRTIO_BLK_F_SCSI = 7"
definition VIRTIO_BLK_F_CONFIG_WCE :: nat where "VIRTIO_BLK_F_CONFIG_WCE = 11"
definition VIRTIO_BLK_F_MQ :: nat where "VIRTIO_BLK_F_MQ = 12"
definition VIRTIO_F_ANY_LAYOUT :: nat where "VIRTIO_F_ANY_LAYOUT = 27"
definition VIRTIO_RING_F_INDIRECT_DESC :: nat where "VIRTIO_RING_F_INDIRECT_DESC = 28"
definition VIRTIO_RING_F_EVENT_IDX :: nat where "VIRTIO_RING_F_EVENT_IDX = 29"

definition NUM :: nat where [layout_simps]: "NUM = 8"

datatype vaddr = ANull | AOps nat | AData nat | AStatus nat

record virtq_desc =
  d_addr :: vaddr
  d_len :: u32
  d_flags :: u16
  d_next :: u16

definition VRING_DESC_F_NEXT :: u16 where [layout_simps]: "VRING_DESC_F_NEXT = 1"
definition VRING_DESC_F_WRITE :: u16 where [layout_simps]: "VRING_DESC_F_WRITE = 2"

record virtq_avail =
  av_idx :: u16
  av_ring :: "u16 list"

record virtq_used =
  us_idx :: u16
  us_ring :: "u32 list"

definition VIRTIO_BLK_T_IN :: u32 where [layout_simps]: "VIRTIO_BLK_T_IN = 0"
definition VIRTIO_BLK_T_OUT :: u32 where [layout_simps]: "VIRTIO_BLK_T_OUT = 1"

record virtio_blk_req =
  rq_type :: u32
  rq_reserved :: u32
  rq_sector :: u64

text \<open>
  \<open>struct disk\<close> with the structures it points to, and of every buffer its block number and its
  \<open>disk\<close> flag, which is set while the device owns the buffer.
\<close>

record vdisk =
  desc :: "nat \<Rightarrow> virtq_desc"
  avail :: virtq_avail
  used :: virtq_used
  dfree :: "nat \<Rightarrow> bool"
  used_idx :: u16
  info_b :: "nat \<Rightarrow> nat option"
  info_status :: "nat \<Rightarrow> u8"
  ops :: "nat \<Rightarrow> virtio_blk_req"
  bno_of :: "nat \<Rightarrow> u32"
  bdisk :: "nat \<Rightarrow> bool"

section \<open>Initialisation\<close>

text \<open>
  \<open>rd\<close> gives what a register reads as.  The result are the writes to the registers, in order,
  and the addresses of the three pages.
\<close>

definition driver_features :: "u32 \<Rightarrow> u32" where
  "driver_features f = fold (\<lambda>bit f. f AND NOT (push_bit bit 1))
     [VIRTIO_BLK_F_RO, VIRTIO_BLK_F_SCSI, VIRTIO_BLK_F_CONFIG_WCE, VIRTIO_BLK_F_MQ, VIRTIO_F_ANY_LAYOUT,
      VIRTIO_RING_F_EVENT_IDX, VIRTIO_RING_F_INDIRECT_DESC] f"

text \<open>\<open>kalloc().value()\<close>: the \<open>value()\<close> of an empty \<open>optional\<close> is a null pointer.\<close>

definition kalloc_value :: "(vm_state, u64) kop" where
  "kalloc_value = kbind kalloc (\<lambda>r. kreturn (case r of None \<Rightarrow> 0 | Some p \<Rightarrow> p))"

definition queue_writes :: "u32 \<Rightarrow> u32 \<Rightarrow> u64 \<Rightarrow> (u32 \<times> u32) list" where
  "queue_writes low high p = [(low, ucast p), (high, ucast (drop_bit 32 p))]"

definition virtio_init :: "(u32 \<Rightarrow> u32) \<Rightarrow> (vm_state, (u32 \<times> u32) list \<times> u64 \<times> u64 \<times> u64) kop" where
  "virtio_init rd =
     (if rd VIRTIO_MMIO_MAGIC_VALUE \<noteq> 0x74726976 \<or> rd VIRTIO_MMIO_VERSION \<noteq> 2
         \<or> rd VIRTIO_MMIO_DEVICE_ID \<noteq> 2 \<or> rd VIRTIO_MMIO_VENDOR_ID \<noteq> 0x554d4551
      then kfail (Panic ''could not find virtio disk'')
      else
        let st1 = VIRTIO_CONFIG_S_ACKNOWLEDGE; st2 = st1 OR VIRTIO_CONFIG_S_DRIVER;
            st3 = st2 OR VIRTIO_CONFIG_S_FEATURES_OK; st = rd VIRTIO_MMIO_STATUS in
        if st AND VIRTIO_CONFIG_S_FEATURES_OK = 0 then kfail (Panic ''virtio disk FEATURES_OK unset'')
        else if rd VIRTIO_MMIO_QUEUE_READY \<noteq> 0 then kfail (Panic ''virtio disk should not be ready'')
        else if rd VIRTIO_MMIO_QUEUE_NUM_MAX = 0 then kfail (Panic ''virtio disk has no queue 0'')
        else if rd VIRTIO_MMIO_QUEUE_NUM_MAX < of_nat NUM then kfail (Panic ''virtio disk max queue too short'')
        else kbind kalloc_value (\<lambda>d. kbind kalloc_value (\<lambda>a. kbind kalloc_value (\<lambda>u.
          if d = 0 \<or> a = 0 \<or> u = 0 then kfail (Panic ''virtio disk vm::alloc'')
          else kthen (set_mem (\<lambda>m. memset m d 0 PGSIZE))
          (kthen (set_mem (\<lambda>m. memset m a 0 PGSIZE))
          (kthen (set_mem (\<lambda>m. memset m u 0 PGSIZE))
          (kreturn
            ([(VIRTIO_MMIO_STATUS, 0), (VIRTIO_MMIO_STATUS, st1), (VIRTIO_MMIO_STATUS, st2),
              (VIRTIO_MMIO_DRIVER_FEATURES, driver_features (rd VIRTIO_MMIO_DEVICE_FEATURES)),
              (VIRTIO_MMIO_STATUS, st3), (VIRTIO_MMIO_QUEUE_SEL, 0), (VIRTIO_MMIO_QUEUE_NUM, of_nat NUM)]
             @ queue_writes VIRTIO_MMIO_QUEUE_DESC_LOW VIRTIO_MMIO_QUEUE_DESC_HIGH d
             @ queue_writes VIRTIO_MMIO_DRIVER_DESC_LOW VIRTIO_MMIO_DRIVER_DESC_HIGH a
             @ queue_writes VIRTIO_MMIO_DEVICE_DESC_LOW VIRTIO_MMIO_DEVICE_DESC_HIGH u
             @ [(VIRTIO_MMIO_QUEUE_READY, 1), (VIRTIO_MMIO_STATUS, st OR VIRTIO_CONFIG_S_DRIVER_OK)],
             d, a, u))))))))"

text \<open>The state of the driver after it: empty rings and free descriptors.\<close>

definition null_desc :: virtq_desc where
  "null_desc = \<lparr>d_addr = ANull, d_len = 0, d_flags = 0, d_next = 0\<rparr>"

definition vdisk_boot :: "(nat \<Rightarrow> u32) \<Rightarrow> vdisk" where
  "vdisk_boot bnos = \<lparr>desc = (\<lambda>_. null_desc), avail = \<lparr>av_idx = 0, av_ring = replicate NUM 0\<rparr>,
     used = \<lparr>us_idx = 0, us_ring = replicate NUM 0\<rparr>, dfree = (\<lambda>i. i < NUM), used_idx = 0,
     info_b = (\<lambda>_. None), info_status = (\<lambda>_. 0),
     ops = (\<lambda>_. \<lparr>rq_type = 0, rq_reserved = 0, rq_sector = 0\<rparr>), bno_of = bnos, bdisk = (\<lambda>_. False)\<rparr>"

section \<open>Descriptors\<close>

definition alloc_desc :: "(vdisk, nat option) kop" where
  "alloc_desc = (\<lambda>s. case find (dfree s) [0..<NUM] of
       None \<Rightarrow> Inr (None, s)
     | Some i \<Rightarrow> Inr (Some i, s\<lparr>dfree := (dfree s)(i := False)\<rparr>))"

definition free_desc :: "nat \<Rightarrow> (vdisk, unit) kop" where
  "free_desc i = (\<lambda>s.
     if i \<ge> NUM then Inl (Panic ''free_desc: 1'')
     else if dfree s i then Inl (Panic ''free_desc: 2'')
     else Inr ((), s\<lparr>desc := (desc s)(i := null_desc), dfree := (dfree s)(i := True)\<rparr>))"

text \<open>The loop of \<open>alloc3_desc\<close> with \<open>n\<close> descriptors to go and those in \<open>idx\<close> allocated.\<close>

fun alloc_loop_desc :: "nat \<Rightarrow> nat list \<Rightarrow> (vdisk, nat list option) kop" where
  "alloc_loop_desc 0 idx = kreturn (Some idx)"
| "alloc_loop_desc (Suc n) idx = kbind alloc_desc (\<lambda>r. case r of
       None \<Rightarrow> kthen (kfor free_desc idx) (kreturn None)
     | Some i \<Rightarrow> alloc_loop_desc n (idx @ [i]))"

definition alloc3_desc :: "(vdisk, nat list option) kop" where
  "alloc3_desc = alloc_loop_desc 3 []"

definition taken :: "vdisk \<Rightarrow> nat set" where
  "taken s = {i. i < NUM \<and> \<not> dfree s i}"

lemma finite_taken [simp]: "finite (taken s)"
  by (rule finite_subset [of _ "{..<NUM}"]) (auto simp: taken_def)

lemma free_desc_taken:
  assumes "free_desc i s = Inr ((), t)"
  shows "taken t = taken s - {i}" and "i \<in> taken s"
  using assms by (auto simp: free_desc_def taken_def split: if_splits)

lemma free_desc_less: "free_desc i s = Inr (u, t) \<Longrightarrow> card (taken t) < card (taken s)"
  using free_desc_taken [of i s t] card_Diff1_less [of "taken s" i] by simp

function free_chain :: "nat \<Rightarrow> (vdisk, unit) kop" where
  "free_chain i s =
     kthen (free_desc i) (\<lambda>t.
       if d_flags (desc s i) AND VRING_DESC_F_NEXT \<noteq> 0 then free_chain (unat (d_next (desc s i))) t
       else Inr ((), t)) s"
  by pat_completeness auto
termination
  by (relation "measure (\<lambda>(i, s). card (taken s))") (auto dest: free_desc_less)

section \<open>A request\<close>

definition blk_req :: "bool \<Rightarrow> u32 \<Rightarrow> virtio_blk_req" where
  "blk_req write bno = \<lparr>rq_type = (if write then VIRTIO_BLK_T_OUT else VIRTIO_BLK_T_IN), rq_reserved = 0,
     rq_sector = ucast (bno * (1024 div 512))\<rparr>"

text \<open>The three descriptors of the request for buffer \<open>b\<close>.\<close>

definition desc_ops :: "nat \<Rightarrow> nat \<Rightarrow> virtq_desc" where
  "desc_ops i0 i1 = \<lparr>d_addr = AOps i0, d_len = 16, d_flags = VRING_DESC_F_NEXT, d_next = of_nat i1\<rparr>"

definition desc_data :: "nat \<Rightarrow> bool \<Rightarrow> nat \<Rightarrow> virtq_desc" where
  "desc_data b write i2 = \<lparr>d_addr = AData b, d_len = of_nat BSIZE,
     d_flags = (if write then 0 else VRING_DESC_F_WRITE) OR VRING_DESC_F_NEXT, d_next = of_nat i2\<rparr>"

definition desc_status :: "nat \<Rightarrow> virtq_desc" where
  "desc_status i0 = \<lparr>d_addr = AStatus i0, d_len = 1, d_flags = VRING_DESC_F_WRITE, d_next = 0\<rparr>"

definition submit :: "nat \<Rightarrow> bool \<Rightarrow> nat list \<Rightarrow> vdisk \<Rightarrow> vdisk" where
  "submit b write idx s = (let i0 = idx ! 0; i1 = idx ! 1; i2 = idx ! 2 in
     s\<lparr>ops := (ops s)(i0 := blk_req write (bno_of s b)),
       desc := (desc s)(i0 := desc_ops i0 i1, i1 := desc_data b write i2, i2 := desc_status i0),
       info_status := (info_status s)(i0 := 0xff),
       bdisk := (bdisk s)(b := True),
       info_b := (info_b s)(i0 := Some b),
       avail := \<lparr>av_idx = av_idx (avail s) + 1,
         av_ring = (av_ring (avail s))[unat (av_idx (avail s)) mod NUM := of_nat i0]\<rparr>\<rparr>)"

text \<open>
  \<open>disk_rw\<close> up to its first \<open>proc::sleep\<close>: \<open>None\<close> when it sleeps on \<open>&disk.free[0]\<close> for
  descriptors, and the descriptors when the request is published and it waits for the buffer.
\<close>

definition disk_rw_submit :: "nat \<Rightarrow> bool \<Rightarrow> (vdisk, nat list option) kop" where
  "disk_rw_submit b write = kbind alloc3_desc (\<lambda>r. case r of
       None \<Rightarrow> kreturn None
     | Some idx \<Rightarrow> kthen (kmodify (submit b write idx)) (kreturn (Some idx)))"

text \<open>The end of \<open>disk_rw\<close>, after \<open>b->disk\<close> has been cleared.\<close>

definition disk_rw_finish :: "nat \<Rightarrow> (vdisk, unit) kop" where
  "disk_rw_finish i0 = kthen (kmodify (\<lambda>s. s\<lparr>info_b := (info_b s)(i0 := None)\<rparr>)) (free_chain i0)"

section \<open>The interrupt handler\<close>

text \<open>The loop over the used ring; it returns the buffers for which it called \<open>proc::wakeup\<close>.\<close>

function intr_loop :: "nat list \<Rightarrow> (vdisk, nat list) kop" where
  "intr_loop ws s =
     (if used_idx s \<noteq> us_idx (used s) then
        let id = unat (us_ring (used s) ! (unat (used_idx s) mod NUM)) in
        if id \<ge> NUM then Inl (Oob ''disk.info'')
        else if info_status s id \<noteq> 0 then Inl (Panic ''virtio_disk_intr status'')
        else case info_b s id of
          None \<Rightarrow> Inl (Oob ''nullptr'')
        | Some b \<Rightarrow> intr_loop (ws @ [b]) (s\<lparr>bdisk := (bdisk s)(b := False), used_idx := used_idx s + 1\<rparr>)
      else Inr (ws, s))"
  by pat_completeness auto
termination
proof (relation "measure (\<lambda>(ws, s). unat (us_idx (used s) - used_idx s))", simp, goal_cases)
  case (1 ws s id b)
  then show ?case using ring_get_count [of "used_idx s" "us_idx (used s)"]
    by (simp add: unat_gt_0)
qed

text \<open>The acknowledged bits of the interrupt status register, and the loop.\<close>

definition virtio_disk_intr :: "u32 \<Rightarrow> (vdisk, (u32 \<times> u32) \<times> nat list) kop" where
  "virtio_disk_intr status = kbind (intr_loop []) (\<lambda>ws.
     kreturn ((VIRTIO_MMIO_INTERRUPT_ACK, status AND 3), ws))"

end
