(* ===== verification/Trap.thy ===== *)
theory Trap
  imports Sysfile Virtio Console
begin

text \<open>
  Traps and interrupts, \<open>kernel/trap.cpp\<close>, the interrupt controller, \<open>kernel/plic.cpp\<close>, and the
  start of the machine, \<open>kernel/main.cpp\<close>.  The state adds to that of the kernel the registers of
  the hart that takes the trap, the console, the serial port and the disk driver.  The
  registers of the interrupt controller are outside of the program: the value that a claim
  reads is a parameter, writes are recorded.  Interrupts of the serial port and the disk run
  to their end inside the step that takes them.
\<close>

datatype mmio = W32 u64 u32 | W64 u64 u64

text \<open>The addresses that the linker gives, and what the devices return.\<close>

record tenv =
  t_k :: kenv
  t_kernelvec :: u64
  t_uservec :: u64
  t_userret :: u64
  t_user_trap :: u64
  t_ticks_at :: u64
  t_claim :: u32
  t_lsr :: "nat \<Rightarrow> u8"
  t_rhr :: "nat \<Rightarrow> u8"
  t_vstatus :: u32

record tstate =
  tk :: kstate
  th :: hart
  has_proc :: bool
  ticks :: u32
  tcons :: cons
  tuart :: uart
  tvd :: vdisk
  tmmio :: "mmio list"

definition on_k :: "(kstate, 'a) kop \<Rightarrow> (tstate, 'a) kop" where
  "on_k m = (\<lambda>s. case m (tk s) of Inl e \<Rightarrow> Inl e | Inr (a, k) \<Rightarrow> Inr (a, s\<lparr>tk := k\<rparr>))"

definition on_h :: "(hart \<Rightarrow> hart) \<Rightarrow> (tstate, unit) kop" where
  "on_h f = kmodify (\<lambda>s. s\<lparr>th := f (th s)\<rparr>)"

section \<open>The interrupt controller\<close>

definition cpuid :: "hart \<Rightarrow> u32" where
  "cpuid h = ucast (r_tp h)"

definition set_plic_senable :: "u32 \<Rightarrow> u32 \<Rightarrow> mmio" where
  "set_plic_senable hart value = W32 (ucast (hart * 0x100) + PLIC + 0x2080) value"

definition set_plic_spriority :: "u32 \<Rightarrow> u32 \<Rightarrow> mmio" where
  "set_plic_spriority hart value = W32 (ucast (hart * 0x2000) + PLIC + 0x201000) value"

definition plic_claim_addr :: "u32 \<Rightarrow> u64" where
  "plic_claim_addr hart = ucast (hart * 0x2000) + PLIC + 0x201004"

text \<open>The completion is written as 64 bits, over the register and the four bytes behind it.\<close>

definition set_plic_sclaim :: "u32 \<Rightarrow> u32 \<Rightarrow> mmio" where
  "set_plic_sclaim hart value = W64 (plic_claim_addr hart) (ucast value)"

definition plic_init :: "mmio list" where
  "plic_init = [W32 (PLIC + UART_IRQ * 4) 1, W32 (PLIC + VIRTIO_IRQ * 4) 1]"

definition plic_inithart :: "u32 \<Rightarrow> mmio list" where
  "plic_inithart i =
     [set_plic_senable i (push_bit (unat UART_IRQ) 1 OR push_bit (unat VIRTIO_IRQ) 1), set_plic_spriority i 0]"

definition plic_complete :: "u32 \<Rightarrow> (tstate, unit) kop" where
  "plic_complete irq = kmodify (\<lambda>s. s\<lparr>tmmio := tmmio s @ [set_plic_sclaim (cpuid (th s)) irq]\<rparr>)"

section \<open>Device interrupts\<close>

definition trap_inithart :: "tenv \<Rightarrow> hart \<Rightarrow> hart" where
  "trap_inithart e = w_stvec (t_kernelvec e)"

definition clockintr :: "tenv \<Rightarrow> (tstate, unit) kop" where
  "clockintr e =
     kthen (\<lambda>s. kwhen (cpuid (th s) = 0)
         (kthen (kmodify (\<lambda>s. s\<lparr>ticks := ticks s + 1\<rparr>)) (on_k (wakeup (Some (ChAddr (t_ticks_at e)))))) s)
       (on_h (\<lambda>h. w_stimecmp (r_time h + 1000000) h))"

definition uart_irq :: "tenv \<Rightarrow> (tstate, unit) kop" where
  "uart_irq e = (\<lambda>s. case uart_intr (t_lsr e) (t_rhr e) (tcons s) (tuart s) of
       None \<Rightarrow> Inl Diverges
     | Some (c, u) \<Rightarrow> Inr ((), s\<lparr>tcons := c, tuart := u\<rparr>))"

text \<open>The disk interrupt wakes the processes that sleep on the buffers.\<close>

definition disk_irq :: "tenv \<Rightarrow> (tstate, unit) kop" where
  "disk_irq e = (\<lambda>s. case virtio_disk_intr (t_vstatus e) (tvd s) of
       Inl err \<Rightarrow> Inl err
     | Inr (((reg, v), ws), d) \<Rightarrow>
         on_k (kfor (\<lambda>b k. wakeup (Some (ChAddr (buf_at k b))) k) ws)
           (s\<lparr>tvd := d, tmmio := tmmio s @ [W32 (VIRTIO0 + ucast reg) v]\<rparr>))"

definition devintr :: "tenv \<Rightarrow> (tstate, nat) kop" where
  "devintr e = (\<lambda>s. let scause = r_scause (th s); irq = t_claim e in
     if scause = 0x8000000000000009 then
       kthen (if sint irq = sint (ucast UART_IRQ :: u32) then uart_irq e
              else if sint irq = sint (ucast VIRTIO_IRQ :: u32) then disk_irq e
              else kreturn ())
       (kthen (kwhen (irq \<noteq> 0) (plic_complete irq)) (kreturn 1)) s
     else if scause = 0x8000000000000005 then kthen (clockintr e) (kreturn 2) s
     else Inr (0, s))"

section \<open>Traps\<close>

definition set_frame :: "u64 \<Rightarrow> (tstate \<Rightarrow> u64) \<Rightarrow> (tstate, unit) kop" where
  "set_frame off v = (\<lambda>s. on_k (set_tf (p_trapframe (curr_proc (tk s))) off (v s)) s)"

text \<open>\<open>user_ret\<close>: the registers for the return, and the argument and target of the jump to the trampoline.\<close>

definition user_ret :: "tenv \<Rightarrow> (tstate, u64 \<times> u64) kop" where
  "user_ret e =
     kthen (on_h intr_off)
     (kthen (on_h (w_stvec (TRAMPOLINE + (t_uservec e - k_trampoline (t_k e)))))
     (kthen (set_frame TF_kernel_satp (\<lambda>s. r_satp (th s)))
     (kthen (set_frame TF_kernel_sp (\<lambda>s. p_kernel_stack (curr_proc (tk s)) + PG))
     (kthen (set_frame TF_kernel_trap (\<lambda>_. t_user_trap e))
     (kthen (set_frame TF_kernel_hartid (\<lambda>s. r_tp (th s)))
     (kthen (on_h (\<lambda>h. w_sstatus ((r_sstatus h AND ucast (NOT SSTATUS_SPP)) OR ucast SSTATUS_SPIE) h))
     (kthen (\<lambda>s. on_h (w_sepc (get_tf (p_trapframe (curr_proc (tk s))) TF_epc (tk s))) s)
     (kgets (\<lambda>s. (MAKE_SATP (p_pagetable (curr_proc (tk s))),
        TRAMPOLINE + (t_userret e - k_trampoline (t_k e))))))))))))"

text \<open>How \<open>user_trap\<close> ends: in the jump to user space, in \<open>exit\<close>, or in \<open>yield\<close> before \<open>user_ret\<close>.\<close>

datatype trap_end = ToUser u64 u64 | Exited | Yielded

definition user_exit :: "(tstate, trap_end) kop" where
  "user_exit = kthen (on_k (proc_exit (- 1))) (kreturn Exited)"

text \<open>The part behind the cause of the trap has been dealt with.\<close>

definition user_trap_end :: "tenv \<Rightarrow> nat \<Rightarrow> (tstate, trap_end) kop" where
  "user_trap_end e which_dev = (\<lambda>s.
     if get_killed (cur (tk s)) (tk s) then user_exit s
     else if which_dev = 2
     then kthen (on_k (\<lambda>k. upd_proc (cur k) (\<lambda>p. p\<lparr>p_status := RUNNABLE\<rparr>) k)) (kreturn Yielded) s
     else kbind (user_ret e) (\<lambda>(satp, pc). kreturn (ToUser satp pc)) s)"

definition user_trap :: "tenv \<Rightarrow> (tstate, trap_end) kop" where
  "user_trap e = (\<lambda>s.
     if r_sstatus (th s) AND ucast SSTATUS_SPP \<noteq> 0 then Inl (Panic ''user_trap: not from user mode'')
     else kthen (on_h (w_stvec (t_kernelvec e)))
     (kthen (set_frame TF_epc (\<lambda>s. r_sepc (th s))) (\<lambda>s.
      if r_scause (th s) = 8 then
        if get_killed (cur (tk s)) (tk s) then user_exit s
        else kthen (set_frame TF_epc (\<lambda>s. get_tf (p_trapframe (curr_proc (tk s))) TF_epc (tk s) + 4))
          (kthen (on_h intr_on) (kbind (on_k (syscall (t_k e))) (\<lambda>returned.
             if returned then user_trap_end e 0 else kreturn Exited))) s
      else kbind (devintr e) (\<lambda>d.
        if d \<noteq> 0 then user_trap_end e d
        else kthen (\<lambda>s. on_k (set_killed (cur (tk s))) s) (user_trap_end e 0)) s)) s)"

text \<open>
  A trap in the kernel.  \<open>others\<close> is what the rest of the system does while the process that was
  interrupted by the timer has yielded the hart.
\<close>

definition kerneltrap :: "tenv \<Rightarrow> (tstate \<Rightarrow> tstate) \<Rightarrow> (tstate, unit) kop" where
  "kerneltrap e others = (\<lambda>s.
     if intr_get (th s) then Inl (Panic ''kerneltrap: interrupts enabled'')
     else let sepc = r_sepc (th s); sstatus = r_sstatus (th s) in
     if sstatus AND ucast SSTATUS_SPP = 0 then Inl (Panic ''kerneltrap: not from supervisor mode'')
     else kbind (devintr e) (\<lambda>d s.
       if d = 0 then Inl (Panic ''trap::kerneltrap'')
       else kthen (kwhen (d = 2 \<and> has_proc s)
           (kthen (on_k (\<lambda>k. upd_proc (cur k) (\<lambda>p. p\<lparr>p_status := RUNNABLE\<rparr>) k)) (kmodify others)))
         (kthen (on_h (w_sepc sepc)) (on_h (w_sstatus sstatus))) s) s)"

section \<open>Start of the machine\<close>

definition timerinit :: "hart \<Rightarrow> hart" where
  "timerinit h =
     (let h = w_mie (r_mie h OR MIE_STIE) h; h = w_menvcfg (r_menvcfg h OR push_bit 63 1) h;
          h = w_mcounteren (r_mcounteren h OR 2) h
      in w_stimecmp (r_time h + 1000000) h)"

text \<open>\<open>start\<close> up to \<open>mret\<close>, with the address of \<open>main\<close>.\<close>

definition start_hart :: "u64 \<Rightarrow> hart \<Rightarrow> hart" where
  "start_hart main h =
     (let h = w_mstatus ((r_mstatus h AND NOT MSTATUS_MPP_MASK) OR MSTATUS_MPP_S) h;
          h = w_mepc main h; h = w_satp 0 h; h = w_medeleg 0xffff h; h = w_mideleg 0xffff h;
          h = w_sie (r_sie h OR SIE_SEIE OR SIE_STIE OR SIE_SSIE) h;
          h = w_pmpaddr0 0x3fffffffffffff h; h = w_pmpcfg0 0xf h; h = timerinit h
      in w_tp (r_mhartid h) h)"

text \<open>
  \<open>main\<close> on hart 0 up to the scheduler, and on the other harts once hart 0 has set \<open>started\<close>.
  \<open>kend\<close> and \<open>etext\<close> are linker symbols, \<open>psize\<close> is \<open>sizeof(struct process)\<close>, \<open>rd\<close> the registers of the disk.
\<close>

definition main_hart0 :: "tenv \<Rightarrow> u64 \<Rightarrow> u64 \<Rightarrow> int \<Rightarrow> (u32 \<Rightarrow> u32) \<Rightarrow> (tstate, unit) kop" where
  "main_hart0 e kend etext psize rd =
     kthen (kmodify (\<lambda>s. s\<lparr>tuart := uart_init (tuart s)\<rparr>))
     (kthen (on_k (on_vm (kinit kend)))
     (kthen (on_k (on_vm (vm_init etext (k_trampoline (t_k e)) psize)))
     (kthen (\<lambda>s. on_h (inithart (kvm (tk s))) s)
     (kthen (on_k (proc_init psize))
     (kthen (on_h (trap_inithart e))
     (kthen (kmodify (\<lambda>s. s\<lparr>tmmio := tmmio s @ plic_init @ plic_inithart (cpuid (th s))\<rparr>))
     (kthen (on_k (kmodify bio_init))
     (kbind (on_k (on_vm (virtio_init rd))) (\<lambda>(ws, _).
      kthen (kmodify (\<lambda>s. s\<lparr>tmmio := tmmio s @ map (\<lambda>(r, v). W32 (VIRTIO0 + ucast r) v) ws,
          tvd := vdisk_boot (bno_of (tvd s))\<rparr>))
        (on_k (user_init (k_trampoline (t_k e)) (k_forkret (t_k e)))))))))))))"

definition main_other :: "tenv \<Rightarrow> (tstate, unit) kop" where
  "main_other e =
     kthen (\<lambda>s. on_h (inithart (kvm (tk s))) s)
     (kthen (on_h (trap_inithart e))
       (kmodify (\<lambda>s. s\<lparr>tmmio := tmmio s @ plic_inithart (cpuid (th s))\<rparr>)))"

end
