(* ===== verification/Sched.thy ===== *)
theory Sched
  imports Proc
begin

text \<open>
  The invariant of the scheduler in theory \<open>Proc\<close>: the lock of a process table entry is held by
  the hart that is between choosing and entering it or between leaving and giving it up, an
  entry is \<open>RUNNING\<close> exactly while a hart enters or runs it, and no two harts are on the kernel
  stack of one process.
\<close>

definition holds_plock :: "hpc \<Rightarrow> nat \<Rightarrow> bool" where
  "holds_plock q i \<longleftrightarrow> q = Chosen i \<or> q = Entering i \<or> q = Leaving i \<or> q = Back i"

definition active :: "hpc \<Rightarrow> nat \<Rightarrow> bool" where
  "active q i \<longleftrightarrow> q = Entering i \<or> q = Running i"

text \<open>A hart is on the kernel stack of process \<open>i\<close> from the switch to it to the switch back.\<close>

definition on_stack :: "nat \<Rightarrow> psys \<Rightarrow> nat \<Rightarrow> bool" where
  "on_stack i s c \<longleftrightarrow> active (hpcs s c) i \<or> hpcs s c = Leaving i"

definition psched_start :: "(nat \<Rightarrow> process) \<Rightarrow> psys" where
  "psched_start tab = \<lparr>ptab = (\<lambda>i. (tab i)\<lparr>p_status := UNUSED\<rparr>), plock = (\<lambda>_. None),
     cproc = (\<lambda>_. None), hpcs = (\<lambda>_. Idle)\<rparr>"

definition psched_inv :: "psys \<Rightarrow> bool" where
  "psched_inv s \<longleftrightarrow>
     (\<forall>c i. holds_plock (hpcs s c) i \<longleftrightarrow> plock s i = Some c)
     \<and> (\<forall>i. p_status (ptab s i) = RUNNING \<longleftrightarrow> (\<exists>c. active (hpcs s c) i))
     \<and> (\<forall>c d i. active (hpcs s c) i \<longrightarrow> active (hpcs s d) i \<longrightarrow> c = d)
     \<and> (\<forall>c i. hpcs s c = Leaving i \<longrightarrow> p_status (ptab s i) \<noteq> RUNNING)
     \<and> (\<forall>c i. cproc s c = Some i \<longleftrightarrow> on_stack i s c \<or> hpcs s c = Back i)"

lemmas psched_defs = psched_inv_def holds_plock_def active_def on_stack_def move_def upd_ptab_def

lemma psched_inv_start: "psched_inv (psched_start tab)"
  by (simp add: psched_defs psched_start_def)

text \<open>A step that moves no hart keeps the invariant when it does not touch \<open>RUNNING\<close>.\<close>

lemma psched_inv_entry:
  assumes "psched_inv s" and "p_status (f (ptab s i)) = RUNNING \<longleftrightarrow> p_status (ptab s i) = RUNNING"
  shows "psched_inv (upd_ptab i f s)"
  using assms by (auto simp: psched_defs)

text \<open>
  A hart \<open>c\<close> that moves on, with the lock of entry \<open>i\<close>: where it was and where it goes concerns
  no other entry, and the entry is \<open>RUNNING\<close> afterwards if the hart is active on it.
\<close>

definition about :: "nat \<Rightarrow> hpc \<Rightarrow> bool" where
  "about i q \<longleftrightarrow> (\<forall>j. j \<noteq> i \<longrightarrow> \<not> holds_plock q j \<and> \<not> active q j)"

lemma about_simps [simp]:
  "about i Idle" "about i (Chosen j) \<longleftrightarrow> i = j" "about i (Entering j) \<longleftrightarrow> i = j" "about i (Running j) \<longleftrightarrow> i = j"
  "about i (Leaving j) \<longleftrightarrow> i = j" "about i (Back j) \<longleftrightarrow> i = j"
  by (auto simp: about_def holds_plock_def active_def)

lemma hpc_simps [simp]:
  "\<not> holds_plock Idle i" "holds_plock (Chosen j) i \<longleftrightarrow> i = j" "holds_plock (Entering j) i \<longleftrightarrow> i = j"
  "\<not> holds_plock (Running j) i" "holds_plock (Leaving j) i \<longleftrightarrow> i = j" "holds_plock (Back j) i \<longleftrightarrow> i = j"
  "\<not> active Idle i" "\<not> active (Chosen j) i" "active (Entering j) i \<longleftrightarrow> i = j" "active (Running j) i \<longleftrightarrow> i = j"
  "\<not> active (Leaving j) i" "\<not> active (Back j) i"
  by (auto simp: holds_plock_def active_def)

lemma psched_inv_move:
  assumes inv: "psched_inv s"
    and t: "hpcs t = (hpcs s)(c := q)" "plock t = (plock s)(i := if holds_plock q i then Some c else None)"
      "\<And>j. j \<noteq> i \<Longrightarrow> ptab t j = ptab s j"
      "cproc t = (cproc s)(c := if active q i \<or> q = Leaving i \<or> q = Back i then Some i else None)"
    and ab: "about i q" "about i (hpcs s c)"
    and lk: "plock s i = None \<or> plock s i = Some c"
    and st: "if active q i \<or> active (hpcs s c) i then p_status (ptab t i) = RUNNING \<longleftrightarrow> active q i
      else ptab t i = ptab s i"
    and lv: "q = Leaving i \<Longrightarrow> active (hpcs s c) i"
    and new: "active q i \<Longrightarrow> active (hpcs s c) i \<or> p_status (ptab s i) \<noteq> RUNNING"
  shows "psched_inv t"
proof -
  have L: "\<And>d j. holds_plock (hpcs s d) j \<longleftrightarrow> plock s j = Some d"
    and R: "\<And>j. p_status (ptab s j) = RUNNING \<longleftrightarrow> (\<exists>d. active (hpcs s d) j)"
    and U: "\<And>d d' j. active (hpcs s d) j \<Longrightarrow> active (hpcs s d') j \<Longrightarrow> d = d'"
    and V: "\<And>d j. hpcs s d = Leaving j \<Longrightarrow> p_status (ptab s j) \<noteq> RUNNING"
    and P: "\<And>d j. cproc s d = Some j \<longleftrightarrow> on_stack j s d \<or> hpcs s d = Back j"
    using inv by (auto simp: psched_inv_def)
  have only: "d = c" if "active q i \<or> active (hpcs s c) i" "active (hpcs s d) i" for d
    using that new R U by blast
  have "holds_plock (hpcs t d) j \<longleftrightarrow> plock t j = Some d" for d j
    using L [of d j] lk ab L [of c j] by (cases "d = c"; cases "j = i") (auto simp: t about_def)
  moreover have "p_status (ptab t j) = RUNNING \<longleftrightarrow> (\<exists>d. active (hpcs t d) j)" for j
  proof (cases "j = i")
    case True
    then show ?thesis using st R [of i] only by (cases "active q i \<or> active (hpcs s c) i") (auto simp: t split: if_splits)
  next
    case False
    then show ?thesis using R [of j] ab by (auto simp: t about_def)
  qed
  moreover have "d = d'" if "active (hpcs t d) j" "active (hpcs t d') j" for d d' j
    using that only U ab by (cases "j = i") (auto simp: t about_def split: if_splits)
  moreover have "p_status (ptab t j) \<noteq> RUNNING" if "hpcs t d = Leaving j" for d j
  proof (cases "d = c")
    case True
    then have "j = i" "q = Leaving i" using that ab by (auto simp: t)
    then show ?thesis using lv st by simp
  next
    case False
    then have "hpcs s d = Leaving j" using that by (simp add: t)
    then show ?thesis using V [of d j] L [of d j] lk False by (cases "j = i") (auto simp: t)
  qed
  moreover have "cproc t d = Some j \<longleftrightarrow> on_stack j t d \<or> hpcs t d = Back j" for d j
    using P [of d j] ab by (cases "d = c"; cases "j = i") (auto simp: t about_def on_stack_def holds_plock_def)
  ultimately show ?thesis unfolding psched_inv_def by blast
qed

lemma psched_inv_lock: "psched_inv s \<Longrightarrow> holds_plock (hpcs s c) i \<Longrightarrow> plock s i = Some c"
  by (simp add: psched_inv_def)

lemma psched_inv_running: "psched_inv s \<Longrightarrow> active (hpcs s c) i \<Longrightarrow> p_status (ptab s i) = RUNNING"
  unfolding psched_inv_def by blast

lemma psched_inv_cproc:
  assumes "psched_inv s"
  shows "active (hpcs s c) i \<Longrightarrow> cproc s c = Some i"
    and "hpcs s c = Leaving i \<Longrightarrow> cproc s c = Some i"
    and "hpcs s c = Idle \<Longrightarrow> cproc s c = None"
    and "hpcs s c = Chosen i \<Longrightarrow> cproc s c = None"
proof -
  have P: "cproc s c = Some j \<longleftrightarrow> on_stack j s c \<or> hpcs s c = Back j" for j
    using assms by (simp add: psched_inv_def)
  show "active (hpcs s c) i \<Longrightarrow> cproc s c = Some i" "hpcs s c = Leaving i \<Longrightarrow> cproc s c = Some i"
    by (simp_all add: P on_stack_def)
  show "hpcs s c = Idle \<Longrightarrow> cproc s c = None" "hpcs s c = Chosen i \<Longrightarrow> cproc s c = None"
    using P by (cases "cproc s c"; simp add: on_stack_def)+
qed

lemma psched_inv_exclusive:
  assumes inv: "psched_inv s" and "on_stack i s c" "on_stack i s d"
  shows "c = d"
proof (cases "active (hpcs s c) i \<or> active (hpcs s d) i")
  case True
  then have "hpcs s c \<noteq> Leaving i" "hpcs s d \<noteq> Leaving i"
    using inv psched_inv_running [OF inv] by (auto simp: psched_inv_def)
  then have "active (hpcs s c) i" "active (hpcs s d) i" using assms by (auto simp: on_stack_def)
  then show ?thesis using inv unfolding psched_inv_def by blast
next
  case False
  then have "holds_plock (hpcs s c) i" "holds_plock (hpcs s d) i" using assms by (auto simp: on_stack_def)
  then show ?thesis using psched_inv_lock [OF inv] by (metis option.inject)
qed

lemma psched_step_inv:
  assumes "psched_step s t" and inv: "psched_inv s"
  shows "psched_inv t"
  using assms(1)
proof cases
  case (choose c i)
  then show ?thesis using psched_inv_cproc(3) [OF inv] by (intro psched_inv_move [OF inv, of t c "Chosen i" i]) (auto simp: move_def)
next
  case (skip c i)
  then show ?thesis using psched_inv_cproc(4) [OF inv] psched_inv_lock [OF inv, of c i]
    by (intro psched_inv_move [OF inv, of t c Idle i]) (auto simp: move_def)
next
  case (run c i)
  then show ?thesis using psched_inv_lock [OF inv, of c i]
    by (intro psched_inv_move [OF inv, of t c "Entering i" i]) (auto simp: move_def upd_ptab_def)
next
  case (enter c i)
  moreover have "p_status (ptab s i) = RUNNING" using psched_inv_running [OF inv, of c i] enter by simp
  ultimately show ?thesis using psched_inv_cproc(1) [OF inv, of c i] psched_inv_lock [OF inv, of c i]
    by (intro psched_inv_move [OF inv, of t c "Running i" i]) (auto simp: move_def)
next
  case (resume c i)
  moreover have "p_status (ptab s i) = RUNNING" using psched_inv_running [OF inv, of c i] resume by simp
  ultimately show ?thesis using psched_inv_cproc(1) [OF inv, of c i] psched_inv_lock [OF inv, of c i]
    by (intro psched_inv_move [OF inv, of t c "Running i" i]) (auto simp: move_def upd_ptab_def)
next
  case (returned c i)
  then show ?thesis using psched_inv_lock [OF inv, of c i]
    by (intro psched_inv_move [OF inv, of t c Idle i]) (auto simp: move_def)
next
  case (yield c i)
  then show ?thesis using psched_inv_cproc(1) [OF inv, of c i]
    by (intro psched_inv_move [OF inv, of t c "Leaving i" i]) (auto simp: move_def upd_ptab_def)
next
  case (sleep c i ch)
  then show ?thesis using psched_inv_cproc(1) [OF inv, of c i]
    by (intro psched_inv_move [OF inv, of t c "Leaving i" i]) (auto simp: move_def upd_ptab_def fall_asleep_def)
next
  case (exit c i x)
  then show ?thesis using psched_inv_cproc(1) [OF inv, of c i]
    by (intro psched_inv_move [OF inv, of t c "Leaving i" i]) (auto simp: move_def upd_ptab_def)
next
  case (swtch c i)
  then show ?thesis using psched_inv_cproc(2) [OF inv, of c i] psched_inv_lock [OF inv, of c i]
    by (intro psched_inv_move [OF inv, of t c "Back i" i]) (auto simp: move_def)
qed (auto intro!: psched_inv_entry [OF inv] simp: wake_one_def kill_one_def cleared_def Let_def split: if_splits)

interpretation psched: mutex_system "psched_start tab" psched_step "on_stack i" psched_inv
proof
  show "psched_inv (psched_start tab)" by (rule psched_inv_start)
  show "psched_inv s \<Longrightarrow> psched_step s t \<Longrightarrow> psched_inv t" for s t by (rule psched_step_inv)
  show "psched_inv s \<Longrightarrow> on_stack i s c \<Longrightarrow> on_stack i s d \<Longrightarrow> c = d" for s c d
    by (rule psched_inv_exclusive)
qed

text \<open>
  C8: no process runs on two harts.  However the harts interleave the scheduler, \<open>yield\<close>,
  \<open>sleep\<close>, \<open>exit\<close>, \<open>wakeup\<close>, \<open>kill\<close>, \<open>fork\<close> and \<open>wait\<close>, at most one of them is on the kernel stack of a
  process, from the switch to it until the switch back has saved its context; that hart has
  the process as its \<open>cpu.proc\<close>, and an entry is \<open>RUNNING\<close> exactly while a hart enters or runs it.
\<close>

theorem psched_exclusive:
  assumes "psched_step\<^sup>*\<^sup>* (psched_start tab) s"
  shows "(on_stack i s c \<longrightarrow> on_stack i s d \<longrightarrow> c = d) \<and> (on_stack i s c \<longrightarrow> cproc s c = Some i)
    \<and> (p_status (ptab s i) = RUNNING \<longleftrightarrow> (\<exists>h. hpcs s h = Entering i \<or> hpcs s h = Running i))"
proof -
  have inv: "psched_inv s" using assms by (rule psched.reach_invar)
  then have "p_status (ptab s i) = RUNNING \<longleftrightarrow> (\<exists>h. active (hpcs s h) i)" by (simp add: psched_inv_def)
  moreover have "on_stack i s c \<Longrightarrow> cproc s c = Some i"
    using psched_inv_cproc(1,2) [OF inv] by (auto simp: on_stack_def)
  ultimately show ?thesis using psched.mutual_exclusion [OF assms] by (auto simp: active_def)
qed

definition blank_proc :: process where
  "blank_proc = \<lparr>p_name = replicate 32 0, p_status = UNUSED, p_pid = 0, p_chan = None, p_killed = False,
     p_xstate = 0, p_user = None, p_parent = None, p_kernel_stack = 0, p_sz = 0, p_pagetable = 0,
     p_trapframe = 0, p_context = \<lparr>c_ra = 0, c_sp = 0, c_saved = []\<rparr>, p_ofile = replicate 16 None, p_cwd = None\<rparr>"

theorem psched_exclusive_witness:
  "\<exists>s. psched_step\<^sup>*\<^sup>* (psched_start (\<lambda>_. blank_proc)) s \<and> on_stack 3 s 1 \<and> \<not> on_stack 3 s 0
     \<and> p_status (ptab s 3) = RUNNING"
proof -
  define s1 where "s1 = upd_ptab 3 (\<lambda>p. p\<lparr>p_pid := 7, p_status := USED\<rparr>) (psched_start (\<lambda>_. blank_proc))"
  define s2 where "s2 = upd_ptab 3 (\<lambda>p. p\<lparr>p_status := RUNNABLE\<rparr>) s1"
  define s3 where "s3 = move 1 (Chosen 3) 3 (Some 1) s2"
  define s4 where "s4 = move 1 (Entering 3) 3 (Some 1)
    (upd_ptab 3 (\<lambda>p. p\<lparr>p_status := RUNNING\<rparr>) (s3\<lparr>cproc := (cproc s3)(1 := Some 3)\<rparr>))"
  note st = psched_start_def upd_ptab_def move_def
  have "psched_step (psched_start (\<lambda>_. blank_proc)) s1"
    unfolding s1_def by (rule psched_step.alloc) (simp_all add: st)
  moreover have "psched_step s1 s2"
    unfolding s2_def by (rule psched_step.ready) (simp_all add: s1_def st)
  moreover have "psched_step s2 s3"
    unfolding s3_def by (rule psched_step.choose) (simp_all add: s1_def s2_def st NPROC_def)
  moreover have "psched_step s3 s4"
    unfolding s4_def by (rule psched_step.run) (simp_all add: s1_def s2_def s3_def st)
  ultimately have run: "psched_step\<^sup>*\<^sup>* (psched_start (\<lambda>_. blank_proc)) s4"
    by (meson converse_rtranclp_into_rtranclp rtranclp.rtrancl_refl)
  have "hpcs s4 1 = Entering 3" by (simp add: s4_def move_def)
  moreover from this have "on_stack 3 s4 1" by (simp add: on_stack_def)
  ultimately show ?thesis using psched_exclusive [OF run, of 3 1 0] run
    by (intro exI [of _ s4]) auto
qed

end
