(* ===== verification/Vqueue.thy ===== *)
theory Vqueue
  imports Virtio "HOL-Library.Multiset"
begin

text \<open>
  Processes that use the disk at the same time.  Each runs \<open>disk_rw\<close> in segments between its
  sleeps, the device takes published requests and completes them in any order, and the
  interrupt handler runs between segments; all of them hold \<open>vdisk_lock\<close> for their step.  The
  invariant of the interleavings is that the descriptors in use are exactly the chains of
  the processes that wait, that the chains are disjoint and say what was asked for, and that
  every request is in exactly one place: published, in the device, or completed and not yet
  seen by the driver.
\<close>

section \<open>The interleavings\<close>

datatype vpc = VIdle | VWant nat bool | VNoDesc nat bool | VAsleep nat bool "nat list" | VReady nat bool "nat list"

fun chain_of :: "vpc \<Rightarrow> (nat \<times> bool \<times> nat list) option" where
  "chain_of (VAsleep b w idx) = Some (b, w, idx)"
| "chain_of (VReady b w idx) = Some (b, w, idx)"
| "chain_of _ = None"

fun buf_of :: "vpc \<Rightarrow> nat option" where
  "buf_of VIdle = None"
| "buf_of (VWant b w) = Some b"
| "buf_of (VNoDesc b w) = Some b"
| "buf_of (VAsleep b w idx) = Some b"
| "buf_of (VReady b w idx) = Some b"

record vsys =
  vd :: vdisk
  vpcs :: "nat \<Rightarrow> vpc"
  seen :: u16
  busy :: "nat list"
  vfault :: "fault option"

definition disk_start :: "(nat \<Rightarrow> u32) \<Rightarrow> vsys" where
  "disk_start bnos = \<lparr>vd = vdisk_boot bnos, vpcs = (\<lambda>_. VIdle), seen = 0, busy = [], vfault = None\<rparr>"

text \<open>\<open>proc::wakeup(b)\<close> for the buffers \<open>bs\<close>; \<open>proc::kill\<close> wakes a sleeper, too.\<close>

definition wake_bufs :: "nat list \<Rightarrow> vpc \<Rightarrow> vpc" where
  "wake_bufs bs q = (case q of VAsleep b w idx \<Rightarrow> if b \<in> set bs then VReady b w idx else q | _ \<Rightarrow> q)"

definition kill_wait :: "vpc \<Rightarrow> vpc" where
  "kill_wait q = (case q of VAsleep b w idx \<Rightarrow> VReady b w idx | VNoDesc b w \<Rightarrow> VWant b w | _ \<Rightarrow> q)"

text \<open>
  The device finds the status byte of a request by following the chain from its head, clears
  it and puts the head into the used ring.
\<close>

definition status_of :: "vdisk \<Rightarrow> nat \<Rightarrow> nat option" where
  "status_of d h = (case d_addr (desc d (unat (d_next (desc d (unat (d_next (desc d h))))))) of
     AStatus k \<Rightarrow> Some k | _ \<Rightarrow> None)"

definition dev_complete :: "nat \<Rightarrow> vdisk \<Rightarrow> vdisk" where
  "dev_complete h d = d\<lparr>info_status := (case status_of d h of None \<Rightarrow> info_status d
       | Some k \<Rightarrow> (info_status d)(k := 0)),
     used := \<lparr>us_idx = us_idx (used d) + 1,
       us_ring = (us_ring (used d))[unat (us_idx (used d)) mod NUM := of_nat h]\<rparr>\<rparr>"

text \<open>
  The steps of \<open>disk_rw\<close> at its sleeps: \<open>start\<close> is its call for a buffer that no other request is
  about, \<open>submit\<close> and \<open>nodesc\<close> the part up to the first sleep, \<open>again\<close> and \<open>finish\<close> the loop that waits for
  the buffer and what follows it.  A process in \<open>VNoDesc\<close> sleeps on \<open>&disk.free[0]\<close>.  The code has no
  \<open>proc::wakeup\<close> for that channel: \<open>free_desc\<close> and \<open>free_chain\<close>, which end \<open>disk_rw\<close>, wake nobody, and the
  interrupt handler wakes the buffers only.  So no rule but \<open>kill\<close> moves a process in \<open>VNoDesc\<close>.  \<open>fetch\<close>
  and \<open>complete\<close> are the device.
\<close>

inductive disk_step :: "bool \<Rightarrow> vsys \<Rightarrow> vsys \<Rightarrow> bool" for kills where
  start: "vpcs s p = VIdle \<Longrightarrow> (\<And>q. buf_of (vpcs s q) \<noteq> Some b)
    \<Longrightarrow> disk_step kills s (s\<lparr>vpcs := (vpcs s)(p := VWant b w)\<rparr>)"
| submit: "vpcs s p = VWant b w \<Longrightarrow> disk_rw_submit b w (vd s) = Inr (Some idx, d)
    \<Longrightarrow> disk_step kills s (s\<lparr>vd := d, vpcs := (vpcs s)(p := VAsleep b w idx)\<rparr>)"
| nodesc: "vpcs s p = VWant b w \<Longrightarrow> disk_rw_submit b w (vd s) = Inr (None, d)
    \<Longrightarrow> disk_step kills s (s\<lparr>vd := d, vpcs := (vpcs s)(p := VNoDesc b w)\<rparr>)"
| submit_fault: "vpcs s p = VWant b w \<Longrightarrow> disk_rw_submit b w (vd s) = Inl e
    \<Longrightarrow> disk_step kills s (s\<lparr>vfault := Some e\<rparr>)"
| fetch: "seen s \<noteq> av_idx (avail (vd s))
    \<Longrightarrow> disk_step kills s (s\<lparr>busy := busy s @ [unat (av_ring (avail (vd s)) ! (unat (seen s) mod NUM))],
          seen := seen s + 1\<rparr>)"
| complete: "h \<in> set (busy s)
    \<Longrightarrow> disk_step kills s (s\<lparr>busy := remove1 h (busy s), vd := dev_complete h (vd s)\<rparr>)"
| intr: "virtio_disk_intr st (vd s) = Inr ((ack, ws), d)
    \<Longrightarrow> disk_step kills s (s\<lparr>vd := d, vpcs := (\<lambda>p. wake_bufs ws (vpcs s p))\<rparr>)"
| intr_fault: "virtio_disk_intr st (vd s) = Inl e \<Longrightarrow> disk_step kills s (s\<lparr>vfault := Some e\<rparr>)"
| again: "vpcs s p = VReady b w idx \<Longrightarrow> bdisk (vd s) b
    \<Longrightarrow> disk_step kills s (s\<lparr>vpcs := (vpcs s)(p := VAsleep b w idx)\<rparr>)"
| finish: "vpcs s p = VReady b w idx \<Longrightarrow> \<not> bdisk (vd s) b \<Longrightarrow> disk_rw_finish (idx ! 0) (vd s) = Inr ((), d)
    \<Longrightarrow> disk_step kills s (s\<lparr>vd := d, vpcs := (vpcs s)(p := VIdle)\<rparr>)"
| finish_fault: "vpcs s p = VReady b w idx \<Longrightarrow> \<not> bdisk (vd s) b \<Longrightarrow> disk_rw_finish (idx ! 0) (vd s) = Inl e
    \<Longrightarrow> disk_step kills s (s\<lparr>vfault := Some e\<rparr>)"
| kill: "kills \<Longrightarrow> disk_step kills s (s\<lparr>vpcs := (vpcs s)(p := kill_wait (vpcs s p))\<rparr>)"

section \<open>The operations on descriptors\<close>

lemma alloc_desc_cases:
  obtains (none) "alloc_desc s = Inr (None, s)" "\<forall>i<NUM. \<not> dfree s i"
  | (some) i where "alloc_desc s = Inr (Some i, s\<lparr>dfree := (dfree s)(i := False)\<rparr>)" "i < NUM" "dfree s i"
  by (cases "find (dfree s) [0..<NUM]")
    (auto simp: alloc_desc_def find_None_iff find_Some_iff in_set_conv_nth)

lemma free_desc_ok:
  "i < NUM \<Longrightarrow> \<not> dfree s i \<Longrightarrow>
    free_desc i s = Inr ((), s\<lparr>desc := (desc s)(i := null_desc), dfree := (dfree s)(i := True)\<rparr>)"
  by (simp add: free_desc_def)

text \<open>A failed allocation leaves the same descriptors free and those in use as they were.\<close>

definition same_use :: "vdisk \<Rightarrow> vdisk \<Rightarrow> bool" where
  "same_use s t \<longleftrightarrow> (\<exists>f. t = s\<lparr>desc := f\<rparr> \<and> (\<forall>i. \<not> dfree s i \<longrightarrow> f i = desc s i))"

lemma same_use_refl: "same_use s s"
  unfolding same_use_def by (intro exI [of _ "desc s"]) simp

lemma free_descs_undo:
  assumes "set idx \<subseteq> {..<NUM}" "distinct idx" "\<forall>i\<in>set idx. dfree s i"
  shows "\<exists>t. kfor free_desc idx (s\<lparr>dfree := (\<lambda>i. dfree s i \<and> i \<notin> set idx), desc := f\<rparr>) = Inr ((), t)
    \<and> (\<exists>g. t = s\<lparr>desc := g\<rparr> \<and> (\<forall>i. i \<notin> set idx \<longrightarrow> g i = f i))"
  using assms
proof (induction idx arbitrary: f)
  case Nil
  then show ?case by (auto simp: kreturn_def)
next
  case (Cons j idx)
  let ?s = "s\<lparr>dfree := (\<lambda>i. dfree s i \<and> i \<notin> set (j # idx)), desc := f\<rparr>"
  have eq: "(\<lambda>i. dfree s i \<and> i \<notin> set (j # idx))(j := True) = (\<lambda>i. dfree s i \<and> i \<notin> set idx)"
    using Cons.prems by (auto simp: fun_eq_iff)
  have "free_desc j ?s = Inr ((), s\<lparr>dfree := (\<lambda>i. dfree s i \<and> i \<notin> set idx), desc := f(j := null_desc)\<rparr>)"
    using Cons.prems eq by (subst free_desc_ok) auto
  moreover have "set idx \<subseteq> {..<NUM}" "distinct idx" "\<forall>i\<in>set idx. dfree s i" using Cons.prems by auto
  from Cons.IH [OF this, of "f(j := null_desc)"]
  obtain t g where "kfor free_desc idx (s\<lparr>dfree := (\<lambda>i. dfree s i \<and> i \<notin> set idx), desc := f(j := null_desc)\<rparr>) = Inr ((), t)"
    "t = s\<lparr>desc := g\<rparr>" "\<forall>i. i \<notin> set idx \<longrightarrow> g i = (f(j := null_desc)) i" by blast
  ultimately show ?case by (intro exI [of _ t]) (auto simp: kbind_def)
qed

lemma alloc_loop_desc_spec:
  assumes "set idx \<subseteq> {..<NUM}" "distinct idx" "\<forall>i\<in>set idx. dfree s i"
  shows "(\<exists>t. alloc_loop_desc n idx (s\<lparr>dfree := (\<lambda>i. dfree s i \<and> i \<notin> set idx)\<rparr>) = Inr (None, t) \<and> same_use s t
        \<and> card {i. i < NUM \<and> dfree s i} < n + length idx)
    \<or> (\<exists>is. alloc_loop_desc n idx (s\<lparr>dfree := (\<lambda>i. dfree s i \<and> i \<notin> set idx)\<rparr>)
          = Inr (Some (idx @ is), s\<lparr>dfree := (\<lambda>i. dfree s i \<and> i \<notin> set (idx @ is))\<rparr>)
        \<and> length is = n \<and> set is \<subseteq> {..<NUM} \<and> distinct (idx @ is) \<and> (\<forall>i\<in>set is. dfree s i))"
  using assms
proof (induction n arbitrary: idx)
  case 0
  then show ?case by (simp add: kreturn_def)
next
  case (Suc n)
  let ?s = "s\<lparr>dfree := (\<lambda>i. dfree s i \<and> i \<notin> set idx)\<rparr>"
  show ?case
  proof (cases ?s rule: alloc_desc_cases)
    case none
    have s: "?s = s\<lparr>dfree := (\<lambda>i. dfree s i \<and> i \<notin> set idx), desc := desc s\<rparr>" by simp
    obtain t g where "kfor free_desc idx ?s = Inr ((), t)" "t = s\<lparr>desc := g\<rparr>" "\<forall>i. i \<notin> set idx \<longrightarrow> g i = desc s i"
      using free_descs_undo [OF Suc.prems, of "desc s"] s by auto
    moreover from this have "same_use s t" using Suc.prems(3) by (auto simp: same_use_def)
    moreover have "card {i. i < NUM \<and> dfree s i} \<le> card (set idx)" using none(2) by (intro card_mono) auto
    then have "card {i. i < NUM \<and> dfree s i} < Suc n + length idx" using card_length [of idx] by linarith
    ultimately show ?thesis using none(1) by (simp add: kbind_def kreturn_def)
  next
    case (some i)
    have eq: "?s\<lparr>dfree := (dfree ?s)(i := False)\<rparr> = s\<lparr>dfree := (\<lambda>j. dfree s j \<and> j \<notin> set (idx @ [i]))\<rparr>"
      by (auto simp: fun_eq_iff)
    have "alloc_loop_desc (Suc n) idx ?s
        = alloc_loop_desc n (idx @ [i]) (s\<lparr>dfree := (\<lambda>j. dfree s j \<and> j \<notin> set (idx @ [i]))\<rparr>)"
      using some(1) eq by (simp add: kbind_def)
    moreover have "set (idx @ [i]) \<subseteq> {..<NUM}" "distinct (idx @ [i])" "\<forall>j\<in>set (idx @ [i]). dfree s j"
      using Suc.prems some(2,3) by auto
    note Suc.IH [OF this]
    ultimately show ?thesis
    proof (elim disjE exE conjE, goal_cases)
      case (1 t)
      then show ?case by (metis add_Suc add_Suc_right length_append_singleton)
    next
      case (2 js)
      then show ?case using some(2,3)
        by (intro disjI2 exI [of _ "i # js"]) (simp del: alloc_loop_desc.simps set_append)
    qed
  qed
qed

lemma alloc3_desc_cases:
  obtains (none) t where "alloc3_desc s = Inr (None, t)" "same_use s t" "card {i. i < NUM \<and> dfree s i} < 3"
  | (some) a b c where "alloc3_desc s = Inr (Some [a, b, c], s\<lparr>dfree := (\<lambda>i. dfree s i \<and> i \<notin> {a, b, c})\<rparr>)"
      "{a, b, c} \<subseteq> {..<NUM}" "distinct [a, b, c]" "dfree s a" "dfree s b" "dfree s c"
  using alloc_loop_desc_spec [of "[]" s 3]
  by (auto simp: alloc3_desc_def length_Suc_conv numeral_3_eq_3 simp del: alloc_loop_desc.simps)

lemma disk_rw_submit_cases:
  obtains (none) t where "disk_rw_submit b w s = Inr (None, t)" "same_use s t" "card {i. i < NUM \<and> dfree s i} < 3"
  | (some) i j k where
      "disk_rw_submit b w s = Inr (Some [i, j, k], submit b w [i, j, k] (s\<lparr>dfree := (\<lambda>x. dfree s x \<and> x \<notin> {i, j, k})\<rparr>))"
      "{i, j, k} \<subseteq> {..<NUM}" "distinct [i, j, k]" "dfree s i" "dfree s j" "dfree s k"
  by (cases s rule: alloc3_desc_cases) (auto simp: disk_rw_submit_def kbind_def kreturn_def kmodify_def)

text \<open>The three descriptors of a request as they stay while it is under way.\<close>

definition request_ok :: "vdisk \<Rightarrow> nat \<Rightarrow> bool \<Rightarrow> nat list \<Rightarrow> bool" where
  "request_ok d b w idx \<longleftrightarrow> length idx = 3 \<and> distinct idx \<and> (\<forall>i\<in>set idx. i < NUM \<and> \<not> dfree d i)
     \<and> desc d (idx ! 0) = desc_ops (idx ! 0) (idx ! 1) \<and> desc d (idx ! 1) = desc_data b w (idx ! 2)
     \<and> desc d (idx ! 2) = desc_status (idx ! 0) \<and> ops d (idx ! 0) = blk_req w (bno_of d b)
     \<and> info_b d (idx ! 0) = Some b"

lemma request_head: "request_ok d b w idx \<Longrightarrow> idx ! 0 \<in> set idx \<and> idx ! 1 \<in> set idx \<and> idx ! 2 \<in> set idx"
  by (simp add: request_ok_def)

lemma request_ok_cong:
  assumes "request_ok d b w idx" and "\<And>i. i \<in> set idx \<Longrightarrow> desc t i = desc d i \<and> dfree t i = dfree d i"
    and "ops t (idx ! 0) = ops d (idx ! 0)" "info_b t (idx ! 0) = info_b d (idx ! 0)" "bno_of t = bno_of d"
  shows "request_ok t b w idx"
  using assms request_head [OF assms(1)] by (simp add: request_ok_def)

lemma unat_small [simp]: "i < NUM \<Longrightarrow> unat (of_nat i :: u16) = i" "i < NUM \<Longrightarrow> unat (of_nat i :: u32) = i"
  by (simp_all add: NUM_def unat_of_nat)

lemma desc_flag_next [simp]:
  "d_flags (desc_ops i j) AND VRING_DESC_F_NEXT \<noteq> 0" "d_flags (desc_data b w k) AND VRING_DESC_F_NEXT \<noteq> 0"
  "d_flags (desc_status i) AND VRING_DESC_F_NEXT = 0"
  by (simp_all add: desc_ops_def desc_data_def desc_status_def layout_simps)

lemma desc_next [simp]: "d_next (desc_ops i j) = of_nat j" "d_next (desc_data b w k) = of_nat k"
  "d_addr (desc_status i) = AStatus i"
  by (simp_all add: desc_ops_def desc_data_def desc_status_def)

lemma length3: "length idx = 3 \<Longrightarrow> idx = [idx ! 0, idx ! 1, idx ! 2]"
  by (auto simp: numeral_3_eq_3 numeral_2_eq_2 length_Suc_conv)

lemma disk_rw_finish_ok:
  assumes "request_ok d b w idx"
  shows "disk_rw_finish (idx ! 0) d = Inr ((), d\<lparr>info_b := (info_b d)(idx ! 0 := None),
    desc := (\<lambda>i. if i \<in> set idx then null_desc else desc d i), dfree := (\<lambda>i. dfree d i \<or> i \<in> set idx)\<rparr>)"
proof -
  obtain i j k where idx: "idx = [i, j, k]" using assms length3 [of idx] by (auto simp: request_ok_def)
  let ?d0 = "d\<lparr>info_b := (info_b d)(i := None)\<rparr>"
  let ?d1 = "?d0\<lparr>desc := (desc d)(i := null_desc), dfree := (dfree d)(i := True)\<rparr>"
  let ?d2 = "?d1\<lparr>desc := (desc ?d1)(j := null_desc), dfree := (dfree ?d1)(j := True)\<rparr>"
  let ?d3 = "?d2\<lparr>desc := (desc ?d2)(k := null_desc), dfree := (dfree ?d2)(k := True)\<rparr>"
  have r: "i < NUM" "j < NUM" "k < NUM" "\<not> dfree d i" "\<not> dfree d j" "\<not> dfree d k" "distinct [i, j, k]"
    "desc d i = desc_ops i j" "desc d j = desc_data b w k" "desc d k = desc_status i"
    using assms by (auto simp: request_ok_def idx)
  have "free_chain k ?d2 = Inr ((), ?d3)"
    by (subst free_chain.simps) (use r in \<open>simp add: kbind_def free_desc_ok\<close>)
  then have "free_chain j ?d1 = Inr ((), ?d3)"
    by (subst free_chain.simps) (use r in \<open>simp add: kbind_def free_desc_ok del: free_chain.simps\<close>)
  then have "free_chain i ?d0 = Inr ((), ?d3)"
    by (subst free_chain.simps) (use r in \<open>simp add: kbind_def free_desc_ok del: free_chain.simps\<close>)
  moreover have "?d3 = d\<lparr>info_b := (info_b d)(idx ! 0 := None),
      desc := (\<lambda>i. if i \<in> set idx then null_desc else desc d i), dfree := (\<lambda>i. dfree d i \<or> i \<in> set idx)\<rparr>"
    by (auto simp: idx fun_eq_iff)
  ultimately show ?thesis by (simp add: disk_rw_finish_def kbind_def kmodify_def idx del: free_chain.simps)
qed

lemma status_of_request: "request_ok d b w idx \<Longrightarrow> status_of d (idx ! 0) = Some (idx ! 0)"
  using request_head [of d b w idx] by (simp add: request_ok_def status_of_def)

section \<open>The interrupt handler\<close>

definition used_heads :: "vdisk \<Rightarrow> nat list" where
  "used_heads d = map unat (ring_items (us_ring (used d)) (used_idx d) (us_idx (used d)))"

lemma intr_loop_ok:
  assumes "length (us_ring (used d)) = NUM"
    and "\<forall>h\<in>set (used_heads d). h < NUM \<and> info_status d h = 0 \<and> info_b d h \<noteq> None"
  shows "intr_loop ws d = Inr (ws @ map (the \<circ> info_b d) (used_heads d),
    d\<lparr>bdisk := (\<lambda>b. bdisk d b \<and> b \<notin> (the \<circ> info_b d) ` set (used_heads d)), used_idx := us_idx (used d)\<rparr>)"
  using assms
proof (induction ws d rule: intr_loop.induct)
  case (1 ws d)
  show ?case
  proof (cases "used_idx d = us_idx (used d)")
    case True
    then show ?thesis by (subst intr_loop.simps) (simp add: used_heads_def)
  next
    case False
    let ?h = "unat (us_ring (used d) ! (unat (used_idx d) mod NUM))"
    have hd: "used_heads d = ?h # map unat (ring_items (us_ring (used d)) (used_idx d + 1) (us_idx (used d)))"
      using ring_get_items [OF False, of "us_ring (used d)"] 1(2) by (simp add: used_heads_def)
    then obtain b where h: "?h < NUM" "info_status d ?h = 0" "info_b d ?h = Some b"
      using "1.prems"(2) by (metis list.set_intros(1) not_None_eq)
    let ?d = "d\<lparr>bdisk := (bdisk d)(b := False), used_idx := used_idx d + 1\<rparr>"
    have tl: "used_heads d = ?h # used_heads ?d" using hd by (simp add: used_heads_def)
    have "intr_loop ws d = intr_loop (ws @ [b]) ?d"
      by (subst intr_loop.simps) (use False h in \<open>simp add: Let_def\<close>)
    also have "\<dots> = Inr ((ws @ [b]) @ map (the \<circ> info_b ?d) (used_heads ?d),
        ?d\<lparr>bdisk := (\<lambda>x. bdisk ?d x \<and> x \<notin> (the \<circ> info_b ?d) ` set (used_heads ?d)), used_idx := us_idx (used ?d)\<rparr>)"
      using "1.prems" tl h False by (intro "1.IH") (auto simp: Let_def)
    finally have "intr_loop ws d = \<dots>" .
    moreover have "(\<lambda>x. bdisk ?d x \<and> x \<notin> (the \<circ> info_b ?d) ` set (used_heads ?d))
        = (\<lambda>x. bdisk d x \<and> x \<notin> (the \<circ> info_b d) ` set (used_heads d))"
      using h(3) by (auto simp: tl fun_eq_iff)
    ultimately show ?thesis using h(3) tl by (simp del: intr_loop.simps)
  qed
qed

section \<open>The invariant\<close>

text \<open>The heads of the requests under way: published, in the device, completed.\<close>

definition avail_heads :: "vsys \<Rightarrow> nat list" where
  "avail_heads s = map unat (ring_items (av_ring (avail (vd s))) (seen s) (av_idx (avail (vd s))))"

definition pending :: "vsys \<Rightarrow> nat list" where
  "pending s = avail_heads s @ busy s @ used_heads (vd s)"

definition rings_ok :: "vsys \<Rightarrow> bool" where
  "rings_ok s \<longleftrightarrow> length (av_ring (avail (vd s))) = NUM \<and> length (us_ring (used (vd s))) = NUM
     \<and> ring_ok (av_ring (avail (vd s))) (seen s) (av_idx (avail (vd s)))
     \<and> ring_ok (us_ring (used (vd s))) (used_idx (vd s)) (us_idx (used (vd s)))"

abbreviation has_chain :: "vsys \<Rightarrow> nat \<Rightarrow> nat \<Rightarrow> bool \<Rightarrow> nat list \<Rightarrow> bool" where
  "has_chain s p b w idx \<equiv> chain_of (vpcs s p) = Some (b, w, idx)"

definition chains_ok :: "vsys \<Rightarrow> bool" where
  "chains_ok s \<longleftrightarrow> (\<forall>p b w idx. has_chain s p b w idx \<longrightarrow> request_ok (vd s) b w idx)
     \<and> (\<forall>p q b w idx b' w' idx'. p \<noteq> q \<longrightarrow> has_chain s p b w idx \<longrightarrow> has_chain s q b' w' idx' \<longrightarrow> set idx \<inter> set idx' = {})
     \<and> (\<forall>i < NUM. \<not> dfree (vd s) i \<longrightarrow> (\<exists>p b w idx. has_chain s p b w idx \<and> i \<in> set idx))"

definition pending_ok :: "vsys \<Rightarrow> bool" where
  "pending_ok s \<longleftrightarrow> distinct (pending s)
     \<and> (\<forall>p b w idx. has_chain s p b w idx \<longrightarrow> (bdisk (vd s) b \<longleftrightarrow> idx ! 0 \<in> set (pending s)))
     \<and> (\<forall>h\<in>set (pending s). \<exists>p b w idx. has_chain s p b w idx \<and> h = idx ! 0)
     \<and> (\<forall>h\<in>set (used_heads (vd s)). info_status (vd s) h = 0)
     \<and> (\<forall>p b w idx. vpcs s p = VAsleep b w idx \<longrightarrow> bdisk (vd s) b)"

definition bufs_ok :: "vsys \<Rightarrow> bool" where
  "bufs_ok s \<longleftrightarrow> (\<forall>p q b. buf_of (vpcs s p) = Some b \<longrightarrow> buf_of (vpcs s q) = Some b \<longrightarrow> p = q)"

definition disk_inv :: "vsys \<Rightarrow> bool" where
  "disk_inv s \<longleftrightarrow> vfault s = None \<and> rings_ok s \<and> chains_ok s \<and> pending_ok s \<and> bufs_ok s"

lemma chain_buf: "chain_of q = Some (b, w, idx) \<Longrightarrow> buf_of q = Some b"
  by (cases q) simp_all

lemma disk_inv_start: "disk_inv (disk_start bnos)"
  by (simp add: disk_inv_def rings_ok_def chains_ok_def pending_ok_def bufs_ok_def disk_start_def vdisk_boot_def
    pending_def avail_heads_def used_heads_def ring_ok_def NUM_def)

lemma chains_request: "chains_ok s \<Longrightarrow> has_chain s p b w idx \<Longrightarrow> request_ok (vd s) b w idx"
  by (simp add: chains_ok_def)

lemma pending_less:
  assumes "chains_ok s" "pending_ok s" "h \<in> set (pending s)"
  shows "h < NUM" "\<not> dfree (vd s) h" "info_b (vd s) h \<noteq> None"
proof -
  obtain p b w idx where c: "has_chain s p b w idx" "h = idx ! 0"
    using assms(2,3) unfolding pending_ok_def by blast
  then have "request_ok (vd s) b w idx" using assms(1) by (simp add: chains_ok_def)
  then show "h < NUM" "\<not> dfree (vd s) h" "info_b (vd s) h \<noteq> None"
    using c request_head by (auto simp: request_ok_def)
qed

lemma pending_room:
  assumes "chains_ok s" "pending_ok s" "h < NUM" "h \<notin> set (pending s)"
  shows "length (pending s) < NUM"
proof -
  have "insert h (set (pending s)) \<subseteq> {..<NUM}" using pending_less(1) [OF assms(1,2)] assms(3) by auto
  then have "card (insert h (set (pending s))) \<le> NUM" using card_mono [of "{..<NUM}"] by fastforce
  moreover have "card (set (pending s)) = length (pending s)"
    using assms(2) by (simp add: pending_ok_def distinct_card)
  ultimately show ?thesis using assms(4) by simp
qed

text \<open>A step that changes the place of one process only.\<close>

lemma disk_inv_pcs:
  assumes inv: "disk_inv s" and ch: "\<And>p. chain_of (f p) = chain_of (vpcs s p)"
    and asleep: "\<And>p b w idx. f p = VAsleep b w idx \<Longrightarrow> bdisk (vd s) b"
    and buf: "\<And>p q b. buf_of (f p) = Some b \<Longrightarrow> buf_of (f q) = Some b \<Longrightarrow> p = q"
  shows "disk_inv (s\<lparr>vpcs := f\<rparr>)"
proof -
  have "chains_ok (s\<lparr>vpcs := f\<rparr>)" using inv ch by (simp add: disk_inv_def chains_ok_def)
  moreover have "pending_ok (s\<lparr>vpcs := f\<rparr>)" using inv ch asleep
    by (simp add: disk_inv_def pending_ok_def pending_def avail_heads_def)
  moreover have "bufs_ok (s\<lparr>vpcs := f\<rparr>)" unfolding bufs_ok_def using buf by auto
  moreover have "rings_ok (s\<lparr>vpcs := f\<rparr>)" using inv by (simp add: disk_inv_def rings_ok_def)
  ultimately show ?thesis using inv by (simp add: disk_inv_def)
qed

lemma disk_inv_place:
  assumes inv: "disk_inv s" and "chain_of q = chain_of (vpcs s p)"
    and "\<And>b w idx. q = VAsleep b w idx \<Longrightarrow> bdisk (vd s) b"
    and "\<And>b. buf_of q = Some b \<Longrightarrow> buf_of (vpcs s p) = Some b \<or> (\<forall>r. buf_of (vpcs s r) \<noteq> Some b)"
  shows "disk_inv (s\<lparr>vpcs := (vpcs s)(p := q)\<rparr>)"
proof (rule disk_inv_pcs [OF inv])
  have bufs: "buf_of (vpcs s a) = Some b \<Longrightarrow> buf_of (vpcs s c) = Some b \<Longrightarrow> a = c" for a b c
    using inv by (simp add: disk_inv_def bufs_ok_def)
  have asl: "vpcs s a = VAsleep b w idx \<Longrightarrow> bdisk (vd s) b" for a b w idx
    using inv unfolding disk_inv_def pending_ok_def by blast
  show "chain_of (((vpcs s)(p := q)) r) = chain_of (vpcs s r)" for r using assms(2) by simp
  show "bdisk (vd s) b" if "((vpcs s)(p := q)) r = VAsleep b w idx" for r b w idx
    using that assms(3) asl by (auto split: if_splits)
  show "r = r'" if "buf_of (((vpcs s)(p := q)) r) = Some b" "buf_of (((vpcs s)(p := q)) r') = Some b" for r r' b
    using that assms(4) bufs by (auto split: if_splits)
qed

subsection \<open>Submission\<close>

text \<open>The step from \<open>s\<close> to \<open>t\<close> in which process \<open>p\<close> publishes a request with three free descriptors.\<close>

definition submits :: "vsys \<Rightarrow> nat \<Rightarrow> nat \<Rightarrow> bool \<Rightarrow> nat list \<Rightarrow> vsys \<Rightarrow> bool" where
  "submits s p b w n t \<longleftrightarrow> disk_inv s \<and> vpcs s p = VWant b w \<and> length n = 3 \<and> distinct n
     \<and> (\<forall>i\<in>set n. i < NUM \<and> dfree (vd s) i)
     \<and> t = s\<lparr>vd := submit b w n ((vd s)\<lparr>dfree := (\<lambda>x. dfree (vd s) x \<and> x \<notin> set n)\<rparr>),
         vpcs := (vpcs s)(p := VAsleep b w n)\<rparr>"

lemma submits_fields:
  assumes "submits s p b w n t"
  shows "desc (vd t) = (desc (vd s))(n ! 0 := desc_ops (n ! 0) (n ! 1), n ! 1 := desc_data b w (n ! 2), n ! 2 := desc_status (n ! 0))"
    and "dfree (vd t) = (\<lambda>x. dfree (vd s) x \<and> x \<notin> set n)" and "ops (vd t) = (ops (vd s))(n ! 0 := blk_req w (bno_of (vd s) b))"
    and "info_b (vd t) = (info_b (vd s))(n ! 0 := Some b)" and "info_status (vd t) = (info_status (vd s))(n ! 0 := 0xff)"
    and "bdisk (vd t) = (bdisk (vd s))(b := True)" and "bno_of (vd t) = bno_of (vd s)"
    and "av_idx (avail (vd t)) = av_idx (avail (vd s)) + 1"
    and "av_ring (avail (vd t)) = (av_ring (avail (vd s)))[unat (av_idx (avail (vd s))) mod NUM := of_nat (n ! 0)]"
    and "used (vd t) = used (vd s)" and "used_idx (vd t) = used_idx (vd s)" and "busy t = busy s" and "seen t = seen s"
    and "vfault t = vfault s" and "vpcs t = (vpcs s)(p := VAsleep b w n)"
  using assms by (simp_all add: submits_def submit_def Let_def)

lemma submits_n:
  assumes "submits s p b w n t"
  shows "disk_inv s" "vpcs s p = VWant b w" "length n = 3" "distinct n" "\<forall>i\<in>set n. i < NUM \<and> dfree (vd s) i"
    "n ! 0 \<in> set n" "n ! 1 \<in> set n" "n ! 2 \<in> set n" "n ! 0 \<noteq> n ! 1" "n ! 0 \<noteq> n ! 2" "n ! 1 \<noteq> n ! 2"
  using assms by (auto simp: submits_def nth_eq_iff_index_eq)

lemma submits_new:
  assumes "submits s p b w n t"
  shows "has_chain t q b' w' idx \<longleftrightarrow> (if q = p then b' = b \<and> w' = w \<and> idx = n else has_chain s q b' w' idx)"
  by (auto simp: submits_fields [OF assms])

lemma submits_old:
  assumes sub: "submits s p b w n t" and c: "has_chain s q b' w' idx"
  shows "q \<noteq> p" "set idx \<inter> set n = {}" "b' \<noteq> b" "request_ok (vd s) b' w' idx" "idx ! 0 \<notin> set n"
proof -
  note n = submits_n [OF sub]
  show q: "q \<noteq> p" using n(2) c by auto
  show r: "request_ok (vd s) b' w' idx" using n(1) c by (simp add: disk_inv_def chains_ok_def)
  then show d: "set idx \<inter> set n = {}" using n(5) by (auto simp: request_ok_def)
  then show "idx ! 0 \<notin> set n" using request_head [OF r] by blast
  show "b' \<noteq> b" using n(1,2) chain_buf [OF c] q unfolding disk_inv_def bufs_ok_def by (metis buf_of.simps(2))
qed

lemma submits_pending:
  assumes sub: "submits s p b w n t"
  shows "n ! 0 \<notin> set (pending s)" "pending t = avail_heads s @ [n ! 0] @ busy s @ used_heads (vd s)" "rings_ok t"
proof -
  note n = submits_n [OF sub] and f = submits_fields [OF sub]
  have ok: "rings_ok s" "chains_ok s" "pending_ok s" using n(1) by (auto simp: disk_inv_def)
  show fresh: "n ! 0 \<notin> set (pending s)" using pending_less(2) [OF ok(2,3)] n(5,6) by auto
  have room: "length (avail_heads s) < NUM" using pending_room [OF ok(2,3) _ fresh] n(5,6) by (simp add: pending_def)
  have "avail_heads t = avail_heads s @ [n ! 0]"
    using ring_put_items [of "av_ring (avail (vd s))" "seen s" "av_idx (avail (vd s))" "of_nat (n ! 0) :: u16"] ok(1) room n(5,6)
    by (simp add: rings_ok_def avail_heads_def f)
  then show "pending t = avail_heads s @ [n ! 0] @ busy s @ used_heads (vd s)"
    by (simp add: pending_def f used_heads_def)
  show "rings_ok t" using ok(1) room ring_put_ok [of "av_ring (avail (vd s))" "seen s" "av_idx (avail (vd s))"]
    by (simp add: rings_ok_def f avail_heads_def)
qed

lemma submits_set_pending: "submits s p b w n t \<Longrightarrow> set (pending t) = insert (n ! 0) (set (pending s))"
  unfolding submits_pending(2) by (auto simp: pending_def)

lemma submits_chains_ok:
  assumes sub: "submits s p b w n t"
  shows "chains_ok t"
  unfolding chains_ok_def
proof (intro conjI allI impI)
  note n = submits_n [OF sub] and f = submits_fields [OF sub] and new = submits_new [OF sub] and old = submits_old [OF sub]
  have ok: "chains_ok s" using n(1) by (simp add: disk_inv_def)
  show "request_ok (vd t) b' w' idx" if "has_chain t q b' w' idx" for q b' w' idx
  proof (cases "q = p")
    case True
    then have "b' = b" "w' = w" "idx = n" using that by (simp_all add: new)
    then show ?thesis using n by (simp add: request_ok_def f)
  next
    case False
    then have c: "has_chain s q b' w' idx" using that by (simp add: new)
    have out: "i \<in> set idx \<Longrightarrow> i \<notin> set n" for i using old(2) [OF c] by blast
    show ?thesis
    proof (rule request_ok_cong [OF old(4) [OF c]])
      fix i
      assume "i \<in> set idx"
      then show "desc (vd t) i = desc (vd s) i \<and> dfree (vd t) i = dfree (vd s) i"
        using out [of i] n(6-8) by (auto simp: f)
    qed (use old(5) [OF c] n(6) in \<open>auto simp: f\<close>)
  qed
  show "set idx \<inter> set idx' = {}" if qr: "q \<noteq> r" "has_chain t q b1 w1 idx" "has_chain t r b2 w2 idx'" for q r b1 w1 idx b2 w2 idx'
  proof -
    consider "q = p" "idx = n" "has_chain s r b2 w2 idx'" | "r = p" "idx' = n" "has_chain s q b1 w1 idx"
      | "has_chain s q b1 w1 idx" "has_chain s r b2 w2 idx'"
      using qr new by metis
    then show ?thesis
    proof cases
      case 1
      then show ?thesis using old(2) [of r b2 w2 idx'] by (simp add: Int_commute)
    next
      case 2
      then show ?thesis using old(2) [of q b1 w1 idx] by simp
    next
      case 3
      then show ?thesis using qr(1) ok unfolding chains_ok_def by blast
    qed
  qed
  show "\<exists>q b' w' idx. has_chain t q b' w' idx \<and> x \<in> set idx" if x: "x < NUM" "\<not> dfree (vd t) x" for x
  proof (cases "x \<in> set n")
    case True
    then show ?thesis using new [of p b w n] by metis
  next
    case False
    then have "\<not> dfree (vd s) x" using x by (simp add: f)
    then obtain q b' w' idx where c: "has_chain s q b' w' idx" "x \<in> set idx"
      using x(1) ok unfolding chains_ok_def by blast
    then show ?thesis using new old(1) by metis
  qed
qed

lemma submits_pending_ok:
  assumes sub: "submits s p b w n t"
  shows "pending_ok t"
  unfolding pending_ok_def
proof (intro conjI allI impI ballI)
  note n = submits_n [OF sub] and f = submits_fields [OF sub] and new = submits_new [OF sub] and old = submits_old [OF sub]
    and pend = submits_pending [OF sub] and set_pend = submits_set_pending [OF sub]
  have ok: "pending_ok s" using n(1) by (simp add: disk_inv_def)
  show "distinct (pending t)" using pend(1) ok unfolding pend(2) by (auto simp: pending_ok_def pending_def)
  show "bdisk (vd t) b' \<longleftrightarrow> idx ! 0 \<in> set (pending t)" if "has_chain t q b' w' idx" for q b' w' idx
  proof (cases "q = p")
    case True
    then show ?thesis using that by (simp add: new set_pend f)
  next
    case False
    then have c: "has_chain s q b' w' idx" using that by (simp add: new)
    have "idx ! 0 \<noteq> n ! 0" "b' \<noteq> b" using old(3,5) [OF c] n(6) by metis+
    then show ?thesis using ok c by (simp add: set_pend f pending_ok_def)
  qed
  show "\<exists>q b' w' idx. has_chain t q b' w' idx \<and> h = idx ! 0" if h: "h \<in> set (pending t)" for h
  proof (cases "h = n ! 0")
    case True
    then show ?thesis using new [of p b w n] by metis
  next
    case False
    then obtain q b' w' idx where "has_chain s q b' w' idx" "h = idx ! 0"
      using h ok unfolding pending_ok_def set_pend by blast
    then show ?thesis using new old(1) by metis
  qed
  show "info_status (vd t) h = 0" if "h \<in> set (used_heads (vd t))" for h
  proof -
    have h: "h \<in> set (used_heads (vd s))" using that by (simp add: f used_heads_def)
    then have "h \<noteq> n ! 0" using pend(1) by (auto simp: pending_def)
    then show ?thesis using h ok by (simp add: f pending_ok_def)
  qed
  show "bdisk (vd t) b'" if "vpcs t q = VAsleep b' w' idx" for q b' w' idx
  proof (cases "q = p")
    case False
    then have "vpcs s q = VAsleep b' w' idx" using that by (simp add: f)
    then have "bdisk (vd s) b'" using ok unfolding pending_ok_def by blast
    then show ?thesis by (simp add: f)
  qed (use that in \<open>simp add: f\<close>)
qed

lemma submits_inv:
  assumes sub: "submits s p b w n t"
  shows "disk_inv t"
proof -
  note n = submits_n [OF sub]
  have bufs: "bufs_ok s" using n(1) by (simp add: disk_inv_def)
  have "buf_of (vpcs t q) = buf_of (vpcs s q)" for q using n(2) by (simp add: submits_fields [OF sub])
  then have "bufs_ok t" using bufs by (simp add: bufs_ok_def)
  then show ?thesis using n(1) submits_pending(3) [OF sub] submits_chains_ok [OF sub] submits_pending_ok [OF sub]
    submits_fields(14) [OF sub] by (simp add: disk_inv_def)
qed

subsection \<open>The other steps\<close>

lemma same_use_inv:
  assumes inv: "disk_inv s" and u: "same_use (vd s) d"
  shows "disk_inv (s\<lparr>vd := d\<rparr>)"
proof -
  obtain f where d: "d = (vd s)\<lparr>desc := f\<rparr>" and f: "\<And>i. \<not> dfree (vd s) i \<Longrightarrow> f i = desc (vd s) i"
    using u by (auto simp: same_use_def)
  have "request_ok d b w idx" if "request_ok (vd s) b w idx" for b w idx
    using that by (rule request_ok_cong) (use that f in \<open>auto simp: d request_ok_def\<close>)
  then have "chains_ok (s\<lparr>vd := d\<rparr>)" using inv by (simp add: disk_inv_def chains_ok_def d)
  moreover have "pending_ok (s\<lparr>vd := d\<rparr>)" "rings_ok (s\<lparr>vd := d\<rparr>)" "bufs_ok (s\<lparr>vd := d\<rparr>)"
    using inv by (simp_all add: disk_inv_def pending_ok_def pending_def avail_heads_def used_heads_def rings_ok_def bufs_ok_def d)
  ultimately show ?thesis using inv by (simp add: disk_inv_def)
qed

text \<open>A request that moves from one place to the next.\<close>

lemma disk_inv_moved:
  assumes inv: "disk_inv s" and m: "mset (pending t) = mset (pending s)" and r: "rings_ok t"
    and same: "vpcs t = vpcs s" "vfault t = vfault s" "bdisk (vd t) = bdisk (vd s)" "desc (vd t) = desc (vd s)" "ops (vd t) = ops (vd s)"
      "info_b (vd t) = info_b (vd s)" "bno_of (vd t) = bno_of (vd s)" "dfree (vd t) = dfree (vd s)"
    and st: "\<And>h. h \<in> set (used_heads (vd t)) \<Longrightarrow> info_status (vd t) h = 0"
  shows "disk_inv t"
proof -
  have p: "set (pending t) = set (pending s)" "distinct (pending t) \<longleftrightarrow> distinct (pending s)"
    using m by (metis set_mset_mset) (metis m mset_eq_imp_distinct_iff)
  have "chains_ok t" using inv by (simp add: disk_inv_def chains_ok_def same request_ok_def)
  moreover have "pending_ok t" using inv p st by (simp add: disk_inv_def pending_ok_def same)
  ultimately show ?thesis using inv r by (simp add: disk_inv_def same bufs_ok_def)
qed

lemma fetch_inv:
  assumes inv: "disk_inv s" and ne: "seen s \<noteq> av_idx (avail (vd s))"
  shows "disk_inv (s\<lparr>busy := busy s @ [unat (av_ring (avail (vd s)) ! (unat (seen s) mod NUM))], seen := seen s + 1\<rparr>)"
    (is "disk_inv ?t")
proof (rule disk_inv_moved [OF inv])
  have r: "rings_ok s" using inv by (simp add: disk_inv_def)
  then have "avail_heads s = unat (av_ring (avail (vd s)) ! (unat (seen s) mod NUM)) # avail_heads ?t"
    using ring_get_items [OF ne, of "av_ring (avail (vd s))"] by (simp add: avail_heads_def rings_ok_def)
  then show "mset (pending ?t) = mset (pending s)" by (simp add: pending_def avail_heads_def)
  show "rings_ok ?t" using r ring_get_ok [OF _ ne] by (auto simp: rings_ok_def)
  show "info_status (vd ?t) h = 0" if "h \<in> set (used_heads (vd ?t))" for h
    using that inv by (simp add: disk_inv_def pending_ok_def)
qed simp_all

lemma complete_used:
  assumes inv: "disk_inv s" and h: "h \<in> set (busy s)"
  shows "length (used_heads (vd s)) < NUM" "used_heads (dev_complete h (vd s)) = used_heads (vd s) @ [h]"
proof -
  have ok: "rings_ok s" "chains_ok s" "pending_ok s" using inv by (auto simp: disk_inv_def)
  have "length (pending s) \<le> card {..<NUM}"
    using ok(3) pending_less(1) [OF ok(2,3)] card_mono [of "{..<NUM}" "set (pending s)"]
    by (auto simp: pending_ok_def distinct_card)
  moreover have "0 < length (busy s)" using h by (cases "busy s") auto
  ultimately show room: "length (used_heads (vd s)) < NUM" unfolding pending_def length_append card_lessThan by linarith
  have "h < NUM" using pending_less(1) [OF ok(2,3)] h by (simp add: pending_def)
  then show "used_heads (dev_complete h (vd s)) = used_heads (vd s) @ [h]"
    using ring_put_items [of "us_ring (used (vd s))" "used_idx (vd s)" "us_idx (used (vd s))" "of_nat h :: u32"] ok(1) room
    by (simp add: rings_ok_def used_heads_def dev_complete_def)
qed

lemma complete_inv:
  assumes inv: "disk_inv s" and h: "h \<in> set (busy s)"
  shows "disk_inv (s\<lparr>busy := remove1 h (busy s), vd := dev_complete h (vd s)\<rparr>)" (is "disk_inv ?t")
proof (rule disk_inv_moved [OF inv])
  have ok: "rings_ok s" "chains_ok s" "pending_ok s" using inv by (auto simp: disk_inv_def)
  note u = complete_used [OF inv h]
  have "h \<in> set (pending s)" using h by (simp add: pending_def)
  then obtain p b w idx where "has_chain s p b w idx" and hd: "h = idx ! 0"
    using ok(3) unfolding pending_ok_def by blast
  then have st: "status_of (vd s) h = Some h" using status_of_request [OF chains_request [OF ok(2)]] by simp
  show "mset (pending ?t) = mset (pending s)"
    using h u(2) by (simp add: pending_def avail_heads_def dev_complete_def)
  show "rings_ok ?t" using ok(1) u(1) ring_put_ok [of "us_ring (used (vd s))" "used_idx (vd s)" "us_idx (used (vd s))"]
    by (simp add: rings_ok_def dev_complete_def used_heads_def)
  show "info_status (vd ?t) k = 0" if "k \<in> set (used_heads (vd ?t))" for k
    using that ok(3) u(2) by (auto simp: dev_complete_def st pending_ok_def)
qed (simp_all add: dev_complete_def)

lemma intr_ok:
  assumes inv: "disk_inv s"
  defines "bs \<equiv> map (the \<circ> info_b (vd s)) (used_heads (vd s))"
  shows "virtio_disk_intr st (vd s) = Inr (((VIRTIO_MMIO_INTERRUPT_ACK, st AND 3), bs),
    (vd s)\<lparr>bdisk := (\<lambda>b. bdisk (vd s) b \<and> b \<notin> set bs), used_idx := us_idx (used (vd s))\<rparr>)"
proof -
  have ok: "rings_ok s" "chains_ok s" "pending_ok s" using inv by (auto simp: disk_inv_def)
  have "h < NUM \<and> info_status (vd s) h = 0 \<and> info_b (vd s) h \<noteq> None" if "h \<in> set (used_heads (vd s))" for h
    using that ok(3) pending_less(1,3) [OF ok(2,3), of h] by (auto simp: pending_ok_def pending_def)
  then show ?thesis using intr_loop_ok [of "vd s" "[]"] ok(1)
    by (simp add: virtio_disk_intr_def kbind_def kreturn_def rings_ok_def bs_def del: intr_loop.simps)
qed

lemma intr_woken:
  assumes inv: "disk_inv s" and c: "has_chain s p b w idx"
  shows "b \<in> set (map (the \<circ> info_b (vd s)) (used_heads (vd s))) \<longleftrightarrow> idx ! 0 \<in> set (used_heads (vd s))"
proof
  have info: "info_b (vd s) (idx' ! 0) = Some b'" if "has_chain s q b' w' idx'" for q b' w' idx'
    using inv that by (auto simp: disk_inv_def chains_ok_def request_ok_def)
  show "b \<in> set (map (the \<circ> info_b (vd s)) (used_heads (vd s)))" if "idx ! 0 \<in> set (used_heads (vd s))"
    using that info [OF c] by force
  assume "b \<in> set (map (the \<circ> info_b (vd s)) (used_heads (vd s)))"
  then obtain h where h: "h \<in> set (used_heads (vd s))" "b = the (info_b (vd s) h)" by auto
  then have "h \<in> set (pending s)" by (simp add: pending_def)
  then obtain q b' w' idx' where q: "has_chain s q b' w' idx'" "h = idx' ! 0"
    using inv unfolding disk_inv_def pending_ok_def by blast
  then have "b' = b" using h info [OF q(1)] by simp
  then have "q = p" using inv chain_buf [OF q(1)] chain_buf [OF c] by (auto simp: disk_inv_def bufs_ok_def)
  then show "idx ! 0 \<in> set (used_heads (vd s))" using c q h by simp
qed

lemma wake_bufs_simps [simp]: "chain_of (wake_bufs bs q) = chain_of q" "buf_of (wake_bufs bs q) = buf_of q"
  by (cases q; simp add: wake_bufs_def)+

lemma intr_inv:
  assumes inv: "disk_inv s"
  defines "bs \<equiv> map (the \<circ> info_b (vd s)) (used_heads (vd s))"
  shows "disk_inv (s\<lparr>vd := (vd s)\<lparr>bdisk := (\<lambda>b. bdisk (vd s) b \<and> b \<notin> set bs), used_idx := us_idx (used (vd s))\<rparr>,
    vpcs := (\<lambda>p. wake_bufs bs (vpcs s p))\<rparr>)" (is "disk_inv ?t")
proof -
  have ok: "rings_ok s" "chains_ok s" "pending_ok s" "bufs_ok s" using inv by (auto simp: disk_inv_def)
  have pt: "pending ?t = avail_heads s @ busy s" by (simp add: pending_def avail_heads_def used_heads_def)
  have dist: "h \<in> set (pending ?t) \<longleftrightarrow> h \<in> set (pending s) \<and> h \<notin> set (used_heads (vd s))" for h
    using ok(3) unfolding pt by (auto simp: pending_ok_def pending_def)
  have "chains_ok ?t" using ok(2) by (simp add: chains_ok_def request_ok_def)
  moreover have "pending_ok ?t" unfolding pending_ok_def
  proof (intro conjI allI impI ballI)
    show "distinct (pending ?t)" using ok(3) unfolding pt by (auto simp: pending_ok_def pending_def)
    show "bdisk (vd ?t) b \<longleftrightarrow> idx ! 0 \<in> set (pending ?t)" if "has_chain ?t p b w idx" for p b w idx
      using that ok(3) intr_woken [OF inv, of p b w idx, folded bs_def] unfolding dist by (simp add: pending_ok_def)
    show "\<exists>p b w idx. has_chain ?t p b w idx \<and> h = idx ! 0" if "h \<in> set (pending ?t)" for h
      using that ok(3) unfolding dist pending_ok_def by simp
    show "info_status (vd ?t) h = 0" if "h \<in> set (used_heads (vd ?t))" for h
      using that by (simp add: used_heads_def)
    show "bdisk (vd ?t) b" if a: "vpcs ?t p = VAsleep b w idx" for p b w idx
    proof -
      have "vpcs s p = VAsleep b w idx" "b \<notin> set bs"
        using a by (auto simp: wake_bufs_def split: vpc.splits if_splits)
      then show ?thesis using ok(3) unfolding pending_ok_def by simp blast
    qed
  qed
  moreover have "rings_ok ?t" using ok(1) by (auto simp: rings_ok_def ring_ok_def)
  moreover have "bufs_ok ?t" using ok(4) by (simp add: bufs_ok_def)
  ultimately show ?thesis using inv by (simp add: disk_inv_def)
qed

lemma finish_inv:
  assumes inv: "disk_inv s" and p: "vpcs s p = VReady b w idx" and fin: "\<not> bdisk (vd s) b"
  shows "disk_inv (s\<lparr>vd := (vd s)\<lparr>info_b := (info_b (vd s))(idx ! 0 := None),
      desc := (\<lambda>i. if i \<in> set idx then null_desc else desc (vd s) i), dfree := (\<lambda>i. dfree (vd s) i \<or> i \<in> set idx)\<rparr>,
    vpcs := (vpcs s)(p := VIdle)\<rparr>)" (is "disk_inv ?t")
proof -
  have ok: "rings_ok s" "chains_ok s" "pending_ok s" "bufs_ok s" using inv by (auto simp: disk_inv_def)
  have c: "has_chain s p b w idx" using p by simp
  note r = chains_request [OF ok(2) c]
  have new: "has_chain ?t q b' w' idx' \<longleftrightarrow> q \<noteq> p \<and> has_chain s q b' w' idx'" for q b' w' idx' by simp
  have other: "set idx' \<inter> set idx = {}" if "q \<noteq> p" "has_chain s q b' w' idx'" for q b' w' idx'
    using that c ok(2) unfolding chains_ok_def by blast
  have pend: "pending ?t = pending s" by (simp add: pending_def avail_heads_def used_heads_def)
  have head: "idx ! 0 \<notin> set (pending s)" using ok(3) c fin unfolding pending_ok_def by blast
  have "chains_ok ?t" unfolding chains_ok_def
  proof (intro conjI allI impI)
    show "request_ok (vd ?t) b' w' idx'" if q: "has_chain ?t q b' w' idx'" for q b' w' idx'
    proof -
      have d: "set idx' \<inter> set idx = {}" and r': "request_ok (vd s) b' w' idx'"
        using q other chains_request [OF ok(2)] unfolding new by blast+
      have out: "i \<in> set idx' \<Longrightarrow> i \<notin> set idx" for i using d by blast
      then have "idx' ! 0 \<noteq> idx ! 0" using request_head [OF r] request_head [OF r'] by metis
      then show ?thesis using out by (intro request_ok_cong [OF r']) simp_all
    qed
    show "set i1 \<inter> set i2 = {}" if "q \<noteq> q'" "has_chain ?t q b1 w1 i1" "has_chain ?t q' b2 w2 i2" for q q' b1 w1 i1 b2 w2 i2
      using that ok(2) unfolding new chains_ok_def by blast
    show "\<exists>q b' w' idx'. has_chain ?t q b' w' idx' \<and> x \<in> set idx'" if x: "x < NUM" "\<not> dfree (vd ?t) x" for x
    proof -
      obtain q b' w' idx' where q: "has_chain s q b' w' idx'" "x \<in> set idx'"
        using x ok(2) unfolding chains_ok_def by auto
      then have "q \<noteq> p" using x c by auto
      then show ?thesis using q new by blast
    qed
  qed
  moreover have "pending_ok ?t" unfolding pending_ok_def pend new
  proof (intro conjI allI impI ballI)
    show "distinct (pending s)" using ok(3) by (simp add: pending_ok_def)
    show "bdisk (vd ?t) b' \<longleftrightarrow> idx' ! 0 \<in> set (pending s)" if "q \<noteq> p \<and> has_chain s q b' w' idx'" for q b' w' idx'
    proof -
      have "bdisk (vd s) b' \<longleftrightarrow> idx' ! 0 \<in> set (pending s)" using that ok(3) unfolding pending_ok_def by blast
      then show ?thesis by simp
    qed
    show "\<exists>q b' w' idx'. (q \<noteq> p \<and> has_chain s q b' w' idx') \<and> h = idx' ! 0" if h: "h \<in> set (pending s)" for h
    proof -
      obtain q b' w' idx' where q: "has_chain s q b' w' idx'" "h = idx' ! 0"
        using h ok(3) unfolding pending_ok_def by blast
      then have "q \<noteq> p" using head h c by auto
      then show ?thesis using q by blast
    qed
    show "info_status (vd ?t) h = 0" if "h \<in> set (used_heads (vd ?t))" for h
      using that ok(3) by (auto simp: pending_ok_def used_heads_def)
    show "bdisk (vd ?t) b'" if a: "vpcs ?t q = VAsleep b' w' idx'" for q b' w' idx'
    proof -
      have "vpcs s q = VAsleep b' w' idx'" using a by (simp split: if_splits)
      then have "bdisk (vd s) b'" using ok(3) unfolding pending_ok_def by blast
      then show ?thesis by simp
    qed
  qed
  moreover have "rings_ok ?t" "bufs_ok ?t" using ok(1,4) by (simp_all add: rings_ok_def bufs_ok_def)
  ultimately show ?thesis using inv by (simp add: disk_inv_def)
qed

lemma disk_inv_submit_step:
  assumes "disk_inv s" "vpcs s p = VWant b w" "disk_rw_submit b w (vd s) = Inr (Some idx, d)"
  shows "disk_inv (s\<lparr>vd := d, vpcs := (vpcs s)(p := VAsleep b w idx)\<rparr>)"
proof (cases b w "vd s" rule: disk_rw_submit_cases)
  case (some i j k)
  then have "submits s p b w idx (s\<lparr>vd := d, vpcs := (vpcs s)(p := VAsleep b w idx)\<rparr>)"
    using assms by (simp add: submits_def)
  then show ?thesis by (rule submits_inv)
qed (use assms in simp)

lemma disk_step_inv:
  assumes "disk_step kills s t" and inv: "disk_inv s"
  shows "disk_inv t"
  using assms(1)
proof cases
  case (start p b w)
  then show ?thesis by (auto intro!: disk_inv_place [OF inv])
next
  case (submit p b w idx d)
  then show ?thesis using disk_inv_submit_step [OF inv] by simp
next
  case (nodesc p b w d)
  then have "same_use (vd s) d" by (cases b w "vd s" rule: disk_rw_submit_cases) simp_all
  then have "disk_inv (s\<lparr>vd := d\<rparr>)" by (rule same_use_inv [OF inv])
  then show ?thesis using nodesc by (auto dest!: disk_inv_place [of "s\<lparr>vd := d\<rparr>" "VNoDesc b w" p])
next
  case (submit_fault p b w e)
  then show ?thesis by (cases b w "vd s" rule: disk_rw_submit_cases) simp_all
next
  case fetch
  then show ?thesis using fetch_inv [OF inv] by simp
next
  case (complete h)
  then show ?thesis using complete_inv [OF inv] by simp
next
  case (intr st ack ws d)
  then have "Inr ((ack, ws), d) = virtio_disk_intr st (vd s)" by simp
  note e = this [unfolded intr_ok [OF inv] sum.inject prod.inject]
  then show ?thesis using intr(1) intr_inv [OF inv] by metis
next
  case (intr_fault st e)
  then show ?thesis using intr_ok [OF inv, of st] by simp
next
  case (again p b w idx)
  then show ?thesis by (auto intro!: disk_inv_place [OF inv])
next
  case (finish p b w idx d)
  then have "has_chain s p b w idx" by simp
  then have "request_ok (vd s) b w idx" using inv chains_request by (simp add: disk_inv_def)
  from disk_rw_finish_ok [OF this] show ?thesis using finish(1,4) finish_inv [OF inv finish(2,3)] by simp
next
  case (finish_fault p b w idx e)
  then have "has_chain s p b w idx" by simp
  then have "request_ok (vd s) b w idx" using inv chains_request by (simp add: disk_inv_def)
  then show ?thesis using finish_fault disk_rw_finish_ok by simp
next
  case (kill p)
  have "disk_inv (s\<lparr>vpcs := (vpcs s)(p := kill_wait (vpcs s p))\<rparr>)"
    by (rule disk_inv_place [OF inv]) (auto simp: kill_wait_def split: vpc.splits)
  then show ?thesis using kill by simp
qed

lemma disk_reach_inv: "(disk_step kills)\<^sup>*\<^sup>* (disk_start bnos) s \<Longrightarrow> disk_inv s"
  by (induction rule: rtranclp_induct) (auto intro: disk_inv_start disk_step_inv)

section \<open>Safety and starvation\<close>

text \<open>
  C7: requests to the disk do not interfere.  However any number of processes, the device and
  the interrupt handler interleave, no step panics or leaves an array; the descriptors in
  use are exactly the chains of the waiting processes, the chains are disjoint, and each
  still describes the transfer that its process asked for (the request header with the
  sector, the buffer with the right direction, the status byte).  Every request is in exactly
  one place, a buffer is owned by the device exactly while its request is under way, and a
  process sleeps on a buffer only while the device owns it.  Of the device the step relation
  assumes that it takes each published head once, in order, and completes what it took with
  status 0, writing only the status byte and the used ring.
\<close>

theorem disk_requests_safe:
  assumes "(disk_step kills)\<^sup>*\<^sup>* (disk_start bnos) s"
  shows "vfault s = None \<and> distinct (pending s)
    \<and> (\<forall>p b w idx. chain_of (vpcs s p) = Some (b, w, idx) \<longrightarrow>
          request_ok (vd s) b w idx \<and> (bdisk (vd s) b \<longleftrightarrow> idx ! 0 \<in> set (pending s)))
    \<and> (\<forall>p q b w idx b' w' idx'. p \<noteq> q \<longrightarrow> chain_of (vpcs s p) = Some (b, w, idx)
          \<longrightarrow> chain_of (vpcs s q) = Some (b', w', idx') \<longrightarrow> set idx \<inter> set idx' = {})
    \<and> (\<forall>i < NUM. \<not> dfree (vd s) i \<longrightarrow> (\<exists>p b w idx. chain_of (vpcs s p) = Some (b, w, idx) \<and> i \<in> set idx))
    \<and> (\<forall>p b w idx. vpcs s p = VAsleep b w idx \<longrightarrow> bdisk (vd s) b)"
  using disk_reach_inv [OF assms] unfolding disk_inv_def chains_ok_def pending_ok_def
  by (elim conjE, intro conjI) simp_all

text \<open>The device can take all published requests.\<close>

lemma fetch_all:
  assumes "disk_inv s"
  shows "\<exists>t. (disk_step kills)\<^sup>*\<^sup>* s t \<and> avail_heads t = [] \<and> set (busy t) = set (busy s) \<union> set (avail_heads s)
    \<and> vd t = vd s \<and> vpcs t = vpcs s"
  using assms
proof (induction "length (avail_heads s)" arbitrary: s)
  case 0
  then show ?case by (intro exI [of _ s]) simp
next
  case (Suc n)
  have ne: "seen s \<noteq> av_idx (avail (vd s))" using Suc.hyps(2) by (auto simp: avail_heads_def)
  define h where "h = unat (av_ring (avail (vd s)) ! (unat (seen s) mod NUM))"
  define u where "u = s\<lparr>busy := busy s @ [h], seen := seen s + 1\<rparr>"
  have step: "disk_step kills s u" unfolding u_def h_def by (rule disk_step.fetch [OF ne])
  have r: "length (av_ring (avail (vd s))) = NUM" using Suc.prems by (simp add: disk_inv_def rings_ok_def)
  have hd: "avail_heads s = h # avail_heads u"
    using ring_get_items [OF ne, of "av_ring (avail (vd s))"] r by (simp add: avail_heads_def u_def h_def)
  have "n = length (avail_heads u)" using Suc.hyps(2) hd by simp
  from Suc.hyps(1) [OF this disk_step_inv [OF step Suc.prems]]
  obtain t where t: "(disk_step kills)\<^sup>*\<^sup>* u t" "avail_heads t = []" "set (busy t) = set (busy u) \<union> set (avail_heads u)"
    "vd t = vd u" "vpcs t = vpcs u" by blast
  have "(disk_step kills)\<^sup>*\<^sup>* s t" using step t(1) by (rule converse_rtranclp_into_rtranclp)
  then show ?case using t(2-) hd by (intro exI [of _ t]) (auto simp: u_def)
qed

text \<open>A request that is under way can be brought to the used ring.\<close>

lemma complete_one:
  assumes inv: "disk_inv s" and h: "h \<in> set (pending s)"
  shows "\<exists>t. (disk_step kills)\<^sup>*\<^sup>* s t \<and> h \<in> set (used_heads (vd t)) \<and> vpcs t = vpcs s"
proof (cases "h \<in> set (used_heads (vd s))")
  case True
  then show ?thesis by (intro exI [of _ s]) simp
next
  case False
  obtain t where t: "(disk_step kills)\<^sup>*\<^sup>* s t" "set (busy t) = set (busy s) \<union> set (avail_heads s)" "vpcs t = vpcs s"
    using fetch_all [OF inv, of kills] by blast
  have it: "disk_inv t" using t(1) inv by (induction rule: rtranclp_induct) (auto intro: disk_step_inv)
  have hb: "h \<in> set (busy t)" using h False t(2) by (auto simp: pending_def)
  define u where "u = t\<lparr>busy := remove1 h (busy t), vd := dev_complete h (vd t)\<rparr>"
  have step: "disk_step kills t u" unfolding u_def by (rule disk_step.complete [OF hb])
  have "h \<in> set (used_heads (vd u))" using complete_used(2) [OF it hb] by (simp add: u_def)
  then show ?thesis using t(1,3) step by (intro exI [of _ u]) (auto simp: u_def)
qed

text \<open>How the other processes may move meanwhile: a sleeper may be woken.\<close>

definition stays :: "vpc \<Rightarrow> vpc \<Rightarrow> bool" where
  "stays q q' \<longleftrightarrow> q' = q \<or> (\<exists>b w idx. q = VAsleep b w idx \<and> q' = VReady b w idx)"

lemma disk_steps_inv: "(disk_step kills)\<^sup>*\<^sup>* s t \<Longrightarrow> disk_inv s \<Longrightarrow> disk_inv t"
  by (induction rule: rtranclp_induct) (auto intro: disk_step_inv)

lemma intr_step:
  assumes inv: "disk_inv s"
  obtains t where "disk_step kills s t" "used_heads (vd t) = []" "\<And>p. vpcs t p = wake_bufs (map (the \<circ> info_b (vd s)) (used_heads (vd s))) (vpcs s p)"
    "\<And>b. bdisk (vd t) b \<longleftrightarrow> bdisk (vd s) b \<and> b \<notin> set (map (the \<circ> info_b (vd s)) (used_heads (vd s)))"
  using disk_step.intr [OF intr_ok [OF inv, of 0], of kills] by (auto simp: used_heads_def)

lemma wake_stays: "stays q (wake_bufs bs q)"
  by (cases q) (auto simp: stays_def wake_bufs_def)

lemma finish_step:
  assumes inv: "disk_inv s" and p: "vpcs s p = VReady b w idx" "\<not> bdisk (vd s) b"
  obtains t where "disk_step kills s t" "vpcs t = (vpcs s)(p := VIdle)"
proof -
  have "has_chain s p b w idx" using p by simp
  then have "request_ok (vd s) b w idx" using inv chains_request by (simp add: disk_inv_def)
  from disk_step.finish [OF p disk_rw_finish_ok [OF this]] show ?thesis using that by force
qed

lemma request_can_finish:
  assumes inv: "disk_inv s" and c: "has_chain s p b w idx"
  shows "\<exists>t. (disk_step kills)\<^sup>*\<^sup>* s t \<and> vpcs t p = VIdle \<and> (\<forall>q. q \<noteq> p \<longrightarrow> stays (vpcs s q) (vpcs t q))"
proof -
  obtain t where t: "(disk_step kills)\<^sup>*\<^sup>* s t" "vpcs t = vpcs s" "idx ! 0 \<in> set (used_heads (vd t)) \<or> \<not> bdisk (vd s) b \<and> t = s"
  proof (cases "bdisk (vd s) b")
    case True
    then have "idx ! 0 \<in> set (pending s)" using inv c unfolding disk_inv_def pending_ok_def by blast
    from complete_one [OF inv this, of kills] show ?thesis using that by blast
  qed (use that in blast)
  have it: "disk_inv t" by (rule disk_steps_inv [OF t(1) inv])
  have ct: "has_chain t p b w idx" using c t(2) by simp
  obtain u where u: "disk_step kills t u" "\<And>q. vpcs u q = wake_bufs (map (the \<circ> info_b (vd t)) (used_heads (vd t))) (vpcs t q)"
    "\<And>b. bdisk (vd u) b \<longleftrightarrow> bdisk (vd t) b \<and> b \<notin> set (map (the \<circ> info_b (vd t)) (used_heads (vd t)))"
    using intr_step [OF it, of kills] by metis
  have iu: "disk_inv u" by (rule disk_step_inv [OF u(1) it])
  have "\<not> bdisk (vd u) b" using t(3) u(3) intr_woken [OF it ct] by auto
  moreover have "has_chain u p b w idx" using ct u(2) by simp
  moreover have "vpcs u p \<noteq> VAsleep b w idx" using calculation(1) iu unfolding disk_inv_def pending_ok_def by blast
  ultimately have "vpcs u p = VReady b w idx" by (cases "vpcs u p") auto
  from finish_step [OF iu this \<open>\<not> bdisk (vd u) b\<close>, of kills]
  obtain v where v: "disk_step kills u v" "vpcs v = (vpcs u)(p := VIdle)" by blast
  have "(disk_step kills)\<^sup>*\<^sup>* s v" using t(1) u(1) v(1) by (meson rtranclp.rtrancl_into_rtrancl)
  then show ?thesis using v(2) u(2) t(2) wake_stays by (intro exI [of _ v]) simp
qed

definition free_count :: "vsys \<Rightarrow> nat" where
  "free_count s = card {i. i < NUM \<and> dfree (vd s) i}"

lemma start_step:
  assumes "vpcs s p = VIdle" and "\<And>q. buf_of (vpcs s q) \<noteq> Some b"
  shows "\<exists>t. disk_step kills s t \<and> vpcs t = (vpcs s)(p := VWant b w) \<and> free_count t = free_count s"
  using disk_step.start [OF assms, of kills w]
  by (intro exI [of _ "s\<lparr>vpcs := (vpcs s)(p := VWant b w)\<rparr>"]) (simp add: free_count_def)

lemma submit_step:
  assumes "vpcs s p = VWant b w" and "3 \<le> free_count s"
  shows "\<exists>t idx. disk_step kills s t \<and> vpcs t = (vpcs s)(p := VAsleep b w idx) \<and> free_count t = free_count s - 3"
proof (cases b w "vd s" rule: disk_rw_submit_cases)
  case none
  then show ?thesis using assms(2) by (simp add: free_count_def)
next
  case (some i j k)
  note step = disk_step.submit [OF assms(1) some(1), of kills]
  have "{x. x < NUM \<and> dfree (vd s) x \<and> x \<notin> {i, j, k}} = {x. x < NUM \<and> dfree (vd s) x} - {i, j, k}" by auto
  moreover have "card ({x. x < NUM \<and> dfree (vd s) x} - {i, j, k}) = card {x. x < NUM \<and> dfree (vd s) x} - card {i, j, k}"
    using some by (intro card_Diff_subset) auto
  ultimately have "card {x. x < NUM \<and> dfree (vd s) x \<and> x \<notin> {i, j, k}} = free_count s - 3"
    using some(3) by (simp add: free_count_def)
  then show ?thesis using step by (intro exI [of _ "[i, j, k]"] exI conjI) (auto simp: free_count_def submit_def Let_def)
qed

lemma nodesc_step:
  assumes "vpcs s p = VWant b w" and "free_count s < 3"
  shows "\<exists>t. disk_step kills s t \<and> vpcs t = (vpcs s)(p := VNoDesc b w)"
proof (cases b w "vd s" rule: disk_rw_submit_cases)
  case (none d)
  then show ?thesis using disk_step.nodesc [OF assms(1) none(1), of kills] by force
next
  case (some i j k)
  have "card {i, j, k} \<le> free_count s" unfolding free_count_def using some by (intro card_mono) auto
  then show ?thesis using some(3) assms(2) by simp
qed

text \<open>Two processes take six of the eight descriptors, the third finds too few.\<close>

lemma three_readers:
  "\<exists>s i0 i1. (disk_step False)\<^sup>*\<^sup>* (disk_start bnos) s \<and> vpcs s = (\<lambda>_. VIdle)(0 := VAsleep 0 False i0,
     1 := VAsleep 1 False i1, 2 := VNoDesc 2 False)"
proof -
  let ?S = "disk_step False"
  let ?s0 = "disk_start bnos"
  have "{i. i < NUM \<and> dfree (vdisk_boot bnos) i} = {..<NUM}" by (auto simp: vdisk_boot_def)
  then have 0: "vpcs ?s0 = (\<lambda>_. VIdle)" "free_count ?s0 = 8" by (auto simp: disk_start_def free_count_def NUM_def)
  obtain s1 where 1: "?S ?s0 s1" "vpcs s1 = (\<lambda>_. VIdle)(0 := VWant 0 False)" "free_count s1 = 8"
    using start_step [of ?s0 0 0 False False] 0 by auto
  obtain s2 i0 where 2: "?S s1 s2" "vpcs s2 = (\<lambda>_. VIdle)(0 := VAsleep 0 False i0)" "free_count s2 = 5"
    using submit_step [of s1 0 0 False False] 1 by auto
  have b2: "buf_of (vpcs s2 q) \<noteq> Some 1" for q by (simp add: 2(2))
  obtain s3 where 3: "?S s2 s3" "vpcs s3 = (vpcs s2)(1 := VWant 1 False)" "free_count s3 = 5"
    using start_step [of s2 1 1 False False] b2 2(2,3) by auto
  obtain s4 i1 where 4: "?S s3 s4" "vpcs s4 = (vpcs s3)(1 := VAsleep 1 False i1)" "free_count s4 = 2"
    using submit_step [of s3 1 1 False False] 3 by auto
  have b4: "buf_of (vpcs s4 q) \<noteq> Some 2" for q by (simp add: 4(2) 3(2) 2(2))
  obtain s5 where 5: "?S s4 s5" "vpcs s5 = (vpcs s4)(2 := VWant 2 False)" "free_count s5 = 2"
    using start_step [of s4 2 2 False False] b4 4(2,3) 3(2) 2(2) by auto
  obtain s6 where 6: "?S s5 s6" "vpcs s6 = (vpcs s5)(2 := VNoDesc 2 False)"
    using nodesc_step [of s5 2 2 False False] 5 by auto
  have "?S\<^sup>*\<^sup>* ?s0 s6"
    using 1(1) 2(1) 3(1) 4(1) 5(1) 6(1) by (meson converse_rtranclp_into_rtranclp rtranclp.rtrancl_refl)
  moreover have "vpcs s6 = (\<lambda>_. VIdle)(0 := VAsleep 0 False i0, 1 := VAsleep 1 False i1, 2 := VNoDesc 2 False)"
    by (simp add: 6 5 4 3 2)
  ultimately show ?thesis by blast
qed

text \<open>A process that sleeps for descriptors is only moved by a signal.\<close>

lemma nodesc_stays:
  assumes "(disk_step False)\<^sup>*\<^sup>* s t" "vpcs s p = VNoDesc b w"
  shows "vpcs t p = VNoDesc b w"
  using assms by (induction rule: rtranclp_induct) (auto elim!: disk_step.cases simp: wake_bufs_def)

text \<open>
  C38: a request that is under way can always be finished.  From every reachable state the
  device, the interrupt handler and the waiting process itself can move on so that its
  \<open>disk_rw\<close> returns, without a step of any other process.
\<close>

theorem disk_request_can_finish:
  assumes "(disk_step kills)\<^sup>*\<^sup>* (disk_start bnos) s" and "chain_of (vpcs s p) = Some (b, w, idx)"
  shows "\<exists>t. (disk_step kills)\<^sup>*\<^sup>* s t \<and> vpcs t p = VIdle \<and> (\<forall>q. q \<noteq> p \<longrightarrow> stays (vpcs s q) (vpcs t q))"
  using request_can_finish [OF disk_reach_inv [OF assms(1)] assms(2)] .

text \<open>
  C40: a process that waits for descriptors can wait forever.  \<open>disk_rw\<close> sleeps on \<open>&disk.free[0]\<close>
  when fewer than three of the eight descriptors are free, but nothing wakes that channel:
  three readers can reach a state where the other two have finished, every descriptor is
  free, and the third sleeps in every continuation that does not kill it.
\<close>

theorem disk_waiter_starves:
  "\<exists>s. (disk_step False)\<^sup>*\<^sup>* (disk_start bnos) s \<and> vpcs s = (\<lambda>_. VIdle)(2 := VNoDesc 2 False)
     \<and> (\<forall>i < NUM. dfree (vd s) i) \<and> (\<forall>t. (disk_step False)\<^sup>*\<^sup>* s t \<longrightarrow> vpcs t 2 = VNoDesc 2 False)"
proof -
  obtain s i0 i1 where s: "(disk_step False)\<^sup>*\<^sup>* (disk_start bnos) s" "vpcs s = (\<lambda>_. VIdle)(0 := VAsleep 0 False i0,
      1 := VAsleep 1 False i1, 2 := VNoDesc 2 False)" using three_readers by blast
  have inv: "disk_inv s" by (rule disk_reach_inv [OF s(1)])
  obtain t where t: "(disk_step False)\<^sup>*\<^sup>* s t" "vpcs t 0 = VIdle" "\<forall>q. q \<noteq> 0 \<longrightarrow> stays (vpcs s q) (vpcs t q)"
    using request_can_finish [OF inv, of 0 0 False i0 False] s(2) by auto
  have "stays (VAsleep 1 False i1) (vpcs t 1)" using t(3) [rule_format, of 1] by (simp add: s(2))
  then have "chain_of (vpcs t 1) = Some (1, False, i1)" by (auto simp: stays_def)
  from request_can_finish [OF disk_steps_inv [OF t(1) inv] this, of False]
  obtain u where u: "(disk_step False)\<^sup>*\<^sup>* t u" "vpcs u 1 = VIdle" "\<forall>q. q \<noteq> 1 \<longrightarrow> stays (vpcs t q) (vpcs u q)" by auto
  have pcs: "vpcs u q = ((\<lambda>_. VIdle)(2 := VNoDesc 2 False)) q" for q
    using u(2) t(2) u(3) [rule_format, of q] t(3) [rule_format, of q]
    by (cases "q = 0 \<or> q = 1") (auto simp: s(2) stays_def split: if_splits)
  have reach: "(disk_step False)\<^sup>*\<^sup>* (disk_start bnos) u" using s(1) t(1) u(1) by simp
  have "dfree (vd u) i" if "i < NUM" for i
    using that disk_reach_inv [OF reach] pcs unfolding disk_inv_def chains_ok_def by (auto split: if_splits)
  then show ?thesis using reach pcs nodesc_stays [of u _ 2 2 False]
    by (intro exI [of _ u]) (auto simp: fun_eq_iff)
qed

theorem disk_requests_safe_witness:
  "\<exists>s i0. (disk_step False)\<^sup>*\<^sup>* (disk_start (\<lambda>_. 7)) s \<and> vpcs s 0 = VAsleep 0 False i0
     \<and> vfault s = None \<and> request_ok (vd s) 0 False i0 \<and> bdisk (vd s) 0"
proof -
  obtain s i0 i1 where s: "(disk_step False)\<^sup>*\<^sup>* (disk_start (\<lambda>_. 7)) s" "vpcs s = (\<lambda>_. VIdle)(0 := VAsleep 0 False i0,
      1 := VAsleep 1 False i1, 2 := VNoDesc 2 False)" using three_readers by blast
  have p0: "vpcs s 0 = VAsleep 0 False i0" by (simp add: s(2))
  note safe = disk_requests_safe [OF s(1)]
  have "vfault s = None" using safe by blast
  moreover have "request_ok (vd s) 0 False i0" using safe p0 by (metis chain_of.simps(1))
  moreover have "bdisk (vd s) 0" using safe p0 by blast
  ultimately show ?thesis using s(1) p0 by blast
qed

theorem disk_request_can_finish_witness:
  "\<exists>s t i0. (disk_step False)\<^sup>*\<^sup>* (disk_start (\<lambda>_. 7)) s \<and> vpcs s 0 = VAsleep 0 False i0
     \<and> (disk_step False)\<^sup>*\<^sup>* s t \<and> vpcs t 0 = VIdle"
proof -
  obtain s i0 i1 where s: "(disk_step False)\<^sup>*\<^sup>* (disk_start (\<lambda>_. 7)) s" "vpcs s = (\<lambda>_. VIdle)(0 := VAsleep 0 False i0,
      1 := VAsleep 1 False i1, 2 := VNoDesc 2 False)" using three_readers by blast
  have p0: "vpcs s 0 = VAsleep 0 False i0" by (simp add: s(2))
  then have "chain_of (vpcs s 0) = Some (0, False, i0)" by simp
  from disk_request_can_finish [OF s(1) this] show ?thesis using s(1) p0 by blast
qed

theorem disk_waiter_starves_witness:
  "\<exists>s. (disk_step False)\<^sup>*\<^sup>* (disk_start (\<lambda>_. 7)) s \<and> vpcs s 2 = VNoDesc 2 False \<and> dfree (vd s) 0"
proof -
  obtain s where "(disk_step False)\<^sup>*\<^sup>* (disk_start (\<lambda>_. 7)) s" "\<forall>i < NUM. dfree (vd s) i"
    "\<forall>t. (disk_step False)\<^sup>*\<^sup>* s t \<longrightarrow> vpcs t 2 = VNoDesc 2 False"
    using disk_waiter_starves [of "\<lambda>_. 7"] by blast
  then show ?thesis by (intro exI [of _ s]) (simp add: NUM_def)
qed

end
