(* ===== verification/Path.thy ===== *)
theory Path
  imports Fs
begin

text \<open>
  Path names and directory entries on disk.  \<open>namex\<close> scans a path with pointers into the
  string and keeps the current element in a fixed array; the reference works on the list of
  the elements of the path.  The theory also shows that an inode survives its way to the disk
  block and back.
\<close>

section \<open>The elements of a path\<close>

fun split :: "bytes \<Rightarrow> bytes list" where
  "split [] = [[]]"
| "split (c # cs) = (if c = SLASH then [] # split cs else (c # hd (split cs)) # tl (split cs))"

definition path_elems :: "bytes \<Rightarrow> bytes list" where
  "path_elems path = filter (\<lambda>e. e \<noteq> []) (split path)"

lemma split_eq:
  "split s = takeWhile (\<lambda>c. c \<noteq> SLASH) s # (case dropWhile (\<lambda>c. c \<noteq> SLASH) s of [] \<Rightarrow> [] | _ # r \<Rightarrow> split r)"
  by (induction s) auto

lemma path_elems_simps [simp]:
  "path_elems [] = []" "path_elems (SLASH # cs) = path_elems cs"
  by (simp_all add: path_elems_def)

lemma path_elems_skip [simp]: "path_elems (skip_slashes path) = path_elems path"
  by (induction path) (auto simp: skip_slashes_def)

lemma hd_skip: "skip_slashes path \<noteq> [] \<Longrightarrow> hd (skip_slashes path) \<noteq> SLASH"
  using hd_dropWhile [of "\<lambda>c. c = SLASH" path] by (simp add: skip_slashes_def)

lemma path_elems_Cons:
  assumes "s \<noteq> []" "hd s \<noteq> SLASH"
  shows "path_elems s = takeWhile (\<lambda>c. c \<noteq> SLASH) s # path_elems (dropWhile (\<lambda>c. c \<noteq> SLASH) s)"
proof -
  have e: "takeWhile (\<lambda>c. c \<noteq> SLASH) s \<noteq> []" using assms by (cases s) auto
  show ?thesis
  proof (cases "dropWhile (\<lambda>c. c \<noteq> SLASH) s")
    case Nil
    have "split s = [takeWhile (\<lambda>c. c \<noteq> SLASH) s]" using split_eq [of s] unfolding Nil by simp
    then have "path_elems s = [takeWhile (\<lambda>c. c \<noteq> SLASH) s]" using e by (simp add: path_elems_def)
    then show ?thesis unfolding Nil by simp
  next
    case (Cons c r)
    then have "c = SLASH" using hd_dropWhile [of "\<lambda>c. c \<noteq> SLASH" s] by simp
    then show ?thesis using e split_eq [of s] Cons by (simp add: path_elems_def)
  qed
qed

lemma path_elems_eq_Nil: "path_elems path = [] \<longleftrightarrow> skip_slashes path = []"
  using path_elems_Cons [of "skip_slashes path"] hd_skip [of path]
  by (metis list.distinct(1) path_elems_simps(1) path_elems_skip)

lemma skip_skip [simp]: "skip_slashes (skip_slashes p) = skip_slashes p"
  by (simp add: skip_slashes_def dropWhile_idem)

abbreviation name_str :: "bytes \<Rightarrow> bytes" where
  "name_str name \<equiv> cstr (take DIRSIZ name)"

lemma cstr_id: "0 \<notin> set e \<Longrightarrow> cstr e = e"
  by (auto simp: cstr_def takeWhile_eq_all_conv)

lemma name_str_short: "0 \<notin> set e \<Longrightarrow> length e < DIRSIZ \<Longrightarrow> name_str (e @ 0 # xs) = e"
proof -
  assume "0 \<notin> set e" "length e < DIRSIZ"
  then have "take DIRSIZ (e @ 0 # xs) = e @ 0 # take (DIRSIZ - length e - 1) xs"
    by (cases "DIRSIZ - length e") auto
  then show ?thesis using \<open>0 \<notin> set e\<close> by (auto simp: cstr_def takeWhile_append)
qed

text \<open>One call of \<open>skipelem\<close> takes one element off the list.\<close>

lemma skipelem_elems:
  assumes "0 \<notin> set path"
  shows "case path_elems path of
      [] \<Rightarrow> skipelem path name = Inr None
    | e # es \<Rightarrow> if length e = DIRSIZ then skipelem path name = Inl (Oob ''name'')
        else (\<exists>rest n. skipelem path name = Inr (Some (rest, n)) \<and> path_elems rest = es \<and> (rest = [] \<longleftrightarrow> es = [])
          \<and> 0 \<notin> set rest \<and> name_str n = take DIRSIZ e)"
proof (cases "skip_slashes path = []")
  case True
  then show ?thesis using path_elems_eq_Nil [of path] by (simp add: skipelem_def)
next
  case False
  define s where "s = skip_slashes path"
  define e where "e = takeWhile (\<lambda>c. c \<noteq> SLASH) s"
  define rest where "rest = skip_slashes (dropWhile (\<lambda>c. c \<noteq> SLASH) s)"
  have els: "path_elems path = e # path_elems rest"
    using path_elems_Cons [of s] hd_skip [of path] False by (simp add: s_def e_def rest_def)
  have "set s \<subseteq> set path" by (auto simp: s_def skip_slashes_def dest: set_dropWhileD)
  then have z: "0 \<notin> set e" "0 \<notin> set rest"
    using assms by (auto simp: e_def rest_def skip_slashes_def dest!: set_takeWhileD set_dropWhileD)
  have "rest = [] \<longleftrightarrow> path_elems rest = []" by (simp add: path_elems_eq_Nil rest_def)
  moreover have "0 \<notin> set (take DIRSIZ e)" using z(1) by (auto dest: in_set_takeD)
  ultimately show ?thesis
    using False z name_str_short [of e "drop (length e + 1) name"] cstr_id [of "take DIRSIZ e"]
    by (auto simp: els skipelem_def s_def [symmetric] e_def [symmetric] rest_def [symmetric] Let_def)
qed

text \<open>A directory search depends on the name only up to its terminator.\<close>

lemma dir_lookup_loop_name:
  "name_str n = name_str n' \<Longrightarrow> dir_lookup_loop dp n off s = dir_lookup_loop dp n' off s"
proof (induction dp n off s rule: dir_lookup_loop.induct)
  case (1 dp name off s)
  have eq: "namecmp name x \<longleftrightarrow> namecmp n' x" for x using "1.prems" by (simp add: namecmp_def)
  show ?case
    by (rule trans [OF dir_lookup_loop.simps], rule trans [OF _ dir_lookup_loop.simps [symmetric]], unfold eq,
        intro if_cong refl kbind_cong "1.IH" "1.prems") (simp_all add: eq del: dir_lookup_loop.simps)
qed

lemma dir_lookup_name: "name_str n = name_str n' \<Longrightarrow> dir_lookup dp n = dir_lookup dp n'"
  using dir_lookup_loop_name [of n n' dp 0] by (auto simp: dir_lookup_def fun_eq_iff intro!: kbind_cong)

section \<open>Walking a path\<close>

text \<open>The walk over the list of elements, with the name of the element looked up last.\<close>

fun resolve :: "bool \<Rightarrow> nat \<Rightarrow> bytes \<Rightarrow> bytes list \<Rightarrow> (kstate, nat option \<times> bytes) kop" where
  "resolve par ip nm [] =
     (if par then kthen (iput (Some ip)) (kreturn (None, nm)) else kreturn (Some ip, nm))"
| "resolve par ip nm (e # es) =
     (if length e = DIRSIZ then kfail (Oob ''name'')
      else kthen (ilock (Some ip)) (\<lambda>s.
        if i_type (itab s ip) \<noteq> T_DIR then kthen (iunlockput (Some ip)) (kreturn (None, take DIRSIZ e)) s
        else if par \<and> es = [] then kthen (iunlock (Some ip)) (kreturn (Some ip, take DIRSIZ e)) s
        else kbind (dir_lookup ip (take DIRSIZ e)) (\<lambda>r. case r of
            None \<Rightarrow> kthen (iunlockput (Some ip)) (kreturn (None, take DIRSIZ e))
          | Some (nxt, _) \<Rightarrow> kthen (iunlockput (Some ip)) (resolve par nxt (take DIRSIZ e) es)) s))"

text \<open>The scan and the walk agree on the inode, the name and the state.\<close>

definition with_str :: "(kstate, nat option \<times> bytes) kop \<Rightarrow> (kstate, nat option \<times> bytes) kop" where
  "with_str m = kbind m (\<lambda>(ip, n). kreturn (ip, name_str n))"

lemma with_str_cong: "m s = m' s \<Longrightarrow> with_str m s = with_str m' s"
  by (simp add: with_str_def kbind_def)

lemma with_str_simps:
  "with_str (kbind g h) s = kbind g (\<lambda>a. with_str (h a)) s" "with_str (kreturn (ip, n)) = kreturn (ip, name_str n)"
  by (auto simp: with_str_def kbind_def kreturn_def fun_eq_iff split: sum.splits)

lemma with_str_bind:
  assumes "m s = kbind g h s" and "\<And>a t. g s = Inr (a, t) \<Longrightarrow> with_str (h a) t = f a t"
  shows "with_str m s = kbind g f s"
  using with_str_cong [of m s "kbind g h", OF assms(1)] assms(2) unfolding with_str_simps by (auto intro!: kbind_cong)

text \<open>One pass of the loop, when \<open>skipelem\<close> delivers an element.\<close>

lemma namex_loop_step:
  assumes sk: "skipelem path name = Inr (Some (rest, n))" "rest = [] \<longleftrightarrow> es = []" "name_str n = take DIRSIZ e"
    and len: "length e \<noteq> DIRSIZ"
    and ih: "\<And>nxt. with_str (namex_loop par nxt rest n) = resolve par nxt (take DIRSIZ e) es"
  shows "with_str (namex_loop par ip path name) s = resolve par ip nm (e # es) s"
  unfolding resolve.simps if_not_P [OF len]
proof (rule with_str_bind)
  fix t :: kstate and a
  let ?c = "\<lambda>r s. case r of None \<Rightarrow> kthen (iunlockput (Some ip)) (kreturn (None, n)) s
     | Some (nxt, _) \<Rightarrow> kthen (iunlockput (Some ip)) (\<lambda>s. namex_loop par nxt rest n s) s"
  let ?c' = "\<lambda>r. case r of None \<Rightarrow> kthen (iunlockput (Some ip)) (kreturn (None, take DIRSIZ e))
     | Some (nxt, _) \<Rightarrow> kthen (iunlockput (Some ip)) (resolve par nxt (take DIRSIZ e) es)"
  let ?m = "\<lambda>s. if i_type (itab s ip) \<noteq> T_DIR then kthen (iunlockput (Some ip)) (kreturn (None, n)) s
       else if par \<and> rest = [] then kthen (iunlock (Some ip)) (kreturn (Some ip, n)) s
       else kbind (dir_lookup ip n) ?c s"
  show "namex_loop par ip path name s = kthen (ilock (Some ip)) ?m s"
    by (subst namex_loop.simps) (simp only: sk sum.case option.case prod.case)
  have look: "dir_lookup ip n = dir_lookup ip (take DIRSIZ e)"
    using sk(3) by (intro dir_lookup_name) (metis cstr_def take_take takeWhile_idem min.idem)
  have branch: "with_str (?c r) u = ?c' r u" for r u by (cases r) (auto simp: sk(3) with_str_simps ih)
  show "with_str ?m t = (if i_type (itab t ip) \<noteq> T_DIR then kthen (iunlockput (Some ip)) (kreturn (None, take DIRSIZ e)) t
    else if par \<and> es = [] then kthen (iunlock (Some ip)) (kreturn (Some ip, take DIRSIZ e)) t
    else kbind (dir_lookup ip (take DIRSIZ e)) ?c' t)"
  proof (cases "i_type (itab t ip) \<noteq> T_DIR \<or> par \<and> es = []")
    case True
    then show ?thesis using sk(2) by (auto intro!: with_str_bind simp: with_str_simps sk(3))
  next
    case False
    then have no: "\<not> i_type (itab t ip) \<noteq> T_DIR" "\<not> (par \<and> rest = [])" "\<not> (par \<and> es = [])" using sk(2) by auto
    show ?thesis unfolding if_not_P [OF no(1)] if_not_P [OF no(3)] look [symmetric]
      by (rule with_str_bind) (simp only: if_not_P [OF no(1)] if_not_P [OF no(2)], rule branch)
  qed
qed

lemma namex_loop_resolve:
  assumes "0 \<notin> set path"
  shows "with_str (namex_loop par ip path name) s = resolve par ip (name_str name) (path_elems path) s"
  using assms
proof (induction "path_elems path" arbitrary: par ip path name s)
  case Nil
  then have "skipelem path name = Inr None" using skipelem_elems [of path name] by (simp split: list.splits)
  then show ?case using Nil by (simp add: with_str_def kbind_def kreturn_def split: sum.splits)
next
  case (Cons e es)
  note els = Cons.hyps(2) [symmetric] and next_elem = skipelem_elems [OF Cons.prems, of name]
  show ?case
  proof (cases "length e = DIRSIZ")
    case True
    then have "skipelem path name = Inl (Oob ''name'')" using next_elem by (simp add: els)
    then show ?thesis by (simp add: els True with_str_def kbind_def kfail_def)
  next
    case False
    then obtain rest n where sk: "skipelem path name = Inr (Some (rest, n))" "path_elems rest = es"
      "rest = [] \<longleftrightarrow> es = []" "0 \<notin> set rest" "name_str n = take DIRSIZ e"
      using next_elem by (auto simp: els)
    have "with_str (namex_loop par nxt rest n) = resolve par nxt (take DIRSIZ e) es" for nxt
      using Cons.hyps(1) [OF sk(2) [symmetric] sk(4), of par nxt n] sk(2,5) by (simp add: fun_eq_iff)
    then show ?thesis unfolding els by (rule namex_loop_step [OF sk(1,3,5) False])
  qed
qed

text \<open>
  C15: \<open>namex\<close> walks the elements of the path.  The scan with pointers and a name array does
  exactly what a walk over the list of the elements does, each cut to 14 bytes, with the same
  inode, name, fault and final state, for \<open>namei\<close> and for \<open>nameiparent\<close>.  An element of exactly
  14 bytes is the exception: its terminator is stored behind the array.
\<close>

theorem namex_resolves:
  assumes "0 \<notin> set path"
  shows "kbind (namex path par name) (\<lambda>(ip, n). kreturn (ip, cstr (take DIRSIZ n))) s =
    (if path \<noteq> [] \<and> hd path = SLASH
     then kbind (iget ROOTDEV ROOTINO) (\<lambda>ip. resolve par ip (cstr (take DIRSIZ name)) (path_elems path)) s
     else kbind (idup (p_cwd (curr_proc s))) (\<lambda>ip. resolve par (the ip) (cstr (take DIRSIZ name)) (path_elems path)) s)"
    (is "_ = ?rhs")
  unfolding with_str_def [symmetric]
proof (cases "path \<noteq> [] \<and> hd path = SLASH")
  case True
  show "with_str (namex path par name) s = ?rhs"
    unfolding if_P [OF True]
    by (rule with_str_bind) (simp only: namex_def if_P [OF True], rule namex_loop_resolve [OF assms])
next
  case False
  show "with_str (namex path par name) s = ?rhs"
    unfolding if_not_P [OF False]
    by (rule with_str_bind) (simp only: namex_def if_not_P [OF False], rule namex_loop_resolve [OF assms])
qed

text \<open>The path \<open>/a//bc/\<close>.\<close>

theorem namex_resolves_witness:
  "\<exists>s :: kstate. kbind (namex [47, 97, 47, 47, 98, 99, 47] False (replicate 14 0)) (\<lambda>(ip, n). kreturn (ip, cstr (take DIRSIZ n))) s =
     kbind (iget ROOTDEV ROOTINO) (\<lambda>ip. resolve False ip [] [[97], [98, 99]]) s"
  using namex_resolves [of "[47, 97, 47, 47, 98, 99, 47]" False "replicate 14 0"]
  by (simp add: SLASH_def path_elems_def cstr_def)

end
