(* ===== verification/Txn.thy ===== *)
theory Txn
  imports Log
begin

text \<open>
  What a caller of the log inside a transaction sees of one access to a block: \<open>look_block\<close> for
  \<open>bread\<close> and \<open>brelse\<close>, \<open>edit_block\<close> for a modification that is logged in between.  With them
  whole sequences of calls are followed: three operations that are admitted together and log
  the ten blocks they may, and the end of the last operation, which commits.
\<close>

section \<open>Accesses inside a transaction\<close>

text \<open>The running operation holds no block and may still log \<open>n\<close> blocks.\<close>

definition calm :: "nat \<Rightarrow> 'a log_state_scheme \<Rightarrow> bool" where
  "calm n s \<longleftrightarrow> txn_inv s \<and> locked_block s = (\<lambda>_. False) \<and> (\<forall>b. unat (refs s b) + n + 1 < 2 ^ 32)
     \<and> card {b. refs s b \<noteq> 0} + n < NBUF \<and> lh_n s + int n \<le> int NCOPY \<and> lh_n s + int n \<le> sint (lsize s) - 1
     \<and> 1 \<le> outstanding s"

lemma calmD:
  assumes "calm n s"
  shows "txn_inv s" "bio_inv s" "locked_block s = (\<lambda>_. False)" "unat (refs s b) + n + 1 < 2 ^ 32" "refs s b \<noteq> - 1"
    "card {b. refs s b \<noteq> 0} < NBUF" "length (view s b) = BSIZE"
proof -
  show "txn_inv s" "locked_block s = (\<lambda>_. False)" and r: "unat (refs s b) + n + 1 < 2 ^ 32"
    and "card {b. refs s b \<noteq> 0} < NBUF" using assms by (auto simp: calm_def)
  then show "bio_inv s" "length (view s b) = BSIZE" by (auto intro: txn_invD view_length)
  have "unat (- 1 :: u32) = 2 ^ 32 - 1" unfolding unat_eq_nat_uint uint_word_ariths by simp
  then show "refs s b \<noteq> - 1" using r by auto
qed

lemma calm_mono:
  assumes "calm n s" and "k \<le> n"
  shows "calm k s"
proof -
  have "unat (refs s b) + k + 1 < 2 ^ 32" for b using calmD(4) [OF assms(1), of b] assms(2) by simp
  then show ?thesis using assms by (simp add: calm_def)
qed

text \<open>
  What a transaction step leaves alone: the disk, the place of the log, the operations of the
  transaction and the rest of the state.
\<close>

definition framed :: "'a log_state_scheme \<Rightarrow> 'a log_state_scheme \<Rightarrow> bool" where
  "framed s t \<longleftrightarrow> disk t = disk s \<and> writes t = writes s \<and> lstart t = lstart s \<and> lsize t = lsize s
     \<and> outstanding t = outstanding s \<and> committing t = committing s \<and> mypid t = mypid s
     \<and> log_state.more t = log_state.more s"

lemma framed_refl: "framed s s" and framed_trans: "framed s t \<Longrightarrow> framed t u \<Longrightarrow> framed s u"
  by (simp_all add: framed_def)

lemma framed_area: "framed s t \<Longrightarrow> log_area t = log_area s"
  by (simp add: framed_def log_area_at)

lemma same_disk_framed: "same_disk s t \<Longrightarrow> framed s (t :: 'a log_state_scheme)"
  using same_diskD [of s t] more_eqD [of t s] by (simp add: framed_def)

lemma lwrite_framed:
  "lwrite i s = Inr ((), t) \<Longrightarrow> mypid t = mypid s \<and> committing t = committing s \<and> log_state.more t = log_state.more s"
  by (auto simp: lwrite_def bpin_def upd_buf_def Let_def split: if_splits)

lemma bmod_framed:
  "bmod i f s = Inr ((), t) \<Longrightarrow> mypid t = mypid s \<and> committing t = committing (s :: 'a log_state_scheme)
     \<and> log_state.more t = log_state.more s"
  by (auto simp: bmod_def upd_buf_def kmodify_def split: if_splits)

text \<open>A block without references is as on disk.\<close>

lemma unused_clean:
  assumes inv: "txn_inv s" and "refs s b = 0"
  shows "view s b = disk s b"
proof -
  have "b \<notin> set (take (nblocks s) (lh_block s))"
    using assms all_take [of "nblocks s" "lh_block s" "\<lambda>b. refs s b \<noteq> 0"] txn_invD(3,5) [OF inv]
    by (auto simp: txn_inv_def)
  then show ?thesis using inv by (cases "b \<in> log_area s") (auto simp: txn_inv_def all_logged_def)
qed

lemma logged_refs:
  assumes "txn_inv s" and "b \<in> set (take (nblocks s) (lh_block s))"
  shows "refs s b \<noteq> 0"
  using assms all_take [of "nblocks s" "lh_block s" "\<lambda>b. refs s b \<noteq> 0"] txn_invD(3,5) [OF assms(1)]
  by (auto simp: txn_inv_def)

lemma calm_bread:
  assumes "calm n s"
  obtains i t where "bread ROOTDEV b s = Inr (i, t)" "txn_inv t" "holds t b i" "buf.data (bufs t i) = view s b"
    "refs t = (refs s)(b := refs s b + 1)" "locked_block t = (\<lambda>_. False)(b := True)" "view t = view s"
    "bio_state.more t = bio_state.more s" "framed s t"
proof -
  note C = calmD [OF assms]
  obtain i t where t: "bread ROOTDEV b s = Inr (i, t)" "bio_inv t" "holds t b i" "buf.data (bufs t i) = view s b"
    "refs t = (refs s)(b := refs s b + 1)" "locked_block t = (locked_block s)(b := True)" "view t = view s" "same_disk s t"
    using bread_spec [OF C(2), of b] C(3,5,6) by auto
  note sd = same_diskD [OF t(8)]
  have "refs t x \<noteq> 0" if "x \<in> set (take (nblocks s) (lh_block s))" for x
    using logged_refs [OF C(1) that] C(5) [of x] t(5) by (auto simp: eq_neg_iff_add_eq_0)
  then have "txn_inv t" by (rule txn_inv_frame [OF C(1) t(2,7) sd(1,4)])
  then show thesis using that t C(3) sd same_disk_framed [OF t(8)] by simp
qed

lemma look_block:
  assumes "calm n s"
  obtains i t u where "bread ROOTDEV b s = Inr (i, t)" "buf.data (bufs t i) = view s b" "framed s t"
    "brelse i t = Inr ((), u)" "calm n u" "view u = view s" "framed s u"
proof -
  note C = calmD [OF assms]
  obtain i t where t: "bread ROOTDEV b s = Inr (i, t)" "txn_inv t" "holds t b i" "buf.data (bufs t i) = view s b"
    "refs t = (refs s)(b := refs s b + 1)" "locked_block t = (\<lambda>_. False)(b := True)" "view t = view s"
    "bio_state.more t = bio_state.more s" "framed s t" by (rule calm_bread [OF assms])
  have "view t b = disk t b" if "refs t b = 1"
    using that t(5,7,9) unused_clean [OF C(1), of b] by (simp add: framed_def)
  then obtain u where u: "brelse i t = Inr ((), u)" "bio_inv u" "refs u = (refs t)(b := refs t b - 1)"
    "locked_block u = (locked_block t)(b := False)" "view u = view t" "same_disk t u"
    using brelse_spec [OF txn_invD(1) [OF t(2)] t(3)] by blast
  have m: "bio_state.more u = bio_state.more s" and f: "framed s u" and r: "refs u = refs s"
    using same_diskD(4) [OF u(6)] t(8) framed_trans [OF t(9) same_disk_framed [OF u(6)]] u(3) t(5) by auto
  have "txn_inv u"
    using txn_inv_frame [OF C(1) u(2) _ _ m] u(5) t(7) f logged_refs [OF C(1)] by (simp add: framed_def r)
  moreover have "locked_block u = (\<lambda>_. False)" using u(4) t(6) by auto
  ultimately have "calm n u" using assms more_eqD [OF m] by (simp add: calm_def r)
  then show thesis using that t u f by simp
qed

text \<open>A modification that is logged costs at most one entry of the header.\<close>

lemma calm_spend:
  assumes s: "calm (Suc n) s" and u: "txn_inv u" "locked_block u = (\<lambda>_. False)"
    and "refs u = refs s \<and> lh_n u = lh_n s \<or> refs u = (refs s)(b := refs s b + 1) \<and> lh_n u = lh_n s + 1"
    and "lsize u = lsize s" "outstanding u = outstanding s"
  shows "calm n u"
  using assms(4)
proof
  assume "refs u = refs s \<and> lh_n u = lh_n s"
  then show ?thesis using calm_mono [OF s, of n] u assms(5,6) by (simp add: calm_def)
next
  assume h: "refs u = (refs s)(b := refs s b + 1) \<and> lh_n u = lh_n s + 1"
  have r: "unat (refs u x) + n + 1 < 2 ^ 32" for x
    using h calmD(4) [OF s, of x] unat_plus_simple [of "refs s x" 1]
    by (auto simp: unat_word_ariths)
  have "card {b. refs u b \<noteq> 0} \<le> card {b. refs s b \<noteq> 0} + 1"
    using card_insert_busy [OF calmD(2) [OF s]] h by simp
  then show ?thesis using s u h r assms(5,6) by (simp add: calm_def)
qed

lemma calm_lwrite:
  assumes s: "calm (Suc n) s" and b: "b \<notin> log_area s" and len: "length (f (view s b)) = BSIZE"
  obtains i t v where "bread ROOTDEV b s = Inr (i, t)" "buf.data (bufs t i) = view s b" "framed s t"
    "kthen (bmod i f) (lwrite i) t = Inr ((), v)" "txn_inv v" "holds v b i" "refs v b \<noteq> 1"
    "view v = (view s)(b := f (view s b))" "locked_block v = (\<lambda>_. False)(b := True)" "framed s v"
    "lsize v = lsize s" "outstanding v = outstanding s"
    "refs v = (refs s)(b := refs s b + 1) \<and> lh_n v = lh_n s \<or> refs v = (refs s)(b := refs s b + 1 + 1) \<and> lh_n v = lh_n s + 1"
proof -
  note C = calmD [OF s]
  obtain i t where t: "bread ROOTDEV b s = Inr (i, t)" "txn_inv t" "holds t b i" "buf.data (bufs t i) = view s b"
    "refs t = (refs s)(b := refs s b + 1)" "locked_block t = (\<lambda>_. False)(b := True)" "view t = view s"
    "bio_state.more t = bio_state.more s" "framed s t" by (rule calm_bread [OF s])
  note m = more_eqD [OF t(8)]
  have nb: "nblocks t = nblocks s" by (simp add: nblocks_def m)
  have r: "unat (refs t b) = unat (refs s b) + 1" using t(5) C(4) [of b] by (simp add: unat_word_ariths)
  have "unat (- 1 :: u32) = 2 ^ 32 - 1" unfolding unat_eq_nat_uint uint_word_ariths by simp
  then have max: "refs t b \<noteq> - 1" using r C(4) [of b] by auto
  have room: "lh_n t < int NCOPY" "lh_n t < sint (lsize t) - 1" "1 \<le> outstanding t"
    using s by (auto simp: calm_def m)
  obtain v where v: "kthen (bmod i f) (lwrite i) t = Inr ((), v)" "txn_inv v" "holds v b i"
    "view v = (view t)(b := f (view t b))" "disk v = disk t" "locked_block v = locked_block t" "lstart v = lstart t"
    "lsize v = lsize t" "outstanding v = outstanding t" "writes v = writes t"
    and new: "if b \<in> set (take (nblocks t) (lh_block t)) then lh_n v = lh_n t \<and> refs v = refs t
       else lh_n v = lh_n t + 1 \<and> refs v = (refs t)(b := refs t b + 1)"
    using lwrite_txn [where f = f, OF t(2,3) _ _ room max] b len t(7) framed_area [OF t(9)] by auto
  have fv: "framed s v"
    using v(1,5,7-10) t(9) bmod_framed [of i f t] lwrite_framed [of i _ v]
    by (auto simp: framed_def kbind_def split: sum.splits)
  have "refs v b \<noteq> 1"
  proof
    assume one: "refs v b = 1"
    then have "b \<notin> set (take (nblocks s) (lh_block s))"
      using new r logged_refs [OF C(1), of b] by (auto simp: nb m unat_eq_zero)
    then have "refs t b + 1 = 1" using new one by (simp add: nb m)
    then show False using r by simp
  qed
  then show thesis using that [OF t(1,4,9) v(1-3)] v(4,6,8,9) t(5-7) fv new by (auto simp: m split: if_splits)
qed

lemma edit_block:
  assumes s: "calm (Suc n) s" and b: "b \<notin> log_area s" and len: "length (f (view s b)) = BSIZE"
  obtains i t u where "bread ROOTDEV b s = Inr (i, t)" "buf.data (bufs t i) = view s b" "framed s t"
    "kthen (bmod i f) (kthen (lwrite i) (brelse i)) t = Inr ((), u)" "calm n u"
    "view u = (view s)(b := f (view s b))" "framed s u"
proof -
  obtain i t v where v: "bread ROOTDEV b s = Inr (i, t)" "buf.data (bufs t i) = view s b" "framed s t"
    "kthen (bmod i f) (lwrite i) t = Inr ((), v)" "txn_inv v" "holds v b i" "refs v b \<noteq> 1"
    "view v = (view s)(b := f (view s b))" "locked_block v = (\<lambda>_. False)(b := True)" "framed s v"
    "lsize v = lsize s" "outstanding v = outstanding s"
    and new: "refs v = (refs s)(b := refs s b + 1) \<and> lh_n v = lh_n s
      \<or> refs v = (refs s)(b := refs s b + 1 + 1) \<and> lh_n v = lh_n s + 1"
    by (rule calm_lwrite [where f = f, OF assms])
  obtain u where u: "brelse i v = Inr ((), u)" "bio_inv u" "refs u = (refs v)(b := refs v b - 1)"
    "locked_block u = (locked_block v)(b := False)" "view u = view v" "same_disk v u"
    using brelse_spec [OF txn_invD(1) [OF v(5)] v(6)] v(7) by blast
  note sd = same_diskD [OF u(6)] and m = more_eqD [OF same_diskD(4) [OF u(6)]]
  have refs: "refs u = refs s \<and> lh_n u = lh_n s \<or> refs u = (refs s)(b := refs s b + 1) \<and> lh_n u = lh_n s + 1"
    using u(3) new by (auto simp: m)
  have "refs u x \<noteq> 0" if "x \<in> set (take (nblocks v) (lh_block v))" for x
    using logged_refs [OF v(5) that] u(3) v(7) by (auto split: if_splits)
  then have "txn_inv u" by (rule txn_inv_frame [OF v(5) u(2,5) sd(1,4)])
  moreover have "locked_block u = (\<lambda>_. False)" using u(4) v(9) by auto
  ultimately have "calm n u" using calm_spend [OF s _ _ refs] v(11,12) by (simp add: m)
  moreover have "kthen (bmod i f) (kthen (lwrite i) (brelse i)) t = Inr ((), u)"
    using v(4) u(1) by (auto simp: kbind_def split: sum.splits)
  ultimately show thesis
    using that [OF v(1-3)] u(5) v(8) framed_trans [OF v(10) same_disk_framed [OF u(6)]] by simp
qed

lemma kthen_chain:
  assumes "kthen a (kthen b c) s = Inr ((), t)"
  shows "kthen a (kthen b (kthen c m)) s = m t"
  using assms by (auto simp: kbind_def split: sum.splits)

text \<open>The counters of operations are no part of what the cache and the header hold.\<close>

lemma log_cong:
  assumes "bufs t = bufs s" "bnext t = bnext s" "bprev t = bprev s" "disk t = disk s" "lstart t = lstart s"
    "ldev t = ldev s" "lh_n t = lh_n s" "lh_block t = lh_block s"
  shows "view t = view s" "refs t = refs s" "locked_block t = locked_block s" "txn_inv t = txn_inv s"
    "commit_ready t = commit_ready s" "commit_writes t = commit_writes s"
proof -
  note b = blocks_cong [OF assms(1)] bio_inv_cong [OF assms(1-4)]
  note v = b(4) [OF assms(4)]
  have a: "log_area t = log_area s" "nblocks t = nblocks s" "log_copy t = log_copy s"
    using assms by (simp_all add: log_area_at nblocks_def log_copy_def fun_eq_iff)
  then have l: "log_ok t = log_ok s" "all_logged t = all_logged s"
    using assms v by (simp_all add: log_ok_def all_logged_def)
  show "view t = view s" "refs t = refs s" "locked_block t = locked_block s" using b(2,3) v by simp_all
  show "txn_inv t = txn_inv s" by (simp add: txn_inv_def assms b v a l)
  show "commit_ready t = commit_ready s" by (simp add: commit_ready_def quiet_def assms b v a l)
  show "commit_writes t = commit_writes s"
    by (simp add: commit_writes_def copy_writes_def home_writes_def full_header_def assms v a)
qed

text \<open>The last operation that ends commits.\<close>

lemma end_op_commits:
  assumes "calm 1 t" and "outstanding t = 1" and "\<not> committing t" and "0 < lh_n t"
  obtains v where "end_op t = Inr ((), v)" "writes v = writes t @ commit_writes t"
    "disk v = apply_writes (commit_writes t) (disk t)" "lh_n v = 0"
proof -
  let ?t = "t\<lparr>outstanding := 0, committing := True\<rparr>"
  have "commit_ready t" using assms(1) calmD(5) [OF assms(1)] by (auto simp: calm_def intro!: txn_commit_ready)
  then have r: "commit_ready ?t" and w: "commit_writes ?t = commit_writes t" by (simp_all add: log_cong [of ?t t])
  obtain v where v: "commit ?t = Inr ((), v)" "writes v = writes ?t @ commit_writes ?t"
    "disk v = apply_writes (commit_writes ?t) (disk ?t)" "lh_n v = 0"
    using commit_spec [OF r] assms(4) by auto
  then show thesis using that [of "v\<lparr>committing := False\<rparr>"] assms w by (simp add: end_op_def Let_def kbind_Inr)
qed

section \<open>Three operations at a time\<close>

text \<open>What the callers do with a block: read it, change it, log it and give it back.\<close>

definition log_block :: "(u32 \<Rightarrow> bytes \<Rightarrow> bytes) \<Rightarrow> u32 \<Rightarrow> ('a log_state_scheme, unit) kop" where
  "log_block f b = kbind (bread ROOTDEV b) (\<lambda>i. kthen (bmod i (f b)) (kthen (lwrite i) (brelse i)))"

lemma log_blocks:
  assumes "calm (n + length bl) s" and "distinct bl"
    and "\<And>b. b \<in> set bl \<Longrightarrow> b \<notin> log_area s \<and> length (f b (view s b)) = BSIZE"
  shows "\<exists>u. kfor (log_block f) bl s = Inr ((), u) \<and> calm n u \<and> framed s u
    \<and> view u = (\<lambda>x. if x \<in> set bl then f x (view s x) else view s x)"
  using assms
proof (induction bl arbitrary: s)
  case Nil
  then show ?case by (simp add: framed_refl)
next
  case (Cons b bl)
  have c: "calm (Suc (n + length bl)) s" "b \<notin> log_area s" "length (f b (view s b)) = BSIZE"
    using Cons.prems by auto
  obtain i t u where "bread ROOTDEV b s = Inr (i, t)"
    and e: "kthen (bmod i (f b)) (kthen (lwrite i) (brelse i)) t = Inr ((), u)"
    and u: "calm (n + length bl) u" "view u = (view s)(b := f b (view s b))" "framed s u"
    by (rule edit_block [where f = "f b", OF c])
  then have lb: "log_block f b s = Inr ((), u)" using e by (simp add: log_block_def kbind_Inr)
  have "\<exists>v. kfor (log_block f) bl u = Inr ((), v) \<and> calm n v \<and> framed u v
    \<and> view v = (\<lambda>x. if x \<in> set bl then f x (view u x) else view u x)"
    using Cons.prems(2,3) by (intro Cons.IH u(1)) (auto simp: u(2) framed_area [OF u(3)])
  then obtain v where v: "kfor (log_block f) bl u = Inr ((), v)" "calm n v" "framed u v"
    "view v = (\<lambda>x. if x \<in> set bl then f x (view u x) else view u x)" by blast
  have "kfor (log_block f) (b # bl) s = Inr ((), v)" using lb v(1) by (simp add: kbind_Inr)
  moreover have "view v = (\<lambda>x. if x \<in> set (b # bl) then f x (view s x) else view s x)"
    using Cons.prems(2) by (auto simp: v(4) u(2))
  ultimately show ?case using v(2) framed_trans [OF u(3) v(3)] by blast
qed

text \<open>Every block that differs from the disk takes an entry of the header.\<close>

lemma logged_count:
  assumes "txn_inv u" and "\<And>b. b \<in> A \<Longrightarrow> b \<notin> log_area u \<and> view u b \<noteq> disk u b"
  shows "card A \<le> nblocks u"
proof -
  have "A \<subseteq> set (take (nblocks u) (lh_block u))"
    using assms by (auto simp: txn_inv_def all_logged_def)
  then have "card A \<le> card (set (take (nblocks u) (lh_block u)))" by (intro card_mono) simp_all
  also have "\<dots> \<le> nblocks u" using card_length [of "take (nblocks u) (lh_block u)"] by simp
  finally show ?thesis .
qed

text \<open>With the log full, the next block panics.\<close>

lemma log_block_full:
  assumes "calm 0 u" and "sint (lsize u) - 1 \<le> lh_n u" and "length (f b (view u b)) = BSIZE"
  shows "log_block f b u = Inl (Panic ''too big a transaction'')"
proof -
  obtain i t where t: "bread ROOTDEV b u = Inr (i, t)" "txn_inv t" "holds t b i" "view t = view u"
    "bio_state.more t = bio_state.more u" by (rule calm_bread [OF assms(1)])
  obtain v where v: "bmod i (f b) t = Inr ((), v)" "same_disk t v"
    using bmod_spec [OF txn_invD(1) [OF t(2)] t(3), of "f b"] assms(3) t(4) by auto
  note m = more_eqD [OF same_diskD(4) [OF v(2)]] and n = more_eqD [OF t(5)]
  have "lwrite i v = Inl (Panic ''too big a transaction'')" using assms(2) by (simp add: lwrite_def m n)
  then show ?thesis using t(1) v(1) by (simp add: log_block_def kbind_Inr kbind_Inl)
qed

text \<open>
  C35: the reservation promises one block too many.  On an idle log of \<open>LOGSIZE\<close> blocks, which is
  what \<open>mkfs\<close> makes, \<open>begin_op\<close> admits three operations at once and reserves ten blocks for each.
  When they log the ten blocks they may, 30 different data blocks in whatever order, the
  first 29 go into the header and the last one panics in \<open>lwrite\<close>, because the header itself is
  one of the \<open>LOGSIZE\<close> blocks.
\<close>

theorem admitted_operations_panic:
  assumes "txn_inv s" and "locked_block s = (\<lambda>_. False)" and "refs s = (\<lambda>_. 0)"
    and "lh_n s = 0" and "outstanding s = 0" and "\<not> committing s" and "lsize s = of_nat LOGSIZE"
    and "length bl = 3 * unat MAXOPBLOCKS" and "distinct bl"
    and "\<forall>b \<in> set bl. b \<notin> log_area s \<and> length (f b (disk s b)) = BSIZE \<and> f b (disk s b) \<noteq> disk s b"
  shows "\<exists>t u. kthen begin_op (kthen begin_op begin_op) s = Inr ((), t)
    \<and> room t [unat MAXOPBLOCKS, unat MAXOPBLOCKS, unat MAXOPBLOCKS]
    \<and> kfor (log_block f) (take (LOGSIZE - 1) bl) t = Inr ((), u) \<and> lh_n u = int LOGSIZE - 1
    \<and> kfor (log_block f) bl t = Inl (Panic ''too big a transaction'')"
proof -
  define t where "t = s\<lparr>outstanding := 3\<rparr>"
  have adm: "kthen begin_op (kthen begin_op begin_op) s = Inr ((), t)"
    using assms(4-6) by (simp add: begin_op_def kbind_def t_def MAXOPBLOCKS_def LOGSIZE_def)
  have cong: "view t = view s" "refs t = refs s" "locked_block t = locked_block s" "txn_inv t = txn_inv s"
    "disk t = disk s" "log_area t = log_area s"
    using log_cong [of t s] by (simp_all add: t_def log_area_at)
  have len: "length bl = 30" using assms(8) by (simp add: MAXOPBLOCKS_def)
  define xs b where "xs = take 29 bl" and "b = bl ! 29"
  have bl: "bl = xs @ [b]" using len take_Suc_conv_app_nth [of 29 bl] by (simp add: xs_def b_def)
  have vd: "view s x = disk s x" for x using unused_clean [OF assms(1)] assms(3) by simp
  have "calm (0 + length xs) t"
    using assms(1-4,7) len
    by (simp add: calm_def cong xs_def) (simp add: t_def NBUF_def NCOPY_def LOGSIZE_def)
  moreover have x: "\<And>x. x \<in> set bl \<Longrightarrow> x \<notin> log_area t \<and> length (f x (view t x)) = BSIZE"
    using assms(10) by (simp add: cong vd)
  ultimately obtain u where u: "kfor (log_block f) xs t = Inr ((), u)" "calm 0 u" "framed t u"
    "view u = (\<lambda>x. if x \<in> set xs then f x (view t x) else view t x)"
    using log_blocks [of 0 xs t f] assms(9) by (auto simp: bl)
  have "card (set xs) \<le> nblocks u"
    by (rule logged_count [OF calmD(1) [OF u(2)]])
      (use assms(10) u(3) in \<open>simp add: bl u(4) cong vd framed_area [OF u(3)] framed_def\<close>)
  moreover have "card (set xs) = 29" using assms(9) len distinct_card [of xs] by (simp add: bl)
  ultimately have n: "lh_n u = 29" "lsize u = 30"
    using u(2,3) assms(7) by (auto simp: calm_def nblocks_def framed_def t_def NCOPY_def LOGSIZE_def)
  have "log_block f b u = Inl (Panic ''too big a transaction'')"
    by (rule log_block_full [OF u(2)]) (use n x [of b] assms(9) in \<open>auto simp: bl u(4)\<close>)
  then have "kfor (log_block f) bl t = Inl (Panic ''too big a transaction'')"
    unfolding bl kfor_append using u(1) by (simp add: kbind_Inr kbind_Inl)
  moreover have "room t [unat MAXOPBLOCKS, unat MAXOPBLOCKS, unat MAXOPBLOCKS]"
    using assms(4) by (simp add: room_def t_def MAXOPBLOCKS_def LOGSIZE_def)
  ultimately show ?thesis using adm u(1) n by (intro exI [of _ t] exI [of _ u]) (simp add: xs_def LOGSIZE_def)
qed

theorem admitted_operations_panic_witness:
  "\<exists>t u. kthen begin_op (kthen begin_op begin_op) (demo_start\<lparr>outstanding := 0\<rparr>) = Inr ((), t)
     \<and> room t [10, 10, 10]
     \<and> kfor (log_block (\<lambda>_ _. replicate BSIZE 1)) (map of_nat [100..<129]) t = Inr ((), u) \<and> lh_n u = 29
     \<and> kfor (log_block (\<lambda>_ _. replicate BSIZE 1)) (map of_nat [100..<130]) t = Inl (Panic ''too big a transaction'')"
proof -
  let ?s = "demo_start\<lparr>outstanding := 0\<rparr>"
  note D = demo_start_ok and c = log_cong [of ?s demo_start]
  have f: "txn_inv ?s" "locked_block ?s = (\<lambda>_. False)" "refs ?s = (\<lambda>_. 0)" using D(1,2) c by (simp_all add: fresh_def)
  have "\<not> committing ?s" by (simp add: demo_start_def)
  moreover have "(of_nat n :: u32) \<notin> log_area ?s" if n: "n \<in> {100..<130}" for n
  proof
    assume "of_nat n \<in> log_area ?s"
    then consider "of_nat n = (2 :: u32)" | k where "k < 29" "of_nat n = (of_nat (3 + k) :: u32)"
      using D(4) by (auto simp: log_area_def log_copy_def NCOPY_def LOGSIZE_def)
    then show False
    proof cases
      case 1
      from arg_cong [OF this, of unat] show False using n by (simp add: unat_of_nat)
    next
      case 2
      from arg_cong [OF 2(2), of unat] show False using n 2(1) by (simp add: unat_of_nat del: of_nat_add)
    qed
  qed
  moreover have "inj_on (of_nat :: nat \<Rightarrow> u32) {100..<130}"
    by (rule inj_onI) (drule arg_cong [of _ _ unat], simp add: unat_of_nat)
  moreover have "replicate BSIZE 1 \<noteq> demo_disk b" for b by (simp add: demo_disk_def BSIZE_def)
  ultimately show ?thesis
    using admitted_operations_panic [OF f, of "map of_nat [100..<130]" "\<lambda>_ _. replicate BSIZE 1"] D(3,5,8)
    by (simp add: distinct_map MAXOPBLOCKS_def LOGSIZE_def take_map take_upt del: upt_rec_numeral)
qed

end
