(* ===== verification/Falloc.thy ===== *)
theory Falloc
  imports Fs Txn
begin

text \<open>
  The free map and the inodes on top of the log.  With what theory \<open>Txn\<close> shows of single
  accesses to blocks, \<open>balloc\<close> is shown to allocate the first free block, and \<open>iupdate\<close> and \<open>ilock\<close> to
  carry an inode to the disk and back.
\<close>

section \<open>The free map\<close>

lemma framed_kstate:
  assumes "framed s (t :: kstate)"
  shows "sb t = sb s" "itab t = itab s" "kvm t = kvm s" "procs t = procs s" "ftab t = ftab s"
  using assms by (cases s; cases t; simp add: framed_def)+

definition in_use :: "(u32 \<Rightarrow> bytes) \<Rightarrow> superblock \<Rightarrow> u32 \<Rightarrow> bool" where
  "in_use v x b \<longleftrightarrow> (let bi = unat (b mod of_nat BPB) in v (BBLOCK b x) ! (bi div 8) AND bit_mask bi \<noteq> 0)"

definition mark :: "u32 \<Rightarrow> bytes \<Rightarrow> bytes" where
  "mark b d = (let bi = unat (b mod of_nat BPB) in d[bi div 8 := d ! (bi div 8) OR bit_mask bi])"

lemma mask_bit: "(x :: u8) AND bit_mask bi \<noteq> 0 \<longleftrightarrow> bit x (bi mod 8)"
proof -
  have "x AND bit_mask bi = (if bit x (bi mod 8) then bit_mask bi else 0)"
    by (rule bit_word_eqI) (auto simp: bit_mask_def bit_simps)
  moreover have "bit (bit_mask bi) (bi mod 8)" by (simp add: bit_mask_def bit_simps)
  ultimately show ?thesis by (cases "bit x (bi mod 8)") auto
qed

lemma in_use_bit:
  "in_use v x b \<longleftrightarrow> bit (v (BBLOCK b x) ! (unat (b mod of_nat BPB) div 8)) (unat (b mod of_nat BPB) mod 8)"
  by (simp add: in_use_def Let_def mask_bit)

text \<open>Blocks of the file system by the number of their map block and the bit in it.\<close>

lemma map_position:
  assumes "8192 * k + bi < 2 ^ 32" and "bi < 8192"
  defines "c \<equiv> of_nat (8192 * k) + of_nat bi :: u32"
  shows "unat c = 8192 * k + bi" "unat (c mod of_nat BPB) = bi" "BBLOCK c x = BBLOCK (of_nat (8192 * k)) x"
proof -
  have c: "c = of_nat (8192 * k + bi)" by (simp add: c_def)
  show u: "unat c = 8192 * k + bi" unfolding c using assms(1) by (intro unat_of_nat_lt) simp
  have u0: "unat (of_nat (8192 * k) :: u32) = 8192 * k" using assms(1) by (intro unat_of_nat_lt) simp
  have p: "unat (of_nat BPB :: u32) = 8192" by (simp add: BPB_def)
  show "unat (c mod of_nat BPB) = bi" using assms(2) by (simp add: unat_mod u p)
  have "c div of_nat BPB = of_nat (8192 * k) div of_nat BPB"
    unfolding word_unat_eq_iff unat_div u u0 p using assms(2) by simp
  then show "BBLOCK c x = BBLOCK (of_nat (8192 * k)) x" by (simp add: BBLOCK_def)
qed

lemma takeWhile_upt:
  assumes "\<And>i j. i \<le> j \<Longrightarrow> j < n \<Longrightarrow> Q j \<Longrightarrow> Q i"
  shows "\<exists>m \<le> n. takeWhile Q [0..<n] = [0..<m] \<and> (\<forall>i < n. i < m \<longleftrightarrow> Q i)"
proof -
  let ?m = "length (takeWhile Q [0..<n])"
  have m: "?m \<le> n" using length_takeWhile_le [of Q "[0..<n]"] by simp
  have "takeWhile Q [0..<n] = [0..<?m]" using takeWhile_eq_take [of Q "[0..<n]"] m by simp
  moreover have "Q i" if "i < ?m" for i
    using that takeWhile_nth [OF that] nth_mem [OF that] m by (auto dest!: set_takeWhileD)
  moreover have "i < ?m" if "Q i" "i < n" for i
  proof (rule ccontr)
    assume "\<not> i < ?m"
    then have "?m < n" "\<not> Q ?m" using that nth_length_takeWhile [of Q "[0..<n]"] by auto
    then show False using assms [of ?m i] that \<open>\<not> i < ?m\<close> by simp
  qed
  ultimately show ?thesis using m by blast
qed

lemma free_bit_spec:
  assumes k: "8192 * k + 8192 \<le> 2 ^ 32" and b: "b = of_nat (8192 * k)"
  shows "case free_bit b sz (v (BBLOCK b x)) of
      None \<Rightarrow> \<forall>c < sz. unat c div 8192 = k \<longrightarrow> in_use v x c
    | Some bi \<Rightarrow> bi < 8192 \<and> b + of_nat bi < sz \<and> \<not> in_use v x (b + of_nat bi)
        \<and> (\<forall>c < b + of_nat bi. unat c div 8192 = k \<longrightarrow> in_use v x c)"
proof -
  note pos = map_position [where k = k, folded b]
  let ?Q = "\<lambda>bi. b + of_nat bi < sz" and ?P = "\<lambda>bi. v (BBLOCK b x) ! (bi div 8) AND bit_mask bi = 0"
  have use_at: "in_use v x (b + of_nat bi) \<longleftrightarrow> \<not> ?P bi" if "bi < 8192" for bi
    using pos(2,3) [of bi] that k by (simp add: in_use_def Let_def)
  have "?Q i" if "i \<le> j" "j < BPB" "?Q j" for i j
    using that pos(1) [of i] pos(1) [of j] k by (simp add: word_less_nat_alt BPB_def)
  then obtain m where m: "m \<le> 8192" "takeWhile ?Q [0..<BPB] = [0..<m]" "\<And>i. i < 8192 \<Longrightarrow> i < m \<longleftrightarrow> ?Q i"
    using takeWhile_upt [of BPB ?Q] by (auto simp: BPB_def)
  then have fb: "free_bit b sz (v (BBLOCK b x)) = find ?P [0..<m]" by (simp add: free_bit_def)
  have un: "unat c = 8192 * k + unat c mod 8192" if "unat c div 8192 = k" for c :: u32
    using that mult_div_mod_eq [of 8192 "unat c"] by simp
  have at: "c = b + of_nat (unat c mod 8192)" if "unat c div 8192 = k" for c :: u32
    using un [OF that] pos(1) [of "unat c mod 8192"] k by (simp add: word_unat_eq_iff)
  have used: "in_use v x c" if "unat c div 8192 = k" "\<not> ?P (unat c mod 8192)" for c
    using use_at [of "unat c mod 8192"] at [OF that(1)] that(2) by simp
  show ?thesis
  proof (cases "find ?P [0..<m]")
    case None
    then have "\<not> ?P i" if "i < m" for i using that by (auto simp: find_None_iff)
    then show ?thesis using None used at m(3) by (auto simp: fb)
  next
    case (Some bi)
    then have f: "bi < m" "?P bi" "\<And>i. i < bi \<Longrightarrow> \<not> ?P i" by (auto simp: find_Some_iff)
    have "unat c mod 8192 < bi" if "c < b + of_nat bi" "unat c div 8192 = k" for c
      using that(1) un [OF that(2)] pos(1) [of bi] f(1) m(1) k by (simp add: word_less_nat_alt)
    moreover have "bi < 8192" "?Q bi" using f(1) m(1) m(3) [of bi] by auto
    ultimately show ?thesis using Some f(2,3) used use_at by (auto simp: fb)
  qed
qed

text \<open>
  The layout that \<open>balloc\<close> relies on: the map is no part of the log, and the log and the map
  themselves are marked as in use.
\<close>

definition map_ok :: "kstate \<Rightarrow> bool" where
  "map_ok s \<longleftrightarrow> unat (sb_size (sb s)) + 8192 \<le> 2 ^ 32 \<and> (\<forall>c < sb_size (sb s). BBLOCK c (sb s) \<notin> log_area s
     \<and> (c \<in> log_area s \<or> c \<in> (\<lambda>c. BBLOCK c (sb s)) ` {c. c < sb_size (sb s)} \<longrightarrow> in_use (view s) (sb s) c))"

definition allocated :: "nat \<Rightarrow> kstate \<Rightarrow> u32 \<Rightarrow> kstate \<Rightarrow> bool" where
  "allocated n s r t \<longleftrightarrow> r < sb_size (sb s) \<and> \<not> in_use (view s) (sb s) r \<and> (\<forall>c < r. in_use (view s) (sb s) c)
     \<and> view t = (view s)(BBLOCK r (sb s) := mark r (view s (BBLOCK r (sb s))), r := replicate BSIZE 0)
     \<and> calm n t \<and> framed s t"

definition none_free :: "nat \<Rightarrow> kstate \<Rightarrow> kstate \<Rightarrow> bool" where
  "none_free n s t \<longleftrightarrow> (\<forall>c < sb_size (sb s). in_use (view s) (sb s) c) \<and> view t = view s \<and> calm (Suc (Suc n)) t \<and> framed s t"

lemma bzero_spec:
  assumes "calm (Suc n) s" and "b \<notin> log_area s"
  obtains t where "bzero ROOTDEV b s = Inr ((), t)" "calm n t" "view t = (view s)(b := replicate BSIZE 0)" "framed s t"
proof (rule edit_block [where f = "\<lambda>_. replicate BSIZE 0", OF assms])
  fix i t u
  assume "bread ROOTDEV b s = Inr (i, t)" "kthen (bmod i (\<lambda>_. replicate BSIZE 0)) (kthen (lwrite i) (brelse i)) t = Inr ((), u)"
    "calm n u" "view u = (view s)(b := replicate BSIZE 0)" "framed s u"
  then show thesis by (intro that [of u]) (simp_all add: bzero_def kbind_Inr)
qed simp

text \<open>The branch of the loop that finds a clear bit.\<close>

lemma balloc_take:
  assumes s: "calm (Suc (Suc n)) s" "map_ok s" and k: "8192 * k + 8192 \<le> 2 ^ 32" and b: "b = of_nat (8192 * k)"
    and fb: "free_bit b (sb_size (sb s)) (view s (BBLOCK b (sb s))) = Some bi" "b < sb_size (sb s)"
    and before: "\<forall>c < sb_size (sb s). unat c < 8192 * k \<longrightarrow> in_use (view s) (sb s) c"
  shows "\<exists>r t. balloc_loop ROOTDEV b s = Inr (r, t) \<and> allocated n s r t"
proof -
  define r where "r = b + of_nat bi"
  have r: "bi < 8192" "r < sb_size (sb s)" "\<not> in_use (view s) (sb s) r"
    "\<And>c. c < r \<Longrightarrow> unat c div 8192 = k \<Longrightarrow> in_use (view s) (sb s) c"
    using free_bit_spec [OF k b, of "sb_size (sb s)" "view s" "sb s"] fb by (auto simp: r_def)
  note pos = map_position [where k = k and bi = bi, folded b, folded r_def]
  have pr: "unat r = 8192 * k + bi" "unat (r mod of_nat BPB) = bi" "BBLOCK r (sb s) = BBLOCK b (sb s)"
    using pos r(1) k by auto
  have first: "in_use (view s) (sb s) c" if "c < r" for c
  proof -
    have "unat c < 8192 * k \<or> unat c div 8192 = k" using that pr(1) r(1) by (auto simp: word_less_nat_alt)
    then show ?thesis using that before r(2,4) by auto
  qed
  have na: "BBLOCK b (sb s) \<notin> log_area s" "r \<notin> log_area s" using s(2) fb(2) r(2,3) by (auto simp: map_ok_def)
  have mk: "(\<lambda>x. x[bi div 8 := x ! (bi div 8) OR bit_mask bi]) = mark r" by (simp add: mark_def pr(2) fun_eq_iff)
  obtain i t u where u: "bread ROOTDEV (BBLOCK b (sb s)) s = Inr (i, t)" "buf.data (bufs t i) = view s (BBLOCK b (sb s))" "framed s t"
    "kthen (bmod i (mark r)) (kthen (lwrite i) (brelse i)) t = Inr ((), u)" "calm (Suc n) u"
    "view u = (view s)(BBLOCK b (sb s) := mark r (view s (BBLOCK b (sb s))))" "framed s u"
    using edit_block [where f = "mark r", OF s(1) na(1)] calmD(7) [OF s(1)] by (auto simp: mark_def Let_def)
  have "r \<notin> log_area u" using na(2) framed_area [OF u(7)] by simp
  then obtain v where v: "bzero ROOTDEV r u = Inr ((), v)" "calm n v" "view v = (view u)(r := replicate BSIZE 0)" "framed u v"
    using bzero_spec [of n u r] u(5) by auto
  have "balloc_loop ROOTDEV b s = Inr (r, v)"
    using fb u v by (subst balloc_loop.simps)
      (simp add: kbind_Inr mk kthen_chain [OF u(4)] kreturn_def flip: r_def)
  moreover have "allocated n s r v"
    using r first v u(6) framed_trans [OF u(7) v(4)] by (simp add: allocated_def pr(3))
  ultimately show ?thesis by blast
qed

lemma calm_map_ok:
  assumes "framed s t" and "view t = view s" and "map_ok s"
  shows "map_ok t"
  using assms(3) by (simp add: map_ok_def framed_kstate [OF assms(1)] framed_area [OF assms(1)] assms(2))

lemma balloc_loop_spec:
  assumes "calm (Suc (Suc n)) s" "map_ok s" and "8192 * k < 2 ^ 32"
    and "\<forall>c < sb_size (sb s). unat c < 8192 * k \<longrightarrow> in_use (view s) (sb s) c"
  shows "\<exists>r t. balloc_loop ROOTDEV (of_nat (8192 * k)) s = Inr (r, t) \<and> (allocated n s r t \<or> r = 0 \<and> none_free n s t)"
  using assms
proof (induction "2 ^ 19 - k" arbitrary: k s rule: less_induct)
  case less
  define b where "b = (of_nat (8192 * k) :: u32)"
  let ?sz = "sb_size (sb s)" and ?m = "BBLOCK b (sb s)"
  have ub: "unat b = 8192 * k" unfolding b_def using less.prems(3) by (intro unat_of_nat_lt) simp
  show ?case
  proof (cases "b < ?sz")
    case False
    then have "none_free n s s"
      using less.prems by (auto simp: none_free_def framed_refl word_less_nat_alt ub)
    then show ?thesis using False by (subst balloc_loop.simps) (auto simp: b_def)
  next
    case True
    then have k: "8192 * k + 8192 < 2 ^ 32"
      using less.prems(2) ub by (auto simp: map_ok_def word_less_nat_alt)
    then have nx: "unat (b + of_nat BPB) = 8192 * Suc k" "b + of_nat BPB = of_nat (8192 * Suc k)" "b < b + of_nat BPB"
      using ub by (simp_all add: unat_word_ariths BPB_def b_def word_less_nat_alt)
    show ?thesis
    proof (cases "free_bit b ?sz (view s ?m)")
      case (Some bi)
      then show ?thesis
        using balloc_take [OF less.prems(1,2) _ b_def Some True less.prems(4)] k by (auto simp: b_def)
    next
      case None
      obtain i t u where u: "bread ROOTDEV ?m s = Inr (i, t)" "buf.data (bufs t i) = view s ?m" "framed s t"
        "brelse i t = Inr ((), u)" "calm (Suc (Suc n)) u" "view u = view s" "framed s u" by (rule look_block [OF less.prems(1)])
      have step: "balloc_loop ROOTDEV b s = balloc_loop ROOTDEV (of_nat (8192 * Suc k)) u"
        using True None u nx by (subst balloc_loop.simps) (simp add: kbind_Inr del: of_nat_mult of_nat_Suc balloc_loop.simps)
      have "in_use (view s) (sb s) c" if "c < ?sz" "unat c < 8192 * Suc k" for c
      proof -
        have "unat c < 8192 * k \<or> unat c div 8192 = k" using that(2) by auto
        then show ?thesis using that(1) less.prems(4) free_bit_spec [OF _ b_def, of ?sz "view s" "sb s"] None k by auto
      qed
      then have "\<exists>r v. balloc_loop ROOTDEV (of_nat (8192 * Suc k)) u = Inr (r, v) \<and> (allocated n u r v \<or> r = 0 \<and> none_free n u v)"
        using less.hyps [of "Suc k" u] u(5) calm_map_ok [OF u(7,6) less.prems(2)] k
        by (simp add: framed_kstate [OF u(7)] u(6) del: of_nat_mult of_nat_Suc)
      then show ?thesis
        unfolding b_def [symmetric] step allocated_def none_free_def u(6) framed_kstate [OF u(7)]
        using framed_trans [OF u(7)] by blast
    qed
  qed
qed

text \<open>Blocks with the same map block have different bits in it.\<close>

lemma map_bit_inj:
  assumes "BBLOCK c x = BBLOCK r x"
  shows "unat (c mod of_nat BPB) div 8 = unat (r mod of_nat BPB) div 8 \<and> unat (c mod of_nat BPB) mod 8 = unat (r mod of_nat BPB) mod 8
    \<longleftrightarrow> c = r"
proof -
  have p: "unat (of_nat BPB :: u32) = 8192" by (simp add: BPB_def)
  have "unat (c div of_nat BPB) = unat (r div of_nat BPB)" using assms by (simp add: BBLOCK_def)
  then have "unat c div 8192 = unat r div 8192" by (simp add: unat_div p)
  then have "unat (c mod of_nat BPB) = unat (r mod of_nat BPB) \<longleftrightarrow> c = r"
    by (simp add: unat_mod p word_unat_eq_iff) (metis div_mult_mod_eq)
  then show ?thesis by (metis div_mult_mod_eq)
qed

text \<open>Marking a block sets its bit and no other.\<close>

lemma in_use_mark:
  assumes "length (v (BBLOCK r x)) = BSIZE"
  shows "in_use (v(BBLOCK r x := mark r (v (BBLOCK r x)))) x c \<longleftrightarrow> in_use v x c \<or> c = r"
proof -
  let ?i = "\<lambda>c. unat ((c :: u32) mod of_nat BPB)"
  have p: "unat (of_nat BPB :: u32) = 8192" by (simp add: BPB_def)
  then have lt: "?i c < 8192" for c by (simp add: unat_mod)
  show ?thesis
  proof (cases "BBLOCK c x = BBLOCK r x")
    case True
    then show ?thesis using map_bit_inj [OF True] lt [of r] assms
      by (auto simp: in_use_bit mark_def Let_def nth_list_update BSIZE_def bit_or_iff bit_mask_def bit_simps less_mult_imp_div_less)
  next
    case False
    then show ?thesis by (auto simp: in_use_bit)
  qed
qed

lemma balloc_spec:
  assumes "calm (Suc (Suc n)) s" and "map_ok s"
  shows "\<exists>r t. balloc ROOTDEV s = Inr (r, t) \<and> calm n t \<and> framed s t
    \<and> (if \<forall>c < sb_size (sb s). in_use (view s) (sb s) c then r = 0 \<and> view t = view s
       else r < sb_size (sb s) \<and> \<not> in_use (view s) (sb s) r \<and> (\<forall>c < r. in_use (view s) (sb s) c)
         \<and> view t r = replicate BSIZE 0
         \<and> (\<forall>c < sb_size (sb s). in_use (view t) (sb s) c \<longleftrightarrow> in_use (view s) (sb s) c \<or> c = r)
         \<and> (\<forall>x. x \<noteq> r \<longrightarrow> x \<noteq> BBLOCK r (sb s) \<longrightarrow> view t x = view s x))"
proof -
  obtain r t where r: "balloc ROOTDEV s = Inr (r, t)" "allocated n s r t \<or> r = 0 \<and> none_free n s t"
    using balloc_loop_spec [OF assms, of 0] by (auto simp: balloc_def)
  have "in_use (view t) (sb s) c \<longleftrightarrow> in_use (view s) (sb s) c \<or> c = r" if a: "allocated n s r t" and c: "c < sb_size (sb s)" for c
  proof -
    have "BBLOCK c (sb s) \<noteq> r" using assms(2) a c by (auto simp: map_ok_def allocated_def)
    then have "in_use (view t) (sb s) c \<longleftrightarrow> in_use ((view s)(BBLOCK r (sb s) := mark r (view s (BBLOCK r (sb s))))) (sb s) c"
      using a by (simp add: allocated_def in_use_bit)
    then show ?thesis using in_use_mark [OF calmD(7) [OF assms(1)]] by simp
  qed
  then show ?thesis using r
    by (intro exI [of _ r] exI [of _ t]) (auto simp: allocated_def none_free_def intro: calm_mono)
qed

text \<open>
  C11: \<open>balloc\<close> allocates the first free block.  In a transaction that may log two more blocks it
  always returns.  If some block of the file system is free, it returns the first such
  block, marks it and no other block as in use, fills it with zeros and changes nothing else
  that readers see; if none is free it returns 0 and changes nothing.
\<close>

theorem balloc_correct:
  assumes "calm 2 s" and "map_ok s"
  shows "\<exists>r t. balloc ROOTDEV s = Inr (r, t) \<and> txn_inv t \<and> disk t = disk s \<and> log_state.more t = log_state.more s
    \<and> (if \<forall>c < sb_size (sb s). in_use (view s) (sb s) c then r = 0 \<and> view t = view s
       else r < sb_size (sb s) \<and> \<not> in_use (view s) (sb s) r \<and> (\<forall>c < r. in_use (view s) (sb s) c)
         \<and> view t r = replicate BSIZE 0
         \<and> (\<forall>c < sb_size (sb s). in_use (view t) (sb s) c \<longleftrightarrow> in_use (view s) (sb s) c \<or> c = r)
         \<and> (\<forall>x. x \<noteq> r \<longrightarrow> x \<noteq> BBLOCK r (sb s) \<longrightarrow> view t x = view s x))"
proof -
  have "calm (Suc (Suc 0)) s" using assms(1) by (simp only: numeral_2_eq_2)
  from balloc_spec [OF this assms(2)] show ?thesis
    unfolding framed_def using calmD(1) by (elim exE conjE) (intro exI conjI, assumption+)
qed

text \<open>
  A kernel that has just started on disk \<open>d\<close> with super block \<open>x\<close> and is inside its first
  transaction; whatever else \<open>k\<close> holds does not matter.
\<close>

definition first_txn :: "kstate \<Rightarrow> (u32 \<Rightarrow> bytes) \<Rightarrow> superblock \<Rightarrow> kstate" where
  "first_txn k d x = bio_init (k\<lparr>bufs := (\<lambda>_. \<lparr>valid = False, dev = 0, blockno = 0, refcnt = 0,
     lock = \<lparr>slocked = False, spid = 0\<rparr>, data = replicate BSIZE 0\<rparr>), disk := d, lstart := 2, lsize := 30,
     outstanding := 1, committing := False, ldev := ROOTDEV, lh_n := 0, lh_block := replicate LOGSIZE 0, sb := x\<rparr>)"

lemma first_txn_fields:
  "lstart (first_txn k d x) = 2" "lsize (first_txn k d x) = 30" "outstanding (first_txn k d x) = 1"
  "ldev (first_txn k d x) = ROOTDEV" "lh_n (first_txn k d x) = 0" "lh_block (first_txn k d x) = replicate LOGSIZE 0"
  "log_state.more (first_txn k d x) = log_state.more (k\<lparr>sb := x\<rparr>)" "committing (first_txn k d x) = False"
  unfolding first_txn_def by (subst more_eqD [OF bio_init_frame(5)], cases k, simp)+

lemma first_txn_calm:
  assumes "\<And>b. length (d b) = BSIZE" and "get_u32 (d 2) 0 = 0"
  shows "calm 10 (first_txn k d x)" "view (first_txn k d x) = d" "sb (first_txn k d x) = x"
proof -
  let ?s = "first_txn k d x"
  note F = first_txn_fields [of k d x]
  have b: "bio_inv ?s" "refs ?s = (\<lambda>_. 0)" "locked_block ?s = (\<lambda>_. False)" "view ?s = d" "disk ?s = d"
    unfolding first_txn_def by (subst bio_init_frame | rule fresh_cache [THEN conjunct1] fresh_cache [THEN conjunct2, THEN conjunct1]
      fresh_cache [THEN conjunct2, THEN conjunct2, THEN conjunct1] | simp add: assms fresh_cache)+
  show "view ?s = d" by (rule b)
  show "sb ?s = x" using F(7) by (cases ?s; cases k; simp)
  have "txn_inv ?s"
    using b F assms(2) by (simp add: txn_inv_def log_ok_def nblocks_def all_logged_def hdr_n_def)
  then show "calm 10 ?s" using b F by (simp add: calm_def NBUF_def NCOPY_def LOGSIZE_def)
qed

lemma first_txn_area:
  assumes "c \<in> log_area (first_txn k d x)"
  shows "unat c < 32"
proof -
  have "unat (3 + of_nat n :: u32) < 32" if "n < 29" for n :: nat
  proof -
    have "unat (of_nat (3 + n) :: u32) = 3 + n" using that by (intro unat_of_nat_lt) simp
    then show ?thesis using that by simp
  qed
  then show ?thesis
    using assms by (auto simp: log_area_def log_copy_def first_txn_fields NCOPY_def LOGSIZE_def)
qed

text \<open>A file system of 1000 blocks whose map, block 45, has the first 48 of them in use.\<close>

definition demo_sb :: superblock where
  "demo_sb = \<lparr>sb_magic = FSMAGIC, sb_size = 1000, sb_nblocks = 954, sb_ninodes = 200, sb_nlog = 30,
     sb_logstart = 2, sb_inodestart = 32, sb_bmapstart = 45\<rparr>"

definition demo_map :: "u32 \<Rightarrow> bytes" where
  "demo_map = (\<lambda>_. replicate BSIZE 0)(45 := replicate 6 (- 1) @ replicate (BSIZE - 6) 0)"

lemma demo_map_bits: "c < 1000 \<Longrightarrow> BBLOCK c demo_sb = 45" "c < 1000 \<Longrightarrow> in_use demo_map demo_sb c \<longleftrightarrow> unat c < 48"
proof -
  assume "c < 1000"
  then have c: "unat c < 1000" by (simp add: word_less_nat_alt)
  have p: "unat (of_nat BPB :: u32) = 8192" by (simp add: BPB_def)
  have "c div of_nat BPB = 0" unfolding word_unat_eq_iff unat_div p using c by simp
  then show b: "BBLOCK c demo_sb = 45" by (simp add: BBLOCK_def demo_sb_def)
  have "unat (c mod of_nat BPB) = unat c" using c by (simp add: unat_mod p)
  then show "in_use demo_map demo_sb c \<longleftrightarrow> unat c < 48"
    using c by (auto simp: in_use_bit b demo_map_def nth_append BSIZE_def)
qed

lemma demo_map_ok: "calm 10 (first_txn k demo_map demo_sb)" "map_ok (first_txn k demo_map demo_sb)"
  "view (first_txn k demo_map demo_sb) = demo_map" "sb (first_txn k demo_map demo_sb) = demo_sb"
proof -
  let ?s = "first_txn k demo_map demo_sb"
  have "get_u32 (replicate BSIZE 0) 0 = 0" by (simp add: get_u32_def BSIZE_def)
  then show "calm 10 ?s" and v: "view ?s = demo_map" and b: "sb ?s = demo_sb"
    by (intro first_txn_calm; simp add: demo_map_def BSIZE_def)+
  have "45 \<notin> log_area ?s" using first_txn_area [of 45 k demo_map demo_sb] by auto
  moreover have "in_use demo_map demo_sb c" if "c < 1000" "c \<in> log_area ?s \<or> c = 45" for c
    using that first_txn_area [of c k demo_map demo_sb] demo_map_bits(2) by auto
  moreover have "sb_size demo_sb = 1000" by (simp add: demo_sb_def)
  ultimately show "map_ok ?s" using demo_map_bits(1) by (auto simp: map_ok_def v b)
qed

theorem balloc_correct_witness:
  "\<forall>k. \<exists>r t. balloc ROOTDEV (first_txn k demo_map demo_sb) = Inr (r, t) \<and> unat r = 48
     \<and> in_use (view t) demo_sb r \<and> view t r = replicate BSIZE 0"
proof
  fix k
  have free: "\<not> (\<forall>c < 1000. in_use demo_map demo_sb c)" 
  proof
    assume "\<forall>c < 1000. in_use demo_map demo_sb c"
    then have "in_use demo_map demo_sb 48" by (rule allE [of _ 48]) simp
    then show False using demo_map_bits(2) [of 48] by simp
  qed
  have z: "sb_size demo_sb = 1000" by (simp add: demo_sb_def)
  obtain r t where r: "balloc ROOTDEV (first_txn k demo_map demo_sb) = Inr (r, t)" "r < 1000" "\<not> in_use demo_map demo_sb r"
    "\<forall>c < r. in_use demo_map demo_sb c" "view t r = replicate BSIZE 0" "in_use (view t) demo_sb r"
    using balloc_correct [OF calm_mono [OF demo_map_ok(1)] demo_map_ok(2), of k] free
    by (auto simp: demo_map_ok(3,4) z)
  have "\<not> (48 :: u32) < r" using r(4) demo_map_bits(2) [of 48] by auto
  moreover have "\<not> unat r < 48" using r(2,3) demo_map_bits(2) by simp
  ultimately have "unat r = 48" by (simp add: word_less_nat_alt)
  then show "\<exists>r t. balloc ROOTDEV (first_txn k demo_map demo_sb) = Inr (r, t) \<and> unat r = 48
     \<and> in_use (view t) demo_sb r \<and> view t r = replicate BSIZE 0" using r by blast
qed

section \<open>Freeing a block\<close>

text \<open>\<open>bfree\<close> looks at the byte \<open>bi mod 8\<close> of the map; the bit it finds there belongs to this block.\<close>

definition tested :: "u32 \<Rightarrow> u32" where
  "tested b = of_nat (8192 * (unat b div 8192) + 9 * (unat b mod 8))"

lemma tested_position:
  "unat (tested b mod of_nat BPB) = 9 * (unat b mod 8)" "BBLOCK (tested b) x = BBLOCK b x"
  "unat (b mod of_nat BPB) = unat b mod 8192"
proof -
  have p: "unat (of_nat BPB :: u32) = 8192" by (simp add: BPB_def)
  have b: "unat b div 8192 < 2 ^ 19" using unat_lt [of b] by (simp add: less_mult_imp_div_less)
  have k: "8192 * (unat b div 8192) + 8192 \<le> 2 ^ 32" using b by simp
  have t: "tested b = of_nat (8192 * (unat b div 8192)) + of_nat (9 * (unat b mod 8))" by (simp add: tested_def)
  have m: "unat b mod 8 < 8" by simp
  show "unat (tested b mod of_nat BPB) = 9 * (unat b mod 8)"
    unfolding t by (rule map_position(2)) (use k m in linarith)+
  have "BBLOCK (tested b) x = BBLOCK (of_nat (8192 * (unat b div 8192))) x"
    unfolding t by (rule map_position(3)) (use k m in linarith)+
  also have "\<dots> = BBLOCK (of_nat (8192 * (unat b div 8192)) + of_nat (unat b mod 8192)) x"
    by (rule map_position(3) [symmetric]) (use k in linarith, simp)
  also have "of_nat (8192 * (unat b div 8192)) + of_nat (unat b mod 8192) = (of_nat (unat b) :: u32)"
    by (simp only: mult_div_mod_eq flip: of_nat_add)
  finally show "BBLOCK (tested b) x = BBLOCK b x" by simp
  show "unat (b mod of_nat BPB) = unat b mod 8192" by (simp add: unat_mod p)
qed

definition unmark :: "u32 \<Rightarrow> bytes \<Rightarrow> bytes" where
  "unmark b d = (let bi = unat (b mod of_nat BPB) in d[bi div 8 := d ! (bi div 8) AND NOT (bit_mask bi)])"

lemma in_use_unmark:
  assumes "length (v (BBLOCK r x)) = BSIZE"
  shows "in_use (v(BBLOCK r x := unmark r (v (BBLOCK r x)))) x c \<longleftrightarrow> in_use v x c \<and> c \<noteq> r"
proof (cases "BBLOCK c x = BBLOCK r x")
  case True
  have "unat (r mod of_nat BPB) < 8192" by (simp add: unat_mod BPB_def)
  then show ?thesis using True map_bit_inj [OF True] assms
    by (auto simp: in_use_bit unmark_def Let_def nth_list_update BSIZE_def bit_and_iff bit_not_iff bit_mask_def bit_simps
      less_mult_imp_div_less)
next
  case False
  then show ?thesis by (auto simp: in_use_bit)
qed

text \<open>
  C39: \<open>bfree\<close> asks the wrong byte of the map whether the block is in use.  It clears exactly the
  bit of the block, but whether it does so or panics with "it's free" depends on the bit of
  another block (\<open>tested b\<close>, one of eight fixed blocks of the map block): a block in use
  cannot be freed while that one is free, and a free block is freed again without a panic.
\<close>

theorem bfree_tests_other_block:
  assumes "calm 1 s" and "BBLOCK b (sb s) \<notin> log_area s"
  shows "if in_use (view s) (sb s) (tested b)
    then \<exists>t. bfree ROOTDEV b s = Inr ((), t) \<and> txn_inv t \<and> framed s t
      \<and> (\<forall>c. in_use (view t) (sb s) c \<longleftrightarrow> in_use (view s) (sb s) c \<and> c \<noteq> b)
      \<and> (\<forall>x. x \<noteq> BBLOCK b (sb s) \<longrightarrow> view t x = view s x)
    else bfree ROOTDEV b s = Inl (Panic ''fs::bfree: it's free'')"
proof -
  let ?m = "BBLOCK b (sb s)" and ?bi = "unat (b mod of_nat BPB)"
  have bi: "?bi mod 8 = unat b mod 8" unfolding tested_position(3) by (simp add: mod_mod_cancel)
  have nine: "9 * (unat b mod 8) div 8 = unat b mod 8" "9 * (unat b mod 8) mod 8 = unat b mod 8"
    using div_mult_self2 [of 8 "unat b mod 8" "unat b mod 8"] mod_mult_self2 [of "unat b mod 8" 8 "unat b mod 8"] by simp_all
  have use: "in_use (view s) (sb s) (tested b) \<longleftrightarrow> view s ?m ! (?bi mod 8) AND bit_mask ?bi \<noteq> 0"
    unfolding in_use_bit mask_bit tested_position(1,2) bi nine ..
  have s1: "calm (Suc 0) s" using assms(1) by simp
  obtain i t u where u: "bread ROOTDEV ?m s = Inr (i, t)" "buf.data (bufs t i) = view s ?m" "framed s t"
    "kthen (bmod i (unmark b)) (kthen (lwrite i) (brelse i)) t = Inr ((), u)" "calm 0 u"
    "view u = (view s)(?m := unmark b (view s ?m))" "framed s u"
    using edit_block [where f = "unmark b", OF s1 assms(2)] calmD(7) [OF assms(1)] by (auto simp: unmark_def Let_def)
  have um: "(\<lambda>x. x[?bi div 8 := x ! (?bi div 8) AND NOT (bit_mask ?bi)]) = unmark b" by (simp add: unmark_def fun_eq_iff Let_def)
  have "bfree ROOTDEV b s = (if in_use (view s) (sb s) (tested b) then Inr ((), u) else Inl (Panic ''fs::bfree: it's free''))"
    using u(1,2,4) by (simp add: bfree_def kbind_Inr Let_def um use)
  then show ?thesis
    using u(6,7) in_use_unmark [of "view s" b "sb s", OF calmD(7) [OF assms(1)]] calmD(1) [OF u(5)] by auto
qed

text \<open>Block 47 of the sample is in use, and its map bit is tested where block 63 has its bit, which is free.\<close>

theorem bfree_tests_other_block_witness:
  "\<forall>k. in_use demo_map demo_sb 47 \<and> bfree ROOTDEV 47 (first_txn k demo_map demo_sb) = Inl (Panic ''fs::bfree: it's free'')
     \<and> (\<exists>t. bfree ROOTDEV 49 (first_txn k demo_map demo_sb) = Inr ((), t)) \<and> \<not> in_use demo_map demo_sb 49"
proof
  fix k
  let ?s = "first_txn k demo_map demo_sb"
  have b: "BBLOCK 47 demo_sb = 45" "BBLOCK 49 demo_sb = 45" by (simp_all add: demo_map_bits(1))
  have "45 \<notin> log_area ?s" using first_txn_area [of 45 k demo_map demo_sb] by auto
  then have a: "BBLOCK 47 (sb ?s) \<notin> log_area ?s" "BBLOCK 49 (sb ?s) \<notin> log_area ?s" by (simp_all add: demo_map_ok(4) b)
  have c: "calm 1 ?s" by (rule calm_mono [OF demo_map_ok(1)]) simp
  have "tested 47 = 63" "tested 49 = 9" by (simp_all add: tested_def)
  then have "\<not> in_use demo_map demo_sb (tested 47)" "in_use demo_map demo_sb (tested 49)"
    using demo_map_bits(2) [of 63] demo_map_bits(2) [of 9] by simp_all
  then have "bfree ROOTDEV 47 ?s = Inl (Panic ''fs::bfree: it's free'')" "\<exists>t. bfree ROOTDEV 49 ?s = Inr ((), t)"
    using bfree_tests_other_block [OF c a(1)] bfree_tests_other_block [OF c a(2)] by (auto simp: demo_map_ok(3,4))
  then show "in_use demo_map demo_sb 47 \<and> bfree ROOTDEV 47 ?s = Inl (Panic ''fs::bfree: it's free'')
     \<and> (\<exists>t. bfree ROOTDEV 49 ?s = Inr ((), t)) \<and> \<not> in_use demo_map demo_sb 49"
    using demo_map_bits(2) [of 47] demo_map_bits(2) [of 49] by simp
qed

section \<open>Inodes on disk\<close>

lemma length_put_addrs [simp]: "length (put_addrs as off d) = length d"
proof -
  have "length (fold (\<lambda>k d. put_u32 d (off + 4 * k) (as ! k)) ks d) = length d" for ks by (induction ks arbitrary: d) simp_all
  then show ?thesis by (simp add: put_addrs_def)
qed

lemma put_addrs_nth:
  assumes "i < off \<or> off + 52 \<le> i"
  shows "put_addrs as off d ! i = d ! i"
proof -
  have "fold (\<lambda>k d. put_u32 d (off + 4 * k) (as ! k)) [0..<n] d ! i = d ! i" if "n \<le> 13" for n
    using that assms by (induction n) auto
  then show ?thesis by (simp add: put_addrs_def NDIRECT_def del: upt_rec_numeral)
qed

lemma put_addrs_get:
  assumes "off + 52 \<le> length d" and "j < 13"
  shows "get_u32 (put_addrs as off d) (off + 4 * j) = as ! j"
proof -
  let ?f = "\<lambda>n. fold (\<lambda>k d. put_u32 d (off + 4 * k) (as ! k)) [0..<n] d"
  have len: "length (?f n) = length d" for n by (induction n) simp_all
  have "get_u32 (?f n) (off + 4 * j) = as ! j" if "n \<le> 13" "j < n" for n
    using that
  proof (induction n)
    case (Suc n)
    then show ?case using assms(1) len [of n] by (cases "j = n") auto
  qed simp
  from this [of 13] show ?thesis using assms(2) by (simp add: put_addrs_def NDIRECT_def del: upt_rec_numeral)
qed

lemma get_cong:
  "(\<And>i. off \<le> i \<Longrightarrow> i < off + 2 \<Longrightarrow> d ! i = e ! i) \<Longrightarrow> get_u16 d off = get_u16 e off"
  "(\<And>i. off \<le> i \<Longrightarrow> i < off + 4 \<Longrightarrow> d ! i = e ! i) \<Longrightarrow> get_u32 d off = get_u32 e off"
  by (simp_all add: get_u16_def get_u32_def)

text \<open>An inode depends on the 128 bytes of its place in the block.\<close>

lemma dinode_get_cong:
  assumes "\<And>i. off \<le> i \<Longrightarrow> i < off + 76 \<Longrightarrow> d ! i = e ! i"
  shows "dinode_get d off ip = dinode_get e off ip"
proof -
  have "get_u32 d (off + 24 + 4 * k) = get_u32 e (off + 24 + 4 * k)" if "k < 13" for k
    by (rule get_cong(2)) (use that assms in simp)
  then have "map (\<lambda>k. get_u32 d (off + 24 + 4 * k)) [0..<NDIRECT + 1] = map (\<lambda>k. get_u32 e (off + 24 + 4 * k)) [0..<NDIRECT + 1]"
    by (intro map_cong) (auto simp: NDIRECT_def)
  moreover have "get_u16 d (off + j) = get_u16 e (off + j)" if "j \<le> 74" for j by (rule get_cong(1)) (use that assms in simp)
  from this [of 0] this [of 2] this [of 4] this [of 6]
  have "get_u16 d off = get_u16 e off" "get_u16 d (off + 2) = get_u16 e (off + 2)" "get_u16 d (off + 4) = get_u16 e (off + 4)"
    "get_u16 d (off + 6) = get_u16 e (off + 6)" by simp_all
  moreover have "get_u32 d (off + j) = get_u32 e (off + j)" if "j \<le> 72" for j by (rule get_cong(2)) (use that assms in simp)
  ultimately show ?thesis using assms [of "off + 20"] assms [of "off + 21"] assms [of "off + 22"] by (simp add: dinode_get_def)
qed

definition dinode_head :: "inode \<Rightarrow> nat \<Rightarrow> bytes \<Rightarrow> bytes" where
  "dinode_head ip o0 d =
     (put_u32 (put_u32 (put_u32 (put_u16 (put_u16 (put_u16 (put_u16 d
          o0 (i_type ip)) (o0 + 2) (i_major ip)) (o0 + 4) (i_minor ip)) (o0 + 6) (i_nlink ip))
          (o0 + 8) (i_size ip)) (o0 + 12) (i_uid ip)) (o0 + 16) (i_gid ip))
        [o0 + 20 := i_mask_user ip, o0 + 21 := i_mask_group ip, o0 + 22 := i_mask_other ip]"

lemma dinode_put_head: "dinode_put ip o0 d = put_addrs (i_addrs ip) (o0 + 24) (dinode_head ip o0 d)"
  by (simp add: dinode_put_def dinode_head_def)

lemma get_update_other [simp]:
  "i < off \<or> off + 2 \<le> i \<Longrightarrow> get_u16 (d[i := v]) off = get_u16 d off"
  "i < off \<or> off + 4 \<le> i \<Longrightarrow> get_u32 (d[i := v]) off = get_u32 d off"
  by (auto simp: get_u16_def get_u32_def)

lemma dinode_head_nth: "i < o0 \<or> o0 + 23 \<le> i \<Longrightarrow> dinode_head ip o0 d ! i = d ! i"
  by (auto simp: dinode_head_def)

lemma dinode_put_nth: "i < o0 \<or> o0 + 76 \<le> i \<Longrightarrow> dinode_put ip o0 d ! i = d ! i"
  using dinode_head_nth [of i o0 ip d] by (auto simp: dinode_put_head put_addrs_nth)

lemma length_dinode_put [simp]: "length (dinode_put ip o0 d) = length d"
  by (simp add: dinode_put_def)

text \<open>The fields of an inode that are kept on disk.\<close>

definition disk_part :: "inode \<Rightarrow> inode \<Rightarrow> inode" where
  "disk_part ip jp = jp\<lparr>i_type := i_type ip, i_major := i_major ip, i_minor := i_minor ip, i_nlink := i_nlink ip,
     i_size := i_size ip, i_uid := i_uid ip, i_gid := i_gid ip, i_mask_user := i_mask_user ip,
     i_mask_group := i_mask_group ip, i_mask_other := i_mask_other ip, i_addrs := i_addrs ip\<rparr>"

lemma dinode_get_put:
  assumes "o0 + 76 \<le> length d" and "length (i_addrs ip) = NDIRECT + 1"
  shows "dinode_get (dinode_put ip o0 d) o0 jp = disk_part ip jp"
proof -
  let ?h = "dinode_head ip o0 d" and ?d = "dinode_put ip o0 d"
  have len: "length ?h = length d" by (simp add: dinode_head_def)
  have same: "?d ! i = ?h ! i" if "i < o0 + 24" for i using that by (simp add: dinode_put_head put_addrs_nth)
  have addrs: "map (\<lambda>k. get_u32 ?d (o0 + 24 + 4 * k)) [0..<NDIRECT + 1] = i_addrs ip"
    using assms len by (intro nth_equalityI) (simp_all add: dinode_put_head put_addrs_get NDIRECT_def del: upt_rec_numeral)
  have h: "get_u16 ?h o0 = i_type ip" "get_u16 ?h (o0 + 2) = i_major ip" "get_u16 ?h (o0 + 4) = i_minor ip"
    "get_u16 ?h (o0 + 6) = i_nlink ip" "get_u32 ?h (o0 + 8) = i_size ip" "get_u32 ?h (o0 + 12) = i_uid ip"
    "get_u32 ?h (o0 + 16) = i_gid ip" "?h ! (o0 + 20) = i_mask_user ip" "?h ! (o0 + 21) = i_mask_group ip"
    "?h ! (o0 + 22) = i_mask_other ip"
    using assms(1) by (simp_all add: dinode_head_def)
  have "get_u16 ?d (o0 + j) = get_u16 ?h (o0 + j)" if "j \<le> 6" for j by (rule get_cong(1)) (use that same in simp)
  from this [of 0] this [of 2] this [of 4] this [of 6]
  have "get_u16 ?d o0 = get_u16 ?h o0" "get_u16 ?d (o0 + 2) = get_u16 ?h (o0 + 2)" "get_u16 ?d (o0 + 4) = get_u16 ?h (o0 + 4)"
    "get_u16 ?d (o0 + 6) = get_u16 ?h (o0 + 6)" by simp_all
  moreover have "get_u32 ?d (o0 + j) = get_u32 ?h (o0 + j)" if "j \<le> 16" for j by (rule get_cong(2)) (use that same in simp)
  ultimately show ?thesis using h same unfolding dinode_get_def addrs by (simp add: disk_part_def)
qed

text \<open>The places of different inodes are apart.\<close>

lemma dinode_off_room: "dinode_off n + 128 \<le> BSIZE"
proof -
  have "unat (n mod of_nat IPB) < 8" by (simp add: unat_mod IPB_def)
  then show ?thesis by (simp add: dinode_off_def BSIZE_def)
qed

lemma dinode_off_apart: "dinode_off n \<noteq> dinode_off m \<Longrightarrow> dinode_off n + 128 \<le> dinode_off m \<or> dinode_off m + 128 \<le> dinode_off n"
  by (auto simp: dinode_off_def)

lemma dinode_pos_inj:
  assumes "IBLOCK n x = IBLOCK m x" and "dinode_off n = dinode_off m"
  shows "n = m"
proof -
  have "n div of_nat IPB = m div of_nat IPB" using assms(1) by (simp add: IBLOCK_def)
  moreover have "n mod of_nat IPB = m mod of_nat IPB" using assms(2) by (simp add: dinode_off_def word_unat_eq_iff)
  ultimately show ?thesis by (metis div_mult_mod_eq)
qed

text \<open>The table of inodes is no part of what the log and the cache work on.\<close>

lemma calm_itab:
  fixes s :: kstate
  shows "calm n (s\<lparr>itab := f\<rparr>) = calm n s" "view (s\<lparr>itab := f\<rparr>) = view s"
proof -
  let ?t = "s\<lparr>itab := f\<rparr>"
  have b: "bio_inv ?t = bio_inv s" "refs ?t = refs s" "locked_block ?t = locked_block s" and v: "view ?t = view s"
    using blocks_cong [of ?t s] bio_inv_cong [of ?t s] by simp_all
  show "view ?t = view s" by (rule v)
  show "calm n ?t = calm n s"
    by (simp add: calm_def txn_inv_def log_ok_def all_logged_def nblocks_def log_area_at b v)
qed

text \<open>\<open>iupdate\<close> stores the inode at its place.\<close>

lemma iupdate_spec:
  fixes s :: kstate
  assumes s: "calm (Suc n) s" and d: "i_dev (itab s k) = ROOTDEV" and a: "IBLOCK (i_inum (itab s k)) (sb s) \<notin> log_area s"
  obtains t where "iupdate k s = Inr ((), t)" "calm n t" "framed s t"
    "view t = (view s)(IBLOCK (i_inum (itab s k)) (sb s) :=
       dinode_put (itab s k) (dinode_off (i_inum (itab s k))) (view s (IBLOCK (i_inum (itab s k)) (sb s))))"
proof -
  let ?ip = "itab s k"
  let ?f = "dinode_put ?ip (dinode_off (i_inum ?ip))"
  have len: "length (?f (view s (IBLOCK (i_inum ?ip) (sb s)))) = BSIZE" using calmD(7) [OF s] by simp
  show thesis
  proof (rule edit_block [where f = ?f, OF s a len])
    fix i t u
    assume t: "bread ROOTDEV (IBLOCK (i_inum ?ip) (sb s)) s = Inr (i, t)" "framed s t"
      "kthen (bmod i ?f) (kthen (lwrite i) (brelse i)) t = Inr ((), u)" and u: "calm n u" "framed s u"
      "view u = (view s)(IBLOCK (i_inum ?ip) (sb s) := ?f (view s (IBLOCK (i_inum ?ip) (sb s))))"
    have "iupdate k s = Inr ((), u)"
      using t(1,3) by (simp add: iupdate_def d kbind_Inr framed_kstate [OF t(2)])
    then show thesis using that u by blast
  qed
qed

text \<open>\<open>ilock\<close> of an entry that has not been read fetches the inode from its place.\<close>

lemma brelse_itab: "brelse i s = Inr ((), t) \<Longrightarrow> brelse i (s\<lparr>itab := f\<rparr>) = Inr ((), t\<lparr>itab := f\<rparr> :: kstate)"
  by (auto simp: brelse_def upd_buf_def link_front_def unlink_def Let_def split: if_splits)

lemma ilock_fetch:
  fixes s :: kstate
  assumes s: "calm n s" and e: "i_dev (itab s k) = ROOTDEV" "0 < i_ref (itab s k)" "\<not> i_valid (itab s k)"
    "\<not> slocked (i_lock (itab s k))"
    and ty: "get_u16 (view s (IBLOCK (i_inum (itab s k)) (sb s))) (dinode_off (i_inum (itab s k))) \<noteq> 0"
  shows "\<exists>t. ilock (Some k) s = Inr ((), t) \<and> view t = view s \<and> itab t k =
    (dinode_get (view s (IBLOCK (i_inum (itab s k)) (sb s))) (dinode_off (i_inum (itab s k))) (itab s k))
      \<lparr>i_valid := True, i_lock := \<lparr>slocked = True, spid = mypid s\<rparr>\<rparr>"
proof -
  let ?l = "\<lparr>slocked = True, spid = mypid s\<rparr>" and ?b = "IBLOCK (i_inum (itab s k)) (sb s)"
  define s1 where "s1 = s\<lparr>itab := (itab s)(k := (itab s k)\<lparr>i_lock := ?l\<rparr>)\<rparr>"
  have "calm n s1" and v1: "view s1 = view s" using s by (simp_all add: s1_def calm_itab)
  then obtain i t u where t: "bread ROOTDEV ?b s1 = Inr (i, t)" "buf.data (bufs t i) = view s ?b" "framed s1 t"
    "brelse i t = Inr ((), u)" "view u = view s" "framed s1 u"
    using look_block [of n s1 ?b] by metis
  note ft = framed_kstate [OF t(3)] and fu = framed_kstate [OF t(6)]
  let ?g = "dinode_get (view s ?b) (dinode_off (i_inum (itab s k)))"
  let ?it = "(itab s1)(k := ?g (itab s1 k))"
  have "sleep_acquire (mypid s) (i_lock (itab s k)) = Some ?l"
    using e(4) by (cases "i_lock (itab s k)") (simp add: sleep_acquire_def)
  then have lock: "lock_inode k s = Inr ((), s1)" by (simp add: lock_inode_def upd_inode_def kmodify_def s1_def)
  let ?v = "u\<lparr>itab := ?it(k := (?it k)\<lparr>i_valid := True\<rparr>)\<rparr>"
  have up: "upd_inode k (dinode_get (buf.data (bufs t i)) (dinode_off (i_inum (itab t k)))) t = Inr ((), t\<lparr>itab := ?it\<rparr>)"
    by (simp add: upd_inode_def kmodify_def t(2) ft s1_def)
  have "ilock (Some k) s = Inr ((), ?v)"
    using e(1-3) lock t(1) up brelse_itab [OF t(4), of ?it] ty
    by (simp add: ilock_def kbind_Inr s1_def) (simp add: upd_inode_def kmodify_def kbind_def dinode_get_def)
  moreover have "itab ?v k = (?g (itab s k))\<lparr>i_valid := True, i_lock := ?l\<rparr>" by (simp add: s1_def dinode_get_def)
  moreover have "view ?v = view s" using t(5) by (simp add: calm_itab)
  ultimately show ?thesis by blast
qed

text \<open>
  C12: an inode survives on disk.  \<open>iupdate\<close> inside a transaction returns, changes only the place
  of this inode in its block, so that every other inode reads as before, and an entry of the
  inode table for the same inode that is read by \<open>ilock\<close> afterwards gets all fields that are
  kept on disk back.
\<close>

theorem iupdate_ilock_roundtrip:
  assumes "calm 1 s" and "i_dev (itab s k) = ROOTDEV" and "length (i_addrs (itab s k)) = NDIRECT + 1"
    and "IBLOCK (i_inum (itab s k)) (sb s) \<notin> log_area s" and "i_type (itab s k) \<noteq> 0"
    and "i_dev jp = ROOTDEV" "i_inum jp = i_inum (itab s k)" "0 < i_ref jp" "\<not> i_valid jp" "\<not> slocked (i_lock jp)"
  shows "\<exists>t u. iupdate k s = Inr ((), t) \<and> txn_inv t \<and> framed s t
    \<and> (\<forall>b. b \<noteq> IBLOCK (i_inum (itab s k)) (sb s) \<longrightarrow> view t b = view s b)
    \<and> (\<forall>m ip. m \<noteq> i_inum (itab s k) \<longrightarrow> dinode_get (view t (IBLOCK m (sb s))) (dinode_off m) ip
         = dinode_get (view s (IBLOCK m (sb s))) (dinode_off m) ip)
    \<and> ilock (Some j) (t\<lparr>itab := (itab t)(j := jp)\<rparr>) = Inr ((), u)
    \<and> itab u j = (disk_part (itab s k) jp)\<lparr>i_valid := True, i_lock := \<lparr>slocked = True, spid = mypid s\<rparr>\<rparr>"
proof -
  let ?n = "i_inum (itab s k)"
  let ?b = "IBLOCK ?n (sb s)" and ?o = "dinode_off ?n"
  have s1: "calm (Suc 0) s" using assms(1) by simp
  obtain t where t: "iupdate k s = Inr ((), t)" "calm 0 t" "framed s t"
    "view t = (view s)(?b := dinode_put (itab s k) ?o (view s ?b))"
    using iupdate_spec [OF s1 assms(2,4)] .
  note f = framed_kstate [OF t(3)]
  have room: "?o + 76 \<le> length (view s ?b)" using dinode_off_room [of ?n] calmD(7) [OF assms(1)] by simp
  note gp = dinode_get_put [OF room assms(3)]
  have ty: "get_u16 (view t ?b) ?o \<noteq> 0" using arg_cong [OF gp [of jp], of i_type] assms(5) by (simp add: t(4) dinode_get_def disk_part_def)
  let ?t = "t\<lparr>itab := (itab t)(j := jp)\<rparr>"
  obtain u where u: "ilock (Some j) ?t = Inr ((), u)"
    "itab u j = (dinode_get (view t ?b) ?o jp)\<lparr>i_valid := True, i_lock := \<lparr>slocked = True, spid = mypid s\<rparr>\<rparr>"
    using ilock_fetch [of 0 ?t j] t(2,3) assms(6-10) ty f by (auto simp: calm_itab framed_def)
  have "dinode_get (view t (IBLOCK m (sb s))) (dinode_off m) ip = dinode_get (view s (IBLOCK m (sb s))) (dinode_off m) ip"
    if "m \<noteq> ?n" for m ip
  proof (cases "IBLOCK m (sb s) = ?b")
    case True
    then have "dinode_off m \<noteq> ?o" using that dinode_pos_inj by blast
    then show ?thesis using True dinode_off_apart [of m ?n]
      by (intro dinode_get_cong) (auto simp: t(4) dinode_put_nth)
  qed (simp add: t(4))
  then show ?thesis using t u gp calmD(1) [OF t(2)] by (intro exI [of _ t] exI [of _ u]) (simp add: t(4))
qed

definition demo_inode :: inode where
  "demo_inode = \<lparr>i_dev = ROOTDEV, i_inum = 5, i_ref = 1, i_valid = True, i_uid = 7, i_gid = 8, i_mask_user = 6,
     i_mask_group = 4, i_mask_other = 4, i_type = T_FILE, i_major = 0, i_minor = 0, i_nlink = 1, i_size = 1500,
     i_addrs = [50, 51] @ replicate 11 0, i_lock = \<lparr>slocked = False, spid = 0\<rparr>\<rparr>"

definition stale_inode :: inode where
  "stale_inode = demo_inode\<lparr>i_valid := False, i_size := 0, i_nlink := 9, i_addrs := []\<rparr>"

lemma demo_inode_fields:
  "i_dev demo_inode = ROOTDEV" "i_inum demo_inode = 5" "i_type demo_inode \<noteq> 0" "length (i_addrs demo_inode) = NDIRECT + 1"
  "i_dev stale_inode = ROOTDEV" "i_inum stale_inode = 5" "0 < i_ref stale_inode" "\<not> i_valid stale_inode"
  "\<not> slocked (i_lock stale_inode)"
  by (simp_all add: demo_inode_def stale_inode_def T_FILE_def NDIRECT_def)

theorem iupdate_ilock_roundtrip_witness:
  "\<forall>k. \<exists>t u. iupdate 3 (first_txn (k\<lparr>itab := \<lambda>_. demo_inode\<rparr>) demo_map demo_sb) = Inr ((), t)
     \<and> ilock (Some 4) (t\<lparr>itab := (itab t)(4 := stale_inode)\<rparr>) = Inr ((), u)
     \<and> i_size (itab u 4) = 1500 \<and> i_nlink (itab u 4) = 1 \<and> i_addrs (itab u 4) = [50, 51] @ replicate 11 0"
proof
  fix k :: kstate
  let ?s = "first_txn (k\<lparr>itab := \<lambda>_. demo_inode\<rparr>) demo_map demo_sb"
  have it: "itab ?s = (\<lambda>_. demo_inode)"
    using first_txn_fields(7) [of "k\<lparr>itab := \<lambda>_. demo_inode\<rparr>" demo_map demo_sb] by (cases ?s; cases k; simp)
  have c: "calm 1 ?s" by (rule calm_mono [OF demo_map_ok(1)]) simp
  have "IBLOCK 5 demo_sb = 32" by (simp add: IBLOCK_def demo_sb_def IPB_def)
  moreover have "32 \<notin> log_area ?s" using first_txn_area [of 32 "k\<lparr>itab := \<lambda>_. demo_inode\<rparr>" demo_map demo_sb] by auto
  ultimately have a: "IBLOCK (i_inum (itab ?s 3)) (sb ?s) \<notin> log_area ?s" by (simp add: it demo_map_ok(4) demo_inode_fields)
  obtain t u where "iupdate 3 ?s = Inr ((), t)" "ilock (Some 4) (t\<lparr>itab := (itab t)(4 := stale_inode)\<rparr>) = Inr ((), u)"
    "itab u 4 = (disk_part demo_inode stale_inode)\<lparr>i_valid := True, i_lock := \<lparr>slocked = True, spid = mypid ?s\<rparr>\<rparr>"
    using iupdate_ilock_roundtrip [OF c _ _ a, of stale_inode 4, unfolded it]
demo_inode_fields by auto
  then show "\<exists>t u. iupdate 3 ?s = Inr ((), t) \<and> ilock (Some 4) (t\<lparr>itab := (itab t)(4 := stale_inode)\<rparr>) = Inr ((), u)
     \<and> i_size (itab u 4) = 1500 \<and> i_nlink (itab u 4) = 1 \<and> i_addrs (itab u 4) = [50, 51] @ replicate 11 0"
    by (intro exI [of _ t] exI [of _ u]) (simp add: disk_part_def demo_inode_def)
qed

end
