(* ===== verification/Frame.thy ===== *)
theory Frame
  imports Sysfile
begin

text \<open>
  What the operations of the kernel leave alone: the references and types in the table of open
  files and the descriptors of the processes.  \<open>kept s r\<close> says so of a result \<open>r\<close> of an operation
  that started in \<open>s\<close>; the collection \<open>kept_rules\<close> carries it through the combinators and through all
  operations of the file system, the log, the memory and the process table that are not
  about descriptors themselves.
\<close>

section \<open>Operations that leave the descriptors alone\<close>

text \<open>A process from the end of its creation to its exit.\<close>

definition live :: "proc_status \<Rightarrow> bool" where
  "live st \<longleftrightarrow> st = SLEEPING \<or> st = RUNNABLE \<or> st = RUNNING"

lemma live_simps [simp]: "live SLEEPING" "live RUNNABLE" "live RUNNING" "\<not> live UNUSED" "\<not> live USED" "\<not> live ZOMBIE"
  by (simp_all add: live_def)

definition same_files :: "kstate \<Rightarrow> kstate \<Rightarrow> bool" where
  "same_files s t \<longleftrightarrow>
     (\<forall>k. f_ref (ftab t k) = f_ref (ftab s k) \<and> f_type (ftab t k) = f_type (ftab s k)) \<and> cur t = cur s
     \<and> (\<forall>i. p_ofile (procs t i) = p_ofile (procs s i))
     \<and> (\<forall>i. live (p_status (procs s i)) \<longrightarrow> live (p_status (procs t i)))"

definition kept :: "kstate \<Rightarrow> fault + ('a \<times> kstate) \<Rightarrow> bool" where
  "kept s r \<longleftrightarrow> (\<forall>a t. r = Inr (a, t) \<longrightarrow> same_files s t)"

named_theorems kept_rules

lemma same_files_refl [simp, kept_rules]: "same_files s s"
  by (simp add: same_files_def)

lemma same_files_trans: "same_files s t \<Longrightarrow> same_files t u \<Longrightarrow> same_files s u"
  by (simp add: same_files_def)

lemma kept_result [kept_rules]: "kept s (Inl e)" "same_files s t \<Longrightarrow> kept s (Inr (a, t))"
  by (auto simp: kept_def)

lemma kept_bind_eq:
  assumes "kept s (m s)" and "\<And>a t. m s = Inr (a, t) \<Longrightarrow> kept t (f a t)"
  shows "kept s (kbind m f s)"
  using assms by (fastforce simp: kept_def kbind_def split: sum.splits intro: same_files_trans)

lemma kept_bind [kept_rules]: "kept s (m s) \<Longrightarrow> (\<And>a t. kept t (f a t)) \<Longrightarrow> kept s (kbind m f s)"
  by (rule kept_bind_eq)

lemma kept_simple [kept_rules]:
  "kept s (kreturn a s)" "kept s (kfail e s)" "kept s (kgets g s)" "same_files s (h s) \<Longrightarrow> kept s (kmodify h s)"
  by (simp_all add: kept_def kreturn_def kfail_def kgets_def kmodify_def)

lemma kept_when [kept_rules]: "(b \<Longrightarrow> kept s (m s)) \<Longrightarrow> kept s (kwhen b m s)"
  by (simp add: kwhen_def kept_result)

lemma kept_for [kept_rules]: "(\<And>i t. kept t (f i t)) \<Longrightarrow> kept s (kfor f is s)"
  by (induction "is" arbitrary: s) (simp_all add: kept_rules)

lemma kept_split [kept_rules]:
  "(b \<Longrightarrow> kept s x) \<Longrightarrow> (\<not> b \<Longrightarrow> kept s y) \<Longrightarrow> kept s (if b then x else y)"
  "(o' = None \<Longrightarrow> kept s x) \<Longrightarrow> (\<And>v. o' = Some v \<Longrightarrow> kept s (g v)) \<Longrightarrow> kept s (case o' of None \<Rightarrow> x | Some v \<Rightarrow> g v)"
  "(\<And>a b. p = (a, b) \<Longrightarrow> kept s (h a b)) \<Longrightarrow> kept s (case p of (a, b) \<Rightarrow> h a b)"
  "(\<And>e. r = Inl e \<Longrightarrow> kept s (k e)) \<Longrightarrow> (\<And>b. r = Inr b \<Longrightarrow> kept s (l b)) \<Longrightarrow> kept s (case r of Inl e \<Rightarrow> k e | Inr b \<Rightarrow> l b)"
  by (simp_all split: option.splits prod.splits sum.splits)

lemma kept_split_op [kept_rules]:
  "(b \<Longrightarrow> kept s (x' s)) \<Longrightarrow> (\<not> b \<Longrightarrow> kept s (y' s)) \<Longrightarrow> kept s ((if b then x' else y') s)"
  "(o' = None \<Longrightarrow> kept s (x' s)) \<Longrightarrow> (\<And>v. o' = Some v \<Longrightarrow> kept s (g' v s)) \<Longrightarrow> kept s ((case o' of None \<Rightarrow> x' | Some v \<Rightarrow> g' v) s)"
  "(\<And>a b. p = (a, b) \<Longrightarrow> kept s (h' a b s)) \<Longrightarrow> kept s ((case p of (a, b) \<Rightarrow> h' a b) s)"
  by (simp_all split: option.splits prod.splits)

lemma kept_from: "same_files s t \<Longrightarrow> kept t r \<Longrightarrow> kept s r"
  by (auto simp: kept_def intro: same_files_trans)

lemma kept_upd [kept_rules]:
  "kept s (upd_inode k f s)"
  "(\<And>x. f_ref (g x) = f_ref x \<and> f_type (g x) = f_type x) \<Longrightarrow> kept s (upd_file k g s)"
  "(\<And>p. p_ofile (h p) = p_ofile p \<and> (live (p_status p) \<longrightarrow> live (p_status (h p)))) \<Longrightarrow> kept s (upd_proc i h s)"
  by (simp_all add: upd_inode_def upd_file_def upd_proc_def kept_def kmodify_def same_files_def)

lemma kept_vm [kept_rules]: "kept s (on_vm m s)"
  by (auto simp: on_vm_def kept_def same_files_def split: sum.splits)

section \<open>Cache and log\<close>

lemma same_files_buf [simp]:
  "same_files s (upd_buf i f s)" "same_files s (bpin i s)" "same_files s (disk_rw i w s)" "same_files s (link_front i s)"
  "same_files s (unlink i s)"
  by (simp_all add: same_files_def upd_buf_def bpin_def disk_rw_def link_front_def unlink_def Let_def)

lemma kept_bget: "kept s (bget d b s)"
proof -
  have "kept s (lock_buf i s)" for i and s :: kstate
    by (simp add: lock_buf_def kept_def split: option.splits)
  then have "kept s (kthen (lock_buf i) (kreturn i) (upd_buf i f s))" for i f
    by (rule kept_from [OF same_files_buf(1) kept_bind [OF _ kept_simple(1)]])
  then show ?thesis by (auto simp: bget_def kept_result split: option.splits)
qed

lemma kept_bio [kept_rules]:
  "kept s (bread d b s)" "kept s (brelse i s)" "kept s (bwrite i s)" "kept s (bmod i f s)"
proof -
  show "kept s (bread d b s)" unfolding bread_def
    by (intro kept_rules kept_bget same_files_refl) (blast intro: same_files_trans same_files_buf)
  have "same_files s (link_front i (unlink i (upd_buf i f (upd_buf i g s))))" "same_files s (upd_buf i f (upd_buf i g s))" for f g
    by (simp_all add: same_files_def upd_buf_def link_front_def unlink_def Let_def)
  then show "kept s (brelse i s)" by (simp add: brelse_def Let_def kept_def)
  show "kept s (bwrite i s)" "kept s (bmod i f s)"
    by (simp_all add: bwrite_def bmod_def kept_rules)
qed

lemma kept_log [kept_rules]: "kept s (lwrite i s)" "kept s (begin_op s)" "kept s (end_op s)"
proof -
  show "kept s (lwrite i s)" 
    by (auto simp: lwrite_def Let_def kept_def same_files_def bpin_def upd_buf_def)
  show "kept s (begin_op s)" by (simp add: begin_op_def kept_def same_files_def)
  have w: "kept s (whead s)" for s :: kstate unfolding whead_def by (intro kept_rules)
  have l: "kept s (lh_block_at k s)" for k and s :: kstate by (simp add: lh_block_at_def kept_result)
  have "kept s (write_log s)" "kept s (install_trans r s)" for r and s :: kstate
    unfolding write_log_def write_one_def install_trans_def install_one_def by (intro kept_rules l)+
  then have "kept s (commit s)" for s :: kstate unfolding commit_def
    by (intro kept_rules w) (simp_all add: same_files_def)
  then have "kept s (kthen commit (kmodify (\<lambda>s. s\<lparr>committing := False\<rparr>)) s)" for s :: kstate
    by (intro kept_bind kept_simple(4)) (simp_all add: same_files_def)
  from kept_from [OF _ this] show "kept s (end_op s)"
    by (simp add: end_op_def Let_def kept_result same_files_def)
qed

section \<open>Memory and processes\<close>

lemma kept_local [kept_rules]:
  "kept s (get_local n s)" "kept s (put_local bs s)" "kept s (set_tf fr off v s)" "kept s (set_pname i bs s)"
  unfolding get_local_def put_local_def set_tf_def set_pname_def by (intro kept_rules; simp)+

lemma kept_with_buf [kept_rules]: "(\<And>t. kept t (m t)) \<Longrightarrow> kept s (with_buf i m s)"
  unfolding with_buf_def by (intro kept_rules)

lemma kept_copy [kept_rules]:
  "kept s (either_copyout u d a n s)" "kept s (either_copyin d u a n s)" "kept s (out_byte x c s)" "kept s (in_byte x s)"
  "kept s (out_fd x fd s)" "kept s (fetch_addr x s)" "kept s (fetch_str x y z s)" "kept s (fetch_path x s)"
  "kept s (fetch_mknod_path x s)" "kept s (get_argu i s)" "kept s (get_fd i s)" "kept s (fail_work4exec as s)"
proof -
  show "kept s (either_copyout u d a n s)" "kept s (either_copyin d u a n s)" "kept s (out_byte x c s)" "kept s (in_byte x s)"
    "kept s (out_fd x fd s)" "kept s (fetch_addr x s)" "kept s (fetch_str x y z s)"
    and p: "kept s (fetch_path x s)" and g: "kept s (get_argu i s)" and "kept s (fail_work4exec as s)" for s x i
    unfolding either_copyout_def either_copyin_def out_byte_def in_byte_def out_fd_def fetch_addr_def fetch_str_def
      fetch_path_def get_argu_def fail_work4exec_def Let_def by (intro kept_rules)+
  show "kept s (fetch_mknod_path x s)" "kept s (get_fd i s)"
    unfolding fetch_mknod_path_def get_fd_def Let_def by (intro kept_rules p g)+
qed

lemma kept_proc [kept_rules]:
  "kept s (wakeup ch s)" "kept s (kill pid s)" "kept s (reparent i s)" "kept s (grow n s)" "kept s (alloc_pid s)"
proof -
  show "kept s (kill pid s)" "kept s (grow n s)" "kept s (alloc_pid s)"
    unfolding kill_def grow_def alloc_pid_def Let_def
    by (intro kept_rules; simp add: kill_one_def same_files_def Let_def)+
  have w: "kept s (wakeup ch s)" for ch and s :: kstate
    unfolding wakeup_def by (intro kept_rules) (simp add: wake_one_def)
  then show "kept s (wakeup ch s)" .
  show "kept s (reparent i s)" unfolding reparent_def by (intro kept_rules w) simp
qed

lemma kept_pipe [kept_rules]: "kept s (close_pipe a w s)" "kept s (read_pipe a x n s)" "kept s (write_pipe a x n s)"
proof -
  have p: "same_files s (s\<lparr>pipes := f\<rparr>)" for f and s :: kstate by (simp add: same_files_def)
  have g: "(\<And>r. kept s (f r)) \<Longrightarrow> (\<And>c i. kept s (h c i)) \<Longrightarrow> kept s (case o' of Returns r \<Rightarrow> f r | SleepsOn c i \<Rightarrow> h c i)"
    for s :: kstate and o' and f :: "u32 \<Rightarrow> fault + ('b \<times> kstate)" and h by (cases o') simp_all
  show "kept s (close_pipe a w s)" unfolding close_pipe_def by (intro kept_rules p)
  show "kept s (read_pipe a x n s)" "kept s (write_pipe a x n s)"
    unfolding read_pipe_def write_pipe_def by (intro kept_rules p g)+
qed

section \<open>The file system\<close>

lemma kept_iget [kept_rules]:
  "kept s (iget d n s)" "kept s (idup ip s)" "kept s (lock_inode k s)" "kept s (iunlock ip s)"
  "kept s (set_addr k i v s)" "kept s (addr_of k i s)" "kept s (iupdate k s)" "kept s (bfree d b s)" "kept s (bzero d b s)"
  unfolding iget_def idup_def lock_inode_def iunlock_def set_addr_def addr_of_def iupdate_def bfree_def bzero_def Let_def
  by (intro kept_rules)+

lemma kept_itrunc [kept_rules]: "kept s (itrunc k s)"
  unfolding itrunc_def trunc_one_def Let_def by (intro kept_rules)

lemma kept_inode [kept_rules]: "kept s (ilock ip s)" "kept s (iput ip s)" "kept s (iunlockput ip s)"
proof -
  show "kept s (ilock ip s)" unfolding ilock_def by (intro kept_rules)
  have p: "kept s (iput ip s)" for s :: kstate unfolding iput_def by (intro kept_rules)
  then show "kept s (iput ip s)" .
  show "kept s (iunlockput ip s)" unfolding iunlockput_def by (intro kept_rules p)
qed

lemma kept_balloc_loop: "kept s (balloc_loop d b s)"
proof (induction d b s rule: balloc_loop.induct)
  case (1 d b s)
  show ?case
    by (subst balloc_loop.simps) (intro kept_bind_eq kept_rules; rule "1.IH"; assumption)
qed

lemma kept_bmap [kept_rules]: "kept s (bmap ip bn s)" "kept s (ialloc d ty s)"
proof -
  have b: "kept s (balloc d s)" for d and s :: kstate unfolding balloc_def by (rule kept_balloc_loop)
  show "kept s (bmap ip bn s)" unfolding bmap_def Let_def by (intro kept_rules b)
  have "kept s (ialloc_loop d ty is s)" for "is" and s :: kstate
    by (induction "is" arbitrary: s) (simp_all only: ialloc_loop.simps, (intro kept_rules; assumption?)+)
  then show "kept s (ialloc d ty s)" by (simp add: ialloc_def)
qed

lemma kept_readi_loop: "kept s (readi_loop ip u d off n tot s)"
proof (induction ip u d off n tot s rule: readi_loop.induct)
  case (1 ip u d off n tot s)
  show ?case
    by (subst readi_loop.simps) (intro kept_bind_eq kept_rules; rule "1.IH"; assumption)
qed

lemma kept_writei_loop: "kept s (writei_loop ip u d off n tot s)"
proof (induction ip u d off n tot s rule: writei_loop.induct)
  case (1 ip u d off n tot s)
  show ?case
    by (subst writei_loop.simps) (intro kept_bind_eq kept_rules; rule "1.IH"; assumption)
qed

lemma kept_readi [kept_rules]: "kept s (readi ip u d off n s)" "kept s (writei ip u d off n s)"
  unfolding readi_def writei_def Let_def by (intro kept_rules kept_readi_loop kept_writei_loop)+

lemma kept_dir_lookup [kept_rules]: "kept s (dir_lookup dp name s)"
proof -
  have "kept s (dir_lookup_loop dp name off s)" for off and s :: kstate
  proof (induction dp name off s rule: dir_lookup_loop.induct)
    case (1 dp name off s)
    show ?case
      by (subst dir_lookup_loop.simps) (intro kept_bind_eq kept_rules; rule "1.IH"; assumption)
  qed
  then show ?thesis unfolding dir_lookup_def by (intro kept_rules)
qed

lemma kept_free_entry: "kept s (free_entry dp off s)"
proof (induction dp off s rule: free_entry.induct)
  case (1 dp off s)
  show ?case
    by (subst free_entry.simps) (intro kept_bind_eq kept_rules; rule "1.IH"; assumption)
qed

lemma kept_dir_link [kept_rules]: "kept s (dir_link dp name inum s)" "kept s (dir_link_ip dp name ip s)"
proof -
  have "kept s (dir_write dp name f s)" for f unfolding dir_write_def by (intro kept_rules kept_free_entry)
  then show "kept s (dir_link dp name inum s)" "kept s (dir_link_ip dp name ip s)"
    by (simp_all add: dir_link_def dir_link_ip_def)
qed

lemma kept_namex_loop: "kept s (namex_loop b ip path name s)"
proof (induction b ip path name s rule: namex_loop.induct)
  case (1 b ip path name s)
  show ?case
    by (subst namex_loop.simps) (intro kept_bind_eq kept_rules; rule "1.IH"; (assumption | erule sym))
qed

lemma kept_namei [kept_rules]: "kept s (namei path s)" "kept s (nameiparent path name s)"
proof -
  have n: "kept s (namex path b name s)" for b name and s :: kstate
    unfolding namex_def by (intro kept_rules kept_namex_loop)
  show "kept s (namei path s)" "kept s (nameiparent path name s)"
    unfolding namei_def nameiparent_def by (intro kept_rules n)+
qed

section \<open>Files and programs\<close>

lemma kept_create [kept_rules]: "kept s (create path ty mj mn s)"
proof -
  have c: "kept s (create_fail ip dp s)" "kept s (new_inode ip mj mn s)" for ip dp and s :: kstate
    unfolding create_fail_def new_inode_def by (intro kept_rules)+
  show ?thesis unfolding create_def by (intro kept_rules c)
qed

lemma kept_open_inode [kept_rules]:
  "kept s (open_inode path mode s)" "kept s (open_permitted ip mode s)" "kept s (fail_op ip' s)"
  "kept s (check_permission_for_file ip u s)"
proof -
  have c: "kept s (check_permission_for_file ip u s)" for u and s :: kstate
    unfolding check_permission_for_file_def Let_def by (intro kept_rules)
  then show "kept s (check_permission_for_file ip u s)" .
  show "kept s (open_inode path mode s)" "kept s (open_permitted ip mode s)" "kept s (fail_op ip' s)"
    unfolding open_inode_def open_permitted_def fail_op_def by (intro kept_rules c)+
qed

lemma kept_file_write_loop: "kept s (file_write_loop k addr n i s)"
proof (induction k addr n i s rule: file_write_loop.induct)
  case (1 k addr n i s)
  show ?case
    by (subst file_write_loop.simps, unfold Let_def) (intro kept_bind_eq kept_rules; ((rule "1.IH"; (assumption | rule refl)) | simp))
qed

text \<open>The functions of the device switch come from the drivers, which know nothing of descriptors.\<close>

definition devs_keep :: "kenv \<Rightarrow> bool" where
  "devs_keep e \<longleftrightarrow> (\<forall>m f u a n s. k_dread e m = Some f \<or> k_dwrite e m = Some f \<longrightarrow> kept s (f u a n s))"

lemma kept_rw [kept_rules]:
  assumes "devs_keep e"
  shows "kept s (file_read (k_dread e) k addr n s)" "kept s (file_write (k_dwrite e) k addr n s)"
proof -
  have d: "dev_entry (k_dread e) m = Some f \<Longrightarrow> kept s (f u a l s)" "dev_entry (k_dwrite e) m = Some f \<Longrightarrow> kept s (f u a l s)"
    for f u a l m and s :: kstate
    using assms by (auto simp: dev_entry_def devs_keep_def split: if_splits)
  have t: "kept s x \<Longrightarrow> kept s y \<Longrightarrow> kept s z \<Longrightarrow> kept s v
      \<Longrightarrow> kept s (case ty of FD_NONE \<Rightarrow> x | FD_PIPE \<Rightarrow> y | FD_INODE \<Rightarrow> z | FD_DEVICE \<Rightarrow> v)"
    for s :: kstate and ty and x y z v :: "fault + (u32 \<times> kstate)" by (cases ty) simp_all
  show "kept s (file_read (k_dread e) k addr n s)" "kept s (file_write (k_dwrite e) k addr n s)"
    unfolding file_read_def file_write_def Let_def by (intro kept_rules t kept_file_write_loop; (erule d | simp))+
qed

lemma kept_stat [kept_rules]: "kept s (file_stat k addr s)"
  unfolding file_stat_def Let_def by (intro kept_rules)

lemma kept_loadseg_loop: "kept s (loadseg_loop pt va ip off sz i s)"
proof (induction pt va ip off sz i s rule: loadseg_loop.induct)
  case (1 pt va ip off sz i s)
  show ?case
    by (subst loadseg_loop.simps) (intro kept_bind_eq kept_rules; rule "1.IH"; assumption)
qed

lemma kept_load_phs: "kept s (load_phs pt ip n off sz s)"
proof (induction n arbitrary: off sz s)
  case (Suc n)
  have "kept s (load_ph pt ip off sz s)" for s :: kstate
    unfolding load_ph_def loadseg_def Let_def by (intro kept_rules kept_loadseg_loop)
  then show ?case unfolding load_phs.simps by (intro kept_rules Suc)
qed (simp only: load_phs.simps kept_simple)

lemma kept_push_args: "kept s (push_args pt base argv sp us s)"
proof (induction argv arbitrary: sp us s)
  case (Cons a argv)
  then show ?case unfolding push_args.simps Let_def by (intro kept_rules)
qed (simp only: push_args.simps kept_simple)

lemma kept_exec_args: "kept s (exec_args n uargv i argv s)"
proof (induction n arbitrary: i argv s)
  case (Suc n)
  then show ?case unfolding exec_args.simps Let_def by (intro kept_rules)
qed (simp only: exec_args.simps, intro kept_rules)

lemma kept_exec [kept_rules]: "kept s (exec tr ip path argv s)"
proof -
  have f: "kept s (fail_work pt ip' sz s)" for pt ip' sz and s :: kstate
    unfolding fail_work_def by (intro kept_rules)
  have c: "kept s (exec_commit elf path pt oldsz sz sp s)" for elf pt oldsz sz sp and s :: kstate
    unfolding exec_commit_def by (intro kept_rules) simp
  have "kept s (exec_stack elf path argv pt sz s)" for elf pt sz and s :: kstate
    unfolding exec_stack_def Let_def by (intro kept_rules f c kept_push_args)
  then show ?thesis unfolding exec_def Let_def by (intro kept_rules f kept_load_phs)
qed

section \<open>System calls that are not about descriptors\<close>

lemma kept_user [kept_rules]: "kept s (upd_user f s)"
  by (auto simp: upd_user_def kept_def same_files_def split: option.splits)

lemma kept_sys [kept_rules]:
  "kept s (sys_kill s)" "kept s (sys_fstat s)" "kept s (sys_chdir s)" "kept s (sys_getpid s)" "kept s (sys_sbrk s)"
  "kept s (sys_sleep s)" "kept s (sys_uptime s)" "kept s (sys_mknod s)" "kept s (sys_unlink s)" "kept s (sys_link s)"
  "kept s (sys_mkdir s)" "kept s (sys_setuid s)" "kept s (sys_setgid s)" "kept s (sys_exec e s)"
  unfolding sys_kill_def sys_fstat_def sys_chdir_def sys_getpid_def sys_sbrk_def sys_sleep_def sys_uptime_def
    sys_mknod_def sys_unlink_def sys_link_def sys_mkdir_def sys_setuid_def sys_setgid_def sys_exec_def
  by (intro kept_rules kept_exec_args; simp)+

lemma kept_sys_rw [kept_rules]:
  assumes "devs_keep e"
  shows "kept s (sys_read e s)" "kept s (sys_write e s)"
  unfolding sys_read_def sys_write_def by (intro kept_rules assms)+

lemma kept_forkret: "kept s (forkret s)"
proof -
  have h: "kept s (brelse i (s\<lparr>lh_n := n, lh_block := bl\<rparr>))" for i n bl and s :: kstate
    by (rule kept_from [OF _ kept_bio(2)]) (simp add: same_files_def)
  have r: "kept s (rhead s)" for s :: kstate unfolding rhead_def Let_def by (intro kept_rules h)
  have w: "kept s (whead s)" for s :: kstate unfolding whead_def by (intro kept_rules)
  have l: "kept s (lh_block_at k s)" for k and s :: kstate by (simp add: lh_block_at_def kept_result)
  have i: "kept s (install_trans b s)" for b and s :: kstate
    unfolding install_trans_def install_one_def by (intro kept_rules l)
  have "kept s (log_init d a n s)" for d a n and s :: kstate
    unfolding log_init_def recover_def by (intro kept_rules r w i) (simp_all add: same_files_def)
  then show ?thesis unfolding forkret_def fs_init_def read_supblock_def
    by (intro kept_rules) (simp_all add: same_files_def)
qed

end
