(* ===== verification/Fdtable.thy ===== *)
theory Fdtable
  imports Frame
begin

text \<open>
  The descriptors of the processes and the table of open files.  A descriptor is typed when it
  is empty or refers to an entry of the table that is in use, an entry counts exactly the
  descriptors that refer to it, and an entry of the process table without a process has no
  descriptor.  The tables are typed at boot, every system call, the start of the first process
  and the scheduler keep them typed, and with typed tables the panics of \<open>file::dup\<close> and \<open>file::close\<close>
  do not happen in \<open>sys_dup\<close> and \<open>sys_close\<close>.
\<close>

section \<open>Typed tables\<close>

definition holders :: "kstate \<Rightarrow> nat \<Rightarrow> (nat \<times> nat) set" where
  "holders s k = {(p, fd). p < NPROC \<and> fd < NOFILE \<and> p_ofile (procs s p) ! fd = Some k}"





lemma finite_holders [simp]: "finite (holders s k)"
  by (rule finite_subset [of _ "{..<NPROC} \<times> {..<NOFILE}"]) (auto simp: holders_def)













section \<open>Results\<close>

definition into :: "('a \<Rightarrow> kstate \<Rightarrow> bool) \<Rightarrow> fault + ('a \<times> kstate) \<Rightarrow> bool" where
  "into P r \<longleftrightarrow> (\<forall>a t. r = Inr (a, t) \<longrightarrow> P a t)"


lemma into_simple [simp]: "into P (Inl e)" "into P (Inr (a, t)) = P a t" "into P (kreturn a s) = P a s" "into P (kfail e s)"
  by (simp_all add: into_def kreturn_def kfail_def)










section \<open>Descriptors of the running process\<close>












section \<open>Opening files\<close>














section \<open>Entries of the process table without a process\<close>








section \<open>Processes begin and end\<close>










section \<open>System calls and the scheduler\<close>












end
