(* ===== verification/Spec2Isabelle.thy ===== *)
theory Spec2Isabelle
  imports Cstring Pipe Console Lock Log Pagetable Teardown Trap Sched Vqueue Path Falloc Fdtable
begin

text \<open>
  Verification of os-cpp, an operating system kernel for RISC-V 64 in C++ (\<open>src/kernel\<close>).

  \<^bold>\<open>The program.\<close>  User programs enter the kernel through traps; \<open>trap.cpp\<close> hands system calls to
  \<open>syscall.cpp\<close> and \<open>sysfile.cpp\<close>, device interrupts to the drivers (\<open>uart.cpp\<close> with \<open>console.cpp\<close>,
  \<open>virtio_disk.cpp\<close>) and timer interrupts to the scheduler in \<open>proc.cpp\<close>.  System calls work on open
  files (\<open>file.cpp\<close>), which are pipes (\<open>pipe.cpp\<close>), devices, or inodes of the file system (\<open>fs.cpp\<close>).
  The file system reads and writes blocks through the buffer cache (\<open>bio.cpp\<close>) and groups its
  writes into transactions of the log (\<open>log.cpp\<close>).  Processes own page tables made by \<open>vm.cpp\<close>;
  \<open>loader.cpp\<close> fills them from program files.  Shared data is protected by \<open>lock.cpp\<close>.

  \<^bold>\<open>The kind of model.\<close>  Code is translated function by function under its own name (a suffix or
  prefix where HOL has the name already: \<open>proc_free\<close>, \<open>file_close\<close>, \<open>cons_read\<close>).  An operation is a
  function of type \<open>('s, 'a) kop\<close> (\<open>Prelude\<close>): it takes the state and gives a result with the new
  state, or a fault: \<open>Panic\<close> for \<open>fmt::panic\<close>, \<open>Sleeps\<close> for a \<open>proc::sleep\<close> in an operation that is
  modelled up to its first sleep, \<open>Oob\<close> for an access outside of an object or through a null
  pointer, \<open>Diverges\<close> for a loop that does not end.  Machine integers are words of their width.
  A pointer into a static table is an index, memory is a function from addresses to bytes.
  Where the order of steps of several agents matters, the operations are the steps of an
  inductive relation and the properties are invariants of its reachable states.

  \<^bold>\<open>The theories\<close> and the code they model:
  \<^item> \<open>Prelude\<close>: faults, the state-passing combinators, little-endian integers in byte arrays.
  \<^item> \<open>Cstring\<close>: \<open>micro_libcxx/src/cstring.cpp\<close>.  \<open>memmove\<close> is right for overlapping regions;
    \<open>strncpy\<close> is right for terminated sources and overruns for others; \<open>strncmp\<close> decides equality.
  \<^item> \<open>Ring\<close>: what the ring buffers of pipe, uart and console share, for any word length.
  \<^item> \<open>Pipe\<close>: \<open>pipewrite\<close>, \<open>piperead\<close>, \<open>pipeclose\<close>; readers and writers interleaved at their sleeps.
    Order of bytes, no lost wakeup while kills fall between segments, one when they do not.
  \<^item> \<open>Uart\<close>, \<open>Console\<close>: \<open>uart.cpp\<close>, \<open>console.cpp\<close>.  The interrupt handler refines a line editor, \<open>read\<close>
    delivers lines in order, \<open>write\<close> hands over bytes in order.
  \<^item> \<open>Lock\<close>: \<open>lock.cpp\<close>.  Spin locks at the granularity of memory accesses, sleep locks, nested \<open>push_off\<close>
    and \<open>pop_off\<close>.  The locale \<open>mutex_system\<close> states mutual exclusion once; it is interpreted for spin
    locks, for sleep locks and, in \<open>Sched\<close>, for the stacks of processes.
  \<^item> \<open>Bio\<close>: \<open>bio.cpp\<close>, the doubly linked list included; the disk keeps the list of its writes.
  \<^item> \<open>Log\<close>: \<open>log.cpp\<close>.  A crash after any prefix of the writes of \<open>commit\<close> or of recovery leaves all
    or nothing of the transaction; \<open>commit\<close> installs it; \<open>lwrite\<close> keeps the discipline that these
    need; admission by \<open>begin_op\<close>.  \<open>Txn\<close>: what a caller inside a transaction sees of single accesses,
    and three admitted operations that overflow the log together.
  \<^item> \<open>Riscv\<close>, \<open>Vm\<close>: \<open>arch/riscv.h\<close>, \<open>vm.cpp\<close>.  \<open>Pagetable\<close> relates the words in memory to a tree of
    tables: \<open>map_pages\<close>, \<open>copyin\<close>, \<open>copyout\<close>, \<open>kalloc\<close> and \<open>kfree\<close> (the locale \<open>page_pool\<close>), \<open>kinit\<close>.
    \<open>Teardown\<close>: \<open>free_walk\<close> ends and gives back every table once.
  \<^item> \<open>Kstate\<close>: the structures of \<open>fs.h\<close>, \<open>file.h\<close>, \<open>proc.h\<close> and the one state record of the kernel,
    which extends the state of the log, which extends that of the buffer cache.
  \<^item> \<open>Fs\<close>: all of \<open>fs.cpp\<close>.  \<open>Falloc\<close>: \<open>balloc\<close> takes the first free block, \<open>bfree\<close> tests the wrong bit,
    \<open>iupdate\<close> and \<open>ilock\<close> carry an inode to the disk and back.  \<open>Path\<close>: \<open>namex\<close> is equivalent to a
    walk over the list of path elements.
  \<^item> \<open>Proc\<close>, \<open>Lifecycle\<close>: \<open>proc.cpp\<close>, with the scheduler as the step relation \<open>psched_step\<close>.
    \<open>Sched\<close>: two CPUs are never on the stack of the same process.
  \<^item> \<open>File\<close>: \<open>file.cpp\<close> and \<open>pipealloc\<close>.  \<open>Loader\<close>: \<open>loader.cpp\<close>, \<open>elf.h\<close>.  \<open>Sysfile\<close>: every system call and
    the dispatch.  \<open>Frame\<close>: what the operations of the kernel leave alone of the descriptors.
    \<open>Fdtable\<close>: descriptors are typed at boot and stay typed under all system calls, run as the steps of
    \<open>sys_step\<close> one after the other; a call that sleeps is not followed beyond its sleep.
  \<^item> \<open>Virtio\<close>: \<open>virtio_disk.cpp\<close>.  \<open>Vqueue\<close>: processes, device and interrupt handler interleaved;
    requests do not interfere and can be finished, but a process that waits for descriptors
    can wait forever.
  \<^item> \<open>Trap\<close>: \<open>trap.cpp\<close>, \<open>plic.cpp\<close>, \<open>main.cpp\<close>.

  This theory adds what spans them: a transaction that allocates a block, through file system,
  log and buffer cache, survives a crash as a whole or not at all.

  \<^bold>\<open>Loops and fuel.\<close>  Loops are functions with a termination proof.  Where a counter of the code can
  wrap around, the model takes one more test that the counter has grown and is \<open>Diverges\<close>
  otherwise; \<open>balloc_correct\<close> and \<open>kinit_frees_all\<close> show that this branch is not taken there.  The walk
  along the list of buffers is a \<open>partial_function\<close>, whose result exists under the invariant of the
  cache.  \<open>free_walk\<close> has \<open>LEVELS\<close> = 3 as fuel, the depth of the page tables; \<open>free_walk_ends\<close> shows that it
  is enough.

  \<^bold>\<open>Assumptions on other parts.\<close>  The contents that registers of devices return are parameters.
  The disk of \<open>Bio\<close> performs a block write as one step; the device of \<open>Vqueue\<close> takes each
  published request once and completes it with status 0.  The functions that the drivers put
  into \<open>devsw\<close> are parameters of \<open>read\<close> and \<open>write\<close>; \<open>descriptors_typed\<close> assumes of them (\<open>devs_keep\<close>) that they
  leave the tables of files and descriptors alone.  Addresses of linker symbols and the
  entry points of assembly code are parameters of the functions that use them.  A critical section
  of a spin lock is one step, which \<open>spinlock_mutual_exclusion\<close> justifies.  Memory accesses are
  sequentially consistent.

  \<^bold>\<open>Not modelled.\<close>  Assembly (\<open>start.S\<close>, \<open>trampoline.S\<close>, \<open>kernelvec.S\<close>, \<open>swtch.S\<close>): the registers that it
  saves and restores are not part of the state.  Formatted output (\<open>fmt\<close>) and \<open>proc::dump\<close>, which
  only print.  The headers of \<open>micro_libcxx\<close> that re-declare parts of the C++ library.  The user
  side: \<open>ulibc\<close>, \<open>ulibc++\<close> except its copy of \<open>cstring.cpp\<close>, \<open>utils\<close>; and \<open>mkfs\<close>, a program of the host
  that writes the disk image through the host's file interface.  Timing, and the order in
  which a weaker memory model could make writes visible.
\<close>

section \<open>A block allocation across file system, log and buffer cache\<close>

text \<open>The disk \<open>d\<close> is that of \<open>s\<close> with block \<open>r\<close> taken: marked, zeroed, and nothing else changed.\<close>

definition took_block :: "kstate \<Rightarrow> u32 \<Rightarrow> (u32 \<Rightarrow> bytes) \<Rightarrow> bool" where
  "took_block s r d \<longleftrightarrow> (\<forall>c < sb_size (sb s). in_use d (sb s) c \<longleftrightarrow> in_use (disk s) (sb s) c \<or> c = r)
     \<and> d r = replicate BSIZE 0
     \<and> (\<forall>x. x \<notin> log_area s \<longrightarrow> x \<noteq> r \<longrightarrow> x \<noteq> BBLOCK r (sb s) \<longrightarrow> d x = disk s x)"

lemma took_block_view:
  assumes "map_ok s" and "view s = disk s" and r: "r < sb_size (sb s)" "\<not> in_use (disk s) (sb s) r"
    and v: "took_block s r v" and "data_area (lstart s) d = data_area (lstart s) v"
  shows "took_block s r d"
proof -
  have eq: "d x = v x" if "x \<notin> log_area s" for x
    using fun_cong [OF assms(6), of x] that by (simp add: data_area_def log_area_at)
  have "c < sb_size (sb s) \<Longrightarrow> BBLOCK c (sb s) \<notin> log_area s" "r \<notin> log_area s" for c
    using assms(1,2) r by (auto simp: map_ok_def)
  then show ?thesis using v eq by (simp add: took_block_def in_use_bit)
qed

text \<open>Where the free map has changed something is logged.\<close>

lemma took_block_logged:
  assumes "map_ok s" and r: "r < sb_size (sb s)" "\<not> in_use (disk s) (sb s) r"
    and t: "txn_inv t" "framed s t" "took_block s r (view t)"
  shows "0 < lh_n t"
proof -
  let ?b = "BBLOCK r (sb s)"
  have "in_use (view t) (sb s) r" using t(3) r(1) by (simp add: took_block_def)
  then have "view t ?b \<noteq> disk s ?b" using r(2) by (auto simp: in_use_bit)
  moreover have "?b \<notin> log_area s" using assms(1) r(1) by (simp add: map_ok_def)
  ultimately have "card {?b} \<le> nblocks t"
    using t(2) by (intro logged_count [OF t(1)]) (simp add: framed_area [OF t(2)] framed_def)
  then show ?thesis by (simp add: nblocks_def)
qed

text \<open>
  C9: allocating a block is atomic.  The only operation of a transaction that has logged nothing
  yet, on a file system with a free block, calls \<open>balloc\<close> and \<open>end_op\<close>.  Both return.  \<open>end_op\<close> commits:
  afterwards the block is marked in the free map on disk, filled with zeros, and no other
  block of the data area has changed.  If the machine stops after any number \<open>k\<close> of the disk
  writes between the two and reboots, the data area is what it was before or the same as after
  the commit; a block that is marked and not zeroed, or zeroed and not marked, is never found.
\<close>

theorem balloc_crash_atomic:
  assumes "calm 3 s" and "map_ok s" and "lh_n s = 0" and "outstanding s = 1" and "\<not> committing s"
    and "\<not> (\<forall>c < sb_size (sb s). in_use (disk s) (sb s) c)"
  shows "\<exists>r t v ws. balloc ROOTDEV s = Inr (r, t) \<and> \<not> in_use (disk s) (sb s) r
    \<and> end_op t = Inr ((), v) \<and> writes v = writes s @ ws \<and> lh_n v = 0 \<and> took_block s r (disk v)
    \<and> (\<forall>k pid. \<exists>u. reboot (lstart s) (lsize s) pid (apply_writes (take k ws) (disk s)) = Inr ((), u)
        \<and> (data_area (lstart s) (disk u) = data_area (lstart s) (disk s) \<or> took_block s r (disk u)))"
proof -
  have c3: "calm (Suc (Suc 1)) s" using assms(1) by (simp add: numeral_3_eq_3)
  have vd: "view s x = disk s x" for x
    using calmD(1) [OF c3] assms(3) by (cases "x \<in> log_area s") (auto simp: txn_inv_def all_logged_def nblocks_def)
  then have v: "view s = disk s" by auto
  obtain r t where t: "balloc ROOTDEV s = Inr (r, t)" "calm 1 t" "framed s t"
    and r: "r < sb_size (sb s)" "\<not> in_use (disk s) (sb s) r" and tk: "took_block s r (view t)"
    using balloc_spec [OF c3 assms(2)] assms(6) unfolding v took_block_def by (auto split: if_splits)
  note f = t(3) [unfolded framed_def]
  have pos: "0 < lh_n t" by (rule took_block_logged [OF assms(2) r calmD(1) [OF t(2)] t(3) tk])
  have ready: "commit_ready t" "all_logged t"
    using t(2) calmD(5) [OF t(2)] by (auto simp: calm_def intro!: txn_commit_ready)
  obtain w where w: "end_op t = Inr ((), w)" "writes w = writes t @ commit_writes t"
    "disk w = apply_writes (commit_writes t) (disk t)" "lh_n w = 0"
    using end_op_commits [OF t(2) _ _ pos] f assms(4,5) by auto
  note tb = took_block_view [OF assms(2) v r tk]
  have new: "took_block s r (disk w)" using crash_after_commit(2) [OF ready] w(3) f by (intro tb) simp
  have "\<exists>u. reboot (lstart s) (lsize s) pid (apply_writes (take k (commit_writes t)) (disk s)) = Inr ((), u)
      \<and> (data_area (lstart s) (disk u) = data_area (lstart s) (disk s) \<or> took_block s r (disk u))" for k pid
  proof -
    let ?d = "apply_writes (take k (commit_writes t)) (disk s)"
    have p: "header_ok (lstart s) ?d" "data_area (lstart s) (recovered (lstart s) ?d) = data_area (lstart s) (disk s)
       \<or> data_area (lstart s) (recovered (lstart s) ?d) = data_area (lstart s) (view t)"
      using crash_prefix [OF ready, of k] f by simp_all
    then show ?thesis using data_area_reboot [OF p(1), of "lsize s" pid] tb by metis
  qed
  then show ?thesis using t(1) r(2) w new f
    by (intro exI [of _ r] exI [of _ t] exI [of _ w] exI [of _ "commit_writes t"]) simp
qed

theorem balloc_crash_atomic_witness:
  "\<forall>k. \<exists>r t v ws. balloc ROOTDEV (first_txn k demo_map demo_sb) = Inr (r, t) \<and> end_op t = Inr ((), v)
     \<and> writes v = writes (first_txn k demo_map demo_sb) @ ws \<and> took_block (first_txn k demo_map demo_sb) r (disk v)
     \<and> (\<exists>u. reboot 2 30 1 (apply_writes (take 3 ws) demo_map) = Inr ((), u))"
proof
  fix k
  let ?s = "first_txn k demo_map demo_sb"
  have c: "calm 3 ?s" by (rule calm_mono [OF demo_map_ok(1)]) simp
  have d: "disk ?s = demo_map" "outstanding ?s = 1" "\<not> committing ?s" by (simp add: first_txn_def, simp_all add: first_txn_fields)
  have "\<not> (\<forall>c < sb_size (sb ?s). in_use (disk ?s) (sb ?s) c)"
  proof
    assume "\<forall>c < sb_size (sb ?s). in_use (disk ?s) (sb ?s) c"
    then have "in_use demo_map demo_sb 48" unfolding d(1) demo_map_ok(4) by (rule allE [of _ 48]) (simp add: demo_sb_def)
    then show False using demo_map_bits(2) [of 48] by simp
  qed
  from balloc_crash_atomic [OF c demo_map_ok(2) first_txn_fields(5) d(2,3) this]
  show "\<exists>r t v ws. balloc ROOTDEV ?s = Inr (r, t) \<and> end_op t = Inr ((), v) \<and> writes v = writes ?s @ ws
     \<and> took_block ?s r (disk v) \<and> (\<exists>u. reboot 2 30 1 (apply_writes (take 3 ws) demo_map) = Inr ((), u))"
    unfolding d(1) first_txn_fields by blast
qed

end
